(* ===== verification/Prelude.thy ===== *)
theory Prelude
  imports Main "HOL-Library.Word"
begin

section \<open>Shared vocabulary of the development\<close>

text \<open>
  What every component uses: bytes and byte-addressed memory (the pointers of the C++ code are
  offsets into a memory), unsigned 64-bit differences with their wrap-around written out,
  little-endian encodings (what \<^verbatim>\<open>memcpy\<close> of an integer object leaves in memory), the decimal
  digits \<^verbatim>\<open>std::to_string\<close> gives, sequencing of computations that may throw, and the collections
  of rewrite rules the component proofs rest on.
\<close>

subsection \<open>Rule collections\<close>

named_theorems mem_simps \<open>reads of a memory after a write\<close>
named_theorems scan_simps \<open>scanning loops on a string of known shape\<close>
named_theorems buffer_simps \<open>accessors and updates of the staging buffer operations\<close>

subsection \<open>Bytes and memory\<close>

type_synonym byte = char
type_synonym mem = "nat \<Rightarrow> byte"

abbreviation NUL :: byte where
  "NUL \<equiv> CHR 0x00"

definition mem_read :: "mem \<Rightarrow> nat \<Rightarrow> nat \<Rightarrow> byte list" where
  "mem_read m a n = map m [a..<a + n]"

definition mem_write :: "mem \<Rightarrow> nat \<Rightarrow> byte list \<Rightarrow> mem" where
  "mem_write m a bs = (\<lambda>i. if a \<le> i \<and> i < a + length bs then bs ! (i - a) else m i)"

lemma length_mem_read [simp]: "length (mem_read m a n) = n"
  by (simp add: mem_read_def)

lemma mem_read_0 [simp]: "mem_read m a 0 = []"
  by (simp add: mem_read_def)

lemma nth_mem_read [simp]: "i < n \<Longrightarrow> mem_read m a n ! i = m (a + i)"
  by (simp add: mem_read_def)

lemma mem_read_Nil_iff [simp]: "mem_read m a n = [] \<longleftrightarrow> n = 0"
  by (auto simp: mem_read_def)

lemma mem_read_append: "mem_read m a (k + l) = mem_read m a k @ mem_read m (a + k) l"
  by (rule nth_equalityI) (auto simp: nth_append)

lemma mem_read_split:
  assumes "k \<le> n"
  shows "mem_read m a n = mem_read m a k @ mem_read m (a + k) (n - k)"
  using assms mem_read_append [of m a k "n - k"] by simp

lemma take_mem_read [simp]: "take k (mem_read m a n) = mem_read m a (min k n)"
  by (rule nth_equalityI) auto

lemma drop_mem_read [simp]: "drop k (mem_read m a n) = mem_read m (a + k) (n - k)"
  by (rule nth_equalityI) (auto simp: add.assoc)

lemma mem_read_cong:
  assumes "\<And>i. a \<le> i \<Longrightarrow> i < a + n \<Longrightarrow> m i = m' i"
  shows "mem_read m a n = mem_read m' a n"
  using assms by (auto intro!: nth_equalityI)

lemma mem_write_Nil [mem_simps]: "mem_write m a [] = m"
  by (auto simp: mem_write_def fun_eq_iff)

lemma mem_read_write_same [mem_simps]:
  "mem_read (mem_write m a bs) a (length bs) = bs"
  by (rule nth_equalityI) (auto simp: mem_write_def)

lemma mem_read_write_before [mem_simps]:
  "b + n \<le> a \<Longrightarrow> mem_read (mem_write m a bs) b n = mem_read m b n"
  by (rule mem_read_cong) (auto simp: mem_write_def)

lemma mem_read_write_after [mem_simps]:
  "a + length bs \<le> b \<Longrightarrow> mem_read (mem_write m a bs) b n = mem_read m b n"
  by (rule mem_read_cong) (auto simp: mem_write_def)

lemma mem_read_write_part:
  "k + n \<le> length bs \<Longrightarrow> mem_read (mem_write m a bs) (a + k) n = take n (drop k bs)"
  by (rule nth_equalityI) (auto simp: mem_write_def)

lemma mem_write_append:
  "mem_write (mem_write m a xs) (a + length xs) ys = mem_write m a (xs @ ys)"
  by (auto simp: mem_write_def fun_eq_iff nth_append)

text \<open>Writes to adjacent ranges, the later range first.\<close>

lemma mem_write_backwards:
  "mem_write (mem_write m (a + length xs) ys) a xs = mem_write m a (xs @ ys)"
  by (auto simp: mem_write_def fun_eq_iff nth_append)

lemma mem_write_outside:
  "i < a \<or> a + length bs \<le> i \<Longrightarrow> mem_write m a bs i = m i"
  by (auto simp: mem_write_def)

lemma mem_write_same [mem_simps]:
  assumes "mem_read m a (length r) = r"
  shows "mem_write m a r = m"
proof
  fix i
  show "mem_write m a r i = m i"
  proof (cases "a \<le> i \<and> i < a + length r")
    case True
    then have "i - a < length r" by auto
    then have "mem_read m a (length r) ! (i - a) = m i" using True by simp
    then show ?thesis using True assms by (simp add: mem_write_def)
  next
    case False
    then show ?thesis by (auto simp: mem_write_def)
  qed
qed

subsection \<open>Unsigned 64-bit differences\<close>

text \<open>
  Pointer differences stored into a \<^verbatim>\<open>uint64_t\<close>: a negative difference wraps around.
\<close>

definition sub64 :: "nat \<Rightarrow> nat \<Rightarrow> nat" where
  "sub64 a b = (if b \<le> a then a - b else 2 ^ 64 - (b - a))"

lemma sub64_le [simp]: "b \<le> a \<Longrightarrow> sub64 a b = a - b"
  by (simp add: sub64_def)

subsection \<open>Computations that may throw\<close>

text \<open>\<open>Inl\<close> is the exception (or the failed assertion), \<open>Inr\<close> the value.\<close>

fun sum_bind :: "'e + 'a \<Rightarrow> ('a \<Rightarrow> 'e + 'b) \<Rightarrow> 'e + 'b" where
  "sum_bind (Inl e) f = Inl e"
| "sum_bind (Inr x) f = f x"

lemma sum_bind_Inr_iff:
  "sum_bind m f = Inr y \<longleftrightarrow> (\<exists>x. m = Inr x \<and> f x = Inr y)"
  by (cases m) auto

lemma sum_bind_Inl_iff:
  "sum_bind m f = Inl e \<longleftrightarrow> m = Inl e \<or> (\<exists>x. m = Inr x \<and> f x = Inl e)"
  by (cases m) auto

text \<open>The elements of a list computed left to right; the first exception ends it.\<close>

fun sum_map :: "('a \<Rightarrow> 'e + 'b) \<Rightarrow> 'a list \<Rightarrow> 'e + 'b list" where
  "sum_map f [] = Inr []"
| "sum_map f (x # xs) =
     sum_bind (f x) (\<lambda>y. sum_bind (sum_map f xs) (\<lambda>ys. Inr (y # ys)))"

lemma sum_map_Inr:
  assumes "\<And>x. x \<in> set xs \<Longrightarrow> f x = Inr (g x)"
  shows "sum_map f xs = Inr (map g xs)"
  using assms by (induction xs) auto

subsection \<open>Little-endian encodings\<close>

text \<open>The object representation of an unsigned integer of \<open>n\<close> bytes, low byte first.\<close>

fun le_bytes :: "nat \<Rightarrow> nat \<Rightarrow> byte list" where
  "le_bytes 0 v = []"
| "le_bytes (Suc n) v = char_of (v mod 256) # le_bytes n (v div 256)"

fun le_nat :: "byte list \<Rightarrow> nat" where
  "le_nat [] = 0"
| "le_nat (b # bs) = of_char b + 256 * le_nat bs"

lemma length_le_bytes [simp]: "length (le_bytes n v) = n"
  by (induction n arbitrary: v) auto

lemma le_nat_le_bytes [simp]: "le_nat (le_bytes n v) = v mod 256 ^ n"
proof (induction n arbitrary: v)
  case 0
  then show ?case by simp
next
  case (Suc n)
  have "le_nat (le_bytes (Suc n) v) = v mod 256 + 256 * (v div 256 mod 256 ^ n)"
    by (simp add: Suc)
  also have "\<dots> = v mod 256 ^ Suc n"
    by (simp add: mod_mult2_eq)
  finally show ?case .
qed

lemma le_nat_less: "le_nat bs < 256 ^ length bs"
proof (induction bs)
  case Nil
  then show ?case by simp
next
  case (Cons b bs)
  obtain d :: nat where d: "of_char b = d" "d < 256"
    using nat_of_char_less_256 [of b] by blast
  then have "of_char b + 256 * le_nat bs < 256 * Suc (le_nat bs)" by simp
  also have "\<dots> \<le> 256 * 256 ^ length bs"
    using Cons by (intro mult_le_mono2) simp
  finally show ?case by simp
qed

lemma le_bytes_le_nat [simp]: "le_bytes (length bs) (le_nat bs) = bs"
  by (induction bs) auto

subsection \<open>Decimal digits\<close>

text \<open>\<^verbatim>\<open>std::to_string\<close> of an unsigned value: its decimal digits, at least one.\<close>

definition digit_char :: "nat \<Rightarrow> char" where
  "digit_char d = char_of (48 + d)"

fun to_string :: "nat \<Rightarrow> string" where
  "to_string n = (if n < 10 then [digit_char n] else to_string (n div 10) @ [digit_char (n mod 10)])"

declare to_string.simps [simp del]

definition decimal :: "string \<Rightarrow> nat" where
  "decimal s = foldl (\<lambda>v c. 10 * v + (of_char c - 48)) 0 s"

lemma digit_char_value [simp]: "d < 10 \<Longrightarrow> of_char (digit_char d) = (48 + d :: nat)"
  by (simp add: digit_char_def)

lemma to_string_not_Nil [simp]: "to_string n \<noteq> []"
  by (subst to_string.simps) simp

lemma decimal_snoc: "decimal (s @ [c]) = 10 * decimal s + (of_char c - 48)"
  by (simp add: decimal_def)

lemma decimal_to_string [simp]: "decimal (to_string n) = n"
proof (induction n rule: to_string.induct)
  case (1 n)
  show ?case
  proof (cases "n < 10")
    case True
    then show ?thesis by (subst to_string.simps) (simp add: decimal_def)
  next
    case False
    then have "decimal (to_string n) = 10 * decimal (to_string (n div 10)) + n mod 10"
      by (subst to_string.simps) (simp add: decimal_snoc)
    with False 1 show ?thesis by simp
  qed
qed

lemma length_to_string_le_iff:
  "0 < k \<Longrightarrow> length (to_string n) \<le> k \<longleftrightarrow> n < 10 ^ k"
proof (induction n arbitrary: k rule: to_string.induct)
  case (1 n)
  show ?case
  proof (cases "n < 10")
    case True
    with 1 have "10 \<le> (10 :: nat) ^ k" by (cases k) auto
    with True 1 show ?thesis by (subst to_string.simps) auto
  next
    case False
    obtain l where k: "k = Suc l" using 1 by (cases k) auto
    have len: "length (to_string n) = Suc (length (to_string (n div 10)))"
      using False by (subst to_string.simps) simp
    show ?thesis
    proof (cases "l = 0")
      case True
      with False len k show ?thesis by simp
    next
      case nz: False
      have "n < 10 * 10 ^ l \<longleftrightarrow> n div 10 < 10 ^ l"
        by (simp add: div_less_iff_less_mult mult.commute)
      with 1(1) [of l] False nz len k show ?thesis by simp
    qed
  qed
qed


end
