(* ===== verification/FormatParser.thy ===== *)
theory FormatParser
  imports Prelude
begin

section \<open>The compile-time format string parser\<close>

text \<open>
  The \<^verbatim>\<open>constexpr\<close> part of \<^verbatim>\<open>src/src/static_log_internal.h\<close>: the parameter types, the character
  classes, \<^verbatim>\<open>getParamInfo\<close> and the functions built on it. A \<^verbatim>\<open>const char (&fmt)[N]\<close> is the list of
  its \<open>N - 1\<close> characters before the terminating NUL; the read of \<open>fmt[N - 1]\<close> gives NUL, and a read
  beyond the array (a compile error in a constant expression) is the error \<open>Out_of_range\<close>. A signed
  overflow of the precision, which also ends constant evaluation, is \<open>Precision_overflow\<close>.

  The reference semantics is a grammar: a format is a list of items (a literal character, the escape
  of a percent sign, a conversion specifier), an item has the parameter types it consumes, and
  \<^verbatim>\<open>getParamInfo\<close> is shown to look a parameter up in the concatenation of these lists.
\<close>

subsection \<open>Parameter types\<close>

text \<open>
  \<^verbatim>\<open>enum ParamType : int32_t\<close> is open: every non-negative value is a string with that precision.
\<close>

datatype ParamType =
    kINVALID
  | kDYNAMIC_WIDTH
  | kDYNAMIC_PRECISION
  | kNON_STRING
  | kSTRING_WITH_DYNAMIC_PRECISION
  | kSTRING_WITH_NO_PRECISION
  | kSTRING nat

primrec param_code :: "ParamType \<Rightarrow> int" where
  "param_code kINVALID = - 6"
| "param_code kDYNAMIC_WIDTH = - 5"
| "param_code kDYNAMIC_PRECISION = - 4"
| "param_code kNON_STRING = - 3"
| "param_code kSTRING_WITH_DYNAMIC_PRECISION = - 2"
| "param_code kSTRING_WITH_NO_PRECISION = - 1"
| "param_code (kSTRING n) = int n"

lemma param_code_inject [simp]: "param_code s = param_code t \<longleftrightarrow> s = t"
  by (cases s; cases t) auto

text \<open>The comparisons of the code (\<^verbatim>\<open>fmt_type <= ParamType::kNON_STRING\<close>) are those of the values.\<close>

instantiation ParamType :: linorder
begin

definition less_eq_ParamType :: "ParamType \<Rightarrow> ParamType \<Rightarrow> bool" where
  "s \<le> t \<longleftrightarrow> param_code s \<le> param_code t"

definition less_ParamType :: "ParamType \<Rightarrow> ParamType \<Rightarrow> bool" where
  "s < t \<longleftrightarrow> param_code s < param_code t"

instance
  by standard (auto simp: less_eq_ParamType_def less_ParamType_def)

end

lemmas param_order = less_eq_ParamType_def less_ParamType_def

lemma le_kNON_STRING_iff:
  "t \<le> kNON_STRING \<longleftrightarrow> t \<in> {kINVALID, kDYNAMIC_WIDTH, kDYNAMIC_PRECISION, kNON_STRING}"
  by (cases t) (auto simp: param_order)

subsection \<open>Character classes\<close>

definition isFlag :: "char \<Rightarrow> bool" where
  "isFlag c \<longleftrightarrow> c = CHR ''-'' \<or> c = CHR ''+'' \<or> c = CHR '' '' \<or> c = CHR ''#'' \<or> c = CHR ''0''"

definition isDigit :: "char \<Rightarrow> bool" where
  "isDigit c \<longleftrightarrow> (48 :: nat) \<le> of_char c \<and> of_char c \<le> (57 :: nat)"

definition isLength :: "char \<Rightarrow> bool" where
  "isLength c \<longleftrightarrow> c = CHR ''h'' \<or> c = CHR ''l'' \<or> c = CHR ''j''
     \<or> c = CHR ''z'' \<or> c = CHR ''t'' \<or> c = CHR ''L''"

definition isTerminal :: "char \<Rightarrow> bool" where
  "isTerminal c \<longleftrightarrow> c = CHR ''d'' \<or> c = CHR ''i''
     \<or> c = CHR ''u'' \<or> c = CHR ''o''
     \<or> c = CHR ''x'' \<or> c = CHR ''X''
     \<or> c = CHR ''f'' \<or> c = CHR ''F''
     \<or> c = CHR ''e'' \<or> c = CHR ''E''
     \<or> c = CHR ''g'' \<or> c = CHR ''G''
     \<or> c = CHR ''a'' \<or> c = CHR ''A''
     \<or> c = CHR ''c'' \<or> c = CHR ''p''
     \<or> c = CHR ''%'' \<or> c = CHR ''s''
     \<or> c = CHR ''n''"

lemmas char_class_defs = isFlag_def isDigit_def isLength_def isTerminal_def

text \<open>How the classes overlap: only \<open>0\<close> is in two of them.\<close>

lemma class_NUL [simp]: "\<not> isFlag NUL" "\<not> isDigit NUL" "\<not> isLength NUL" "\<not> isTerminal NUL"
  by (simp_all add: char_class_defs)

lemma class_star [simp]:
  "\<not> isFlag CHR ''*''" "\<not> isDigit CHR ''*''" "\<not> isLength CHR ''*''" "\<not> isTerminal CHR ''*''"
  by (simp_all add: char_class_defs)

lemma class_dot [simp]:
  "\<not> isFlag CHR ''.''" "\<not> isDigit CHR ''.''" "\<not> isLength CHR ''.''" "\<not> isTerminal CHR ''.''"
  by (simp_all add: char_class_defs)

lemma digit_not_flag: "isDigit c \<Longrightarrow> c \<noteq> CHR ''0'' \<Longrightarrow> \<not> isFlag c"
  by (auto simp: char_class_defs)

lemma terminal_other:
  assumes "isTerminal c"
  shows "\<not> isFlag c" "\<not> isDigit c" "\<not> isLength c" "c \<noteq> CHR ''*''" "c \<noteq> CHR ''.''" "c \<noteq> NUL"
  using assms by (auto simp: char_class_defs)

lemma length_other:
  assumes "isLength c"
  shows "\<not> isFlag c" "\<not> isDigit c" "\<not> isTerminal c" "c \<noteq> CHR ''*''" "c \<noteq> CHR ''.''"
    "c \<noteq> CHR ''%''"
  using assms by (auto simp: char_class_defs)

lemma flag_other:
  assumes "isFlag c"
  shows "\<not> isTerminal c" "\<not> isLength c" "c \<noteq> CHR ''*''" "c \<noteq> CHR ''.''" "c \<noteq> CHR ''%''"
  using assms by (auto simp: char_class_defs)

lemma digit_other:
  assumes "isDigit c"
  shows "\<not> isTerminal c" "\<not> isLength c" "c \<noteq> CHR ''*''" "c \<noteq> CHR ''.''" "c \<noteq> CHR ''%''"
  using assms by (auto simp: char_class_defs)

subsection \<open>Control flow: exceptions, early returns, falling through\<close>

datatype fmt_error =
    Unrecognized_specifier
  | Percent_n_unsupported
  | Precision_overflow
  | Out_of_range

datatype 'a flow = Throw fmt_error | Return ParamType | Go 'a

fun flow_bind :: "'a flow \<Rightarrow> ('a \<Rightarrow> 'b flow) \<Rightarrow> 'b flow" where
  "flow_bind (Throw e) f = Throw e"
| "flow_bind (Return t) f = Return t"
| "flow_bind (Go x) f = f x"

lemma flow_bind_cong [fundef_cong]:
  "m = m' \<Longrightarrow> (\<And>x. m' = Go x \<Longrightarrow> f x = g x) \<Longrightarrow> flow_bind m f = flow_bind m' g"
  by (cases m') auto

subsection \<open>Reading the format array\<close>

definition fmt_at :: "string \<Rightarrow> nat \<Rightarrow> char flow" where
  "fmt_at fmt pos =
     (if pos < length fmt then Go (fmt ! pos)
      else if pos = length fmt then Go NUL
      else Throw Out_of_range)"

text \<open>The loops \<^verbatim>\<open>while (isX(fmt[pos])) ++pos\<close>.\<close>

function skip_while :: "(char \<Rightarrow> bool) \<Rightarrow> string \<Rightarrow> nat \<Rightarrow> nat flow" where
  "skip_while P fmt pos =
     flow_bind (fmt_at fmt pos) (\<lambda>c. if P c then skip_while P fmt (Suc pos) else Go pos)"
  by pat_completeness auto
termination
  by (relation "measure (\<lambda>(P, fmt, pos). Suc (length fmt) - pos)")
     (auto simp: fmt_at_def split: if_splits)

text \<open>The loop that accumulates a static precision.\<close>

definition INT_MAX :: int where
  "INT_MAX = 2147483647"

definition digit_value :: "char \<Rightarrow> int" where
  "digit_value c = int (of_char c) - 48"

function scan_precision :: "string \<Rightarrow> nat \<Rightarrow> int \<Rightarrow> (nat \<times> int) flow" where
  "scan_precision fmt pos precision =
     flow_bind (fmt_at fmt pos) (\<lambda>c.
       if isDigit c then
         if INT_MAX < 10 * precision + digit_value c then Throw Precision_overflow
         else scan_precision fmt (Suc pos) (10 * precision + digit_value c)
       else Go (pos, precision))"
  by pat_completeness auto
termination
  by (relation "measure (\<lambda>(fmt, pos, precision). Suc (length fmt) - pos)")
     (auto simp: fmt_at_def split: if_splits)

declare skip_while.simps [simp del] scan_precision.simps [simp del]

subsection \<open>getParamInfo\<close>

definition consume_width :: "string \<Rightarrow> nat \<Rightarrow> nat \<Rightarrow> (nat \<times> nat) flow" where
  "consume_width fmt pos param_num =
     flow_bind (fmt_at fmt pos) (\<lambda>c.
       if c = CHR ''*'' then
         if param_num = 0 then Return kDYNAMIC_WIDTH
         else Go (Suc pos, param_num - 1)
       else flow_bind (skip_while isDigit fmt pos) (\<lambda>pos. Go (pos, param_num)))"

text \<open>The result: position, remaining parameter number, \<^verbatim>\<open>hasDynamicPrecision\<close>, \<^verbatim>\<open>precision\<close>.\<close>

definition consume_precision ::
  "string \<Rightarrow> nat \<Rightarrow> nat \<Rightarrow> (nat \<times> nat \<times> bool \<times> int) flow" where
  "consume_precision fmt pos param_num =
     flow_bind (fmt_at fmt pos) (\<lambda>c.
       if c = CHR ''.'' then
         flow_bind (fmt_at fmt (Suc pos)) (\<lambda>d.
           if d = CHR ''*'' then
             if param_num = 0 then Return kDYNAMIC_PRECISION
             else Go (Suc (Suc pos), param_num - 1, True, - 1)
           else flow_bind (scan_precision fmt (Suc pos) 0)
                  (\<lambda>(pos, precision). Go (pos, param_num, False, precision)))
       else Go (pos, param_num, False, - 1))"

definition consume_terminal ::
  "string \<Rightarrow> nat \<Rightarrow> nat \<Rightarrow> bool \<Rightarrow> int \<Rightarrow> (nat \<times> nat) flow" where
  "consume_terminal fmt pos param_num hasDynamicPrecision precision =
     flow_bind (fmt_at fmt pos) (\<lambda>c.
       if \<not> isTerminal c then Throw Unrecognized_specifier
       else if c = CHR ''n'' then Throw Percent_n_unsupported
       else if param_num \<noteq> 0 then Go (Suc pos, param_num - 1)
       else if c \<noteq> CHR ''s'' then Return kNON_STRING
       else if hasDynamicPrecision then Return kSTRING_WITH_DYNAMIC_PRECISION
       else if precision = - 1 then Return kSTRING_WITH_NO_PRECISION
       else Return (kSTRING (nat precision)))"

definition consume_specifier :: "string \<Rightarrow> nat \<Rightarrow> nat \<Rightarrow> (nat \<times> nat) flow" where
  "consume_specifier fmt pos param_num =
     flow_bind (skip_while isFlag fmt pos) (\<lambda>pos.
     flow_bind (consume_width fmt pos param_num) (\<lambda>(pos, param_num).
     flow_bind (consume_precision fmt pos param_num)
       (\<lambda>(pos, param_num, hasDynamicPrecision, precision).
     flow_bind (skip_while isLength fmt pos) (\<lambda>pos.
     consume_terminal fmt pos param_num hasDynamicPrecision precision))))"

text \<open>One iteration of the main loop: \<open>Go\<close> is \<^verbatim>\<open>continue\<close> with the new \<^verbatim>\<open>pos\<close> and \<^verbatim>\<open>param_num\<close>.\<close>

definition getParamInfo_body :: "string \<Rightarrow> nat \<Rightarrow> nat \<Rightarrow> (nat \<times> nat) flow" where
  "getParamInfo_body fmt pos param_num =
     flow_bind (fmt_at fmt pos) (\<lambda>c.
       if c \<noteq> CHR ''%'' then Go (Suc pos, param_num)
       else flow_bind (fmt_at fmt (Suc pos)) (\<lambda>d.
         if d = CHR ''%'' then Go (Suc (Suc pos), param_num)
         else consume_specifier fmt (Suc pos) param_num))"

subsection \<open>The scanning loops in closed form\<close>

text \<open>
  On a position inside the array the loops never leave it: they stop at the NUL at the latest. Each
  is the longest prefix of the remaining characters.
\<close>

lemma fmt_at_drop: "pos \<le> length fmt \<Longrightarrow>
    fmt_at fmt pos = Go (case drop pos fmt of [] \<Rightarrow> NUL | c # _ \<Rightarrow> c)"
  by (auto simp: fmt_at_def split: list.splits) (metis nth_via_drop)

lemma fmt_at_append [scan_simps]:
  "fmt_at (pre @ c # post) (length pre) = Go c"
  by (simp add: fmt_at_def)

lemma skip_while_closed:
  assumes "pos \<le> length fmt" "\<not> P NUL"
  shows "skip_while P fmt pos = Go (pos + length (takeWhile P (drop pos fmt)))"
  using assms
proof (induction P fmt pos rule: skip_while.induct)
  case (1 P fmt pos)
  show ?case
  proof (cases "pos < length fmt")
    case True
    then have d: "drop pos fmt = fmt ! pos # drop (Suc pos) fmt"
      by (simp add: Cons_nth_drop_Suc)
    have "fmt_at fmt pos = Go (fmt ! pos)"
      using True by (simp add: fmt_at_def)
    with 1 True d show ?thesis
      by (subst skip_while.simps) simp
  next
    case False
    with 1 show ?thesis
      by (subst skip_while.simps) (simp add: fmt_at_def)
  qed
qed

definition digits_value :: "int \<Rightarrow> string \<Rightarrow> int" where
  "digits_value v ds = foldl (\<lambda>v c. 10 * v + digit_value c) v ds"

lemma digits_value_simps [simp]:
  "digits_value v [] = v"
  "digits_value v (d # ds) = digits_value (10 * v + digit_value d) ds"
  by (simp_all add: digits_value_def)

lemma digit_value_nonneg: "isDigit c \<Longrightarrow> 0 \<le> digit_value c"
  by (simp add: isDigit_def digit_value_def)

lemma digits_value_ge:
  "0 \<le> v \<Longrightarrow> \<forall>d \<in> set ds. isDigit d \<Longrightarrow> v \<le> digits_value v ds"
proof (induction ds arbitrary: v)
  case Nil
  then show ?case by simp
next
  case (Cons d ds)
  then have "v \<le> 10 * v + digit_value d" and "0 \<le> 10 * v + digit_value d"
    using digit_value_nonneg [of d] by auto
  with Cons show ?case by fastforce
qed

text \<open>The overflow check fires exactly when the value of all the digits is too large.\<close>

lemma scan_precision_closed:
  assumes "pos \<le> length fmt" "0 \<le> v" "v \<le> INT_MAX"
  shows "scan_precision fmt pos v =
    (let ds = takeWhile isDigit (drop pos fmt); w = digits_value v ds
     in if INT_MAX < w then Throw Precision_overflow else Go (pos + length ds, w))"
  using assms
proof (induction fmt pos v rule: scan_precision.induct)
  case (1 fmt pos v)
  show ?case
  proof (cases "pos < length fmt \<and> isDigit (fmt ! pos)")
    case True
    let ?c = "fmt ! pos"
    let ?v = "10 * v + digit_value ?c"
    have d: "takeWhile isDigit (drop pos fmt) = ?c # takeWhile isDigit (drop (Suc pos) fmt)"
      using True by (metis Cons_nth_drop_Suc takeWhile.simps(2))
    have at: "fmt_at fmt pos = Go ?c"
      using True by (simp add: fmt_at_def)
    have v0: "0 \<le> ?v"
      using 1 True digit_value_nonneg [of ?c] by simp
    show ?thesis
    proof (cases "INT_MAX < ?v")
      case big: True
      have "?v \<le> digits_value ?v (takeWhile isDigit (drop (Suc pos) fmt))"
        using v0 by (rule digits_value_ge) (auto dest: set_takeWhileD)
      with big at d True show ?thesis
        by (subst scan_precision.simps) simp
    next
      case False
      with 1 True at v0 d show ?thesis
        by (subst scan_precision.simps) (simp add: Let_def)
    qed
  next
    case False
    then have "takeWhile isDigit (drop pos fmt) = []"
      by (cases "drop pos fmt") (auto simp: nth_via_drop dest: drop_eq_Nil [THEN iffD1, rotated])
    moreover have "\<exists>c. fmt_at fmt pos = Go c \<and> \<not> isDigit c"
      using False 1 by (auto simp: fmt_at_def)
    ultimately show ?thesis
      using 1 by (subst scan_precision.simps) auto
  qed
qed

subsection \<open>The grammar of format strings\<close>

datatype width = WStar | WDigits string

datatype precision = PNone | PStar | PDigits string

datatype item =
    Literal char
  | Escape
  | Specifier string width precision string char

primrec width_text :: "width \<Rightarrow> string" where
  "width_text WStar = ''*''"
| "width_text (WDigits ds) = ds"

primrec precision_text :: "precision \<Rightarrow> string" where
  "precision_text PNone = []"
| "precision_text PStar = ''.*''"
| "precision_text (PDigits ds) = CHR ''.'' # ds"

primrec item_text :: "item \<Rightarrow> string" where
  "item_text (Literal c) = [c]"
| "item_text Escape = ''%%''"
| "item_text (Specifier fl w pr ln t) =
     CHR ''%'' # fl @ width_text w @ precision_text pr @ ln @ [t]"

primrec width_ok :: "width \<Rightarrow> bool" where
  "width_ok WStar \<longleftrightarrow> True"
| "width_ok (WDigits ds) \<longleftrightarrow> list_all isDigit ds \<and> (ds \<noteq> [] \<longrightarrow> hd ds \<noteq> CHR ''0'')"

primrec precision_ok :: "precision \<Rightarrow> bool" where
  "precision_ok PNone \<longleftrightarrow> True"
| "precision_ok PStar \<longleftrightarrow> True"
| "precision_ok (PDigits ds) \<longleftrightarrow> list_all isDigit ds \<and> digits_value 0 ds \<le> INT_MAX"

primrec item_ok :: "item \<Rightarrow> bool" where
  "item_ok (Literal c) \<longleftrightarrow> c \<noteq> CHR ''%''"
| "item_ok Escape \<longleftrightarrow> True"
| "item_ok (Specifier fl w pr ln t) \<longleftrightarrow>
     list_all isFlag fl \<and> width_ok w \<and> precision_ok pr \<and> list_all isLength ln
     \<and> isTerminal t \<and> t \<noteq> CHR ''n''
     \<and> hd (fl @ width_text w @ precision_text pr @ ln @ [t]) \<noteq> CHR ''%''"

text \<open>The parameters an item consumes, in the order of the argument list.\<close>

primrec width_params :: "width \<Rightarrow> ParamType list" where
  "width_params WStar = [kDYNAMIC_WIDTH]"
| "width_params (WDigits ds) = []"

primrec precision_params :: "precision \<Rightarrow> ParamType list" where
  "precision_params PNone = []"
| "precision_params PStar = [kDYNAMIC_PRECISION]"
| "precision_params (PDigits ds) = []"

primrec string_param :: "precision \<Rightarrow> ParamType" where
  "string_param PNone = kSTRING_WITH_NO_PRECISION"
| "string_param PStar = kSTRING_WITH_DYNAMIC_PRECISION"
| "string_param (PDigits ds) = kSTRING (nat (digits_value 0 ds))"

primrec item_params :: "item \<Rightarrow> ParamType list" where
  "item_params (Literal c) = []"
| "item_params Escape = []"
| "item_params (Specifier fl w pr ln t) =
     width_params w @ precision_params pr @
     [if t = CHR ''s'' then string_param pr else kNON_STRING]"

definition format_text :: "item list \<Rightarrow> string" where
  "format_text its = concat (map item_text its)"

definition format_params :: "item list \<Rightarrow> ParamType list" where
  "format_params its = concat (map item_params its)"

lemma format_simps [simp]:
  "format_text [] = []" "format_params [] = []"
  "format_text (it # its) = item_text it @ format_text its"
  "format_params (it # its) = item_params it @ format_params its"
  by (simp_all add: format_text_def format_params_def)

lemma item_text_not_Nil [simp]: "item_text it \<noteq> []"
  by (cases it) auto

lemma item_params_le: "length (item_params it) \<le> length (item_text it)"
proof (cases it)
  case (Specifier fl w pr ln t)
  then show ?thesis by (cases w; cases pr) auto
qed auto

lemma kINVALID_not_param: "kINVALID \<notin> set (item_params it)"
proof (cases it)
  case (Specifier fl w pr ln t)
  then show ?thesis by (cases w; cases pr) auto
qed auto

subsection \<open>Each stage on a string of the grammar\<close>

lemma takeWhile_stop [scan_simps]:
  "list_all P xs \<Longrightarrow> \<not> P c \<Longrightarrow> takeWhile P (xs @ c # ys) = xs"
  by (induction xs) auto

lemma drop_Suc_of_drop: "drop pos fmt = c # rest \<Longrightarrow> drop (Suc pos) fmt = rest"
  by (metis drop_Suc list.sel(3) tl_drop)

lemma pos_less_of_drop: "drop pos fmt = c # rest \<Longrightarrow> pos < length fmt"
  by (metis drop_all linorder_not_less list.distinct(1))

lemma consume_width_item:
  assumes "drop pos fmt = width_text w @ c # rest" "width_ok w" "\<not> isDigit c" "c \<noteq> CHR ''*''"
  shows "consume_width fmt pos k =
    (if k < length (width_params w) then Return kDYNAMIC_WIDTH
     else Go (pos + length (width_text w), k - length (width_params w)))"
proof (cases w)
  case WStar
  with assms have d: "drop pos fmt = CHR ''*'' # c # rest" by simp
  then have "fmt_at fmt pos = Go CHR ''*''"
    using pos_less_of_drop [OF d] by (simp add: fmt_at_drop)
  with WStar show ?thesis by (auto simp: consume_width_def)
next
  case (WDigits ds)
  with assms have d: "drop pos fmt = ds @ c # rest" and ds: "list_all isDigit ds" by auto
  then obtain e rest' where e: "drop pos fmt = e # rest'" and "e \<noteq> CHR ''*''"
    using assms(4) by (cases ds) (auto dest: digit_other)
  then have "fmt_at fmt pos = Go e" and le: "pos \<le> length fmt"
    using pos_less_of_drop [OF e] by (simp_all add: fmt_at_drop)
  moreover have "skip_while isDigit fmt pos = Go (pos + length ds)"
    using le ds assms(3) by (simp add: skip_while_closed d scan_simps)
  ultimately show ?thesis
    using WDigits \<open>e \<noteq> CHR ''*''\<close> by (simp add: consume_width_def)
qed

lemma consume_precision_item:
  assumes "drop pos fmt = precision_text pr @ c # rest" "precision_ok pr"
    "\<not> isDigit c" "c \<noteq> CHR ''*''" "c \<noteq> CHR ''.''"
  shows "consume_precision fmt pos k =
    (if k < length (precision_params pr) then Return kDYNAMIC_PRECISION
     else Go (pos + length (precision_text pr), k - length (precision_params pr),
              pr = PStar, case pr of PDigits ds \<Rightarrow> digits_value 0 ds | _ \<Rightarrow> - 1))"
proof (cases pr)
  case PNone
  with assms have d: "drop pos fmt = c # rest" by simp
  with assms PNone pos_less_of_drop [OF d] show ?thesis
    by (simp add: consume_precision_def fmt_at_drop)
next
  case PStar
  with assms have d: "drop pos fmt = CHR ''.'' # CHR ''*'' # c # rest" by simp
  note d' = drop_Suc_of_drop [OF d]
  with PStar d pos_less_of_drop [OF d] pos_less_of_drop [OF d'] show ?thesis
    by (auto simp: consume_precision_def fmt_at_drop)
next
  case (PDigits ds)
  with assms have d: "drop pos fmt = CHR ''.'' # ds @ c # rest"
    and ds: "list_all isDigit ds" and max: "digits_value 0 ds \<le> INT_MAX" by auto
  have d': "drop (Suc pos) fmt = ds @ c # rest" by (rule drop_Suc_of_drop [OF d])
  then obtain e rest' where e: "drop (Suc pos) fmt = e # rest'" and "e \<noteq> CHR ''*''"
    using assms(4) ds by (cases ds) (auto dest: digit_other)
  have le: "Suc pos \<le> length fmt" using pos_less_of_drop [OF d] by simp
  then have "scan_precision fmt (Suc pos) 0 = Go (Suc pos + length ds, digits_value 0 ds)"
    using ds max assms(3) by (simp add: scan_precision_closed INT_MAX_def d' takeWhile_stop)
  with PDigits d e \<open>e \<noteq> CHR ''*''\<close> le show ?thesis
    by (simp add: consume_precision_def fmt_at_drop)
qed

text \<open>
  A whole specifier, entered after its percent sign: either the parameter asked for is one of its
  own, and its type is returned, or the parser continues after it with the number reduced by the
  number of its parameters.
\<close>

definition after_params :: "ParamType list \<Rightarrow> nat \<Rightarrow> nat \<Rightarrow> (nat \<times> nat) flow" where
  "after_params ps pos k = (if k < length ps then Return (ps ! k) else Go (pos, k - length ps))"

lemma terminal_head:
  assumes "list_all isLength ln" "isTerminal t"
  obtains c rest where "ln @ t # suf = c # rest" "\<not> isFlag c" "\<not> isDigit c"
    "c \<noteq> CHR ''*''" "c \<noteq> CHR ''.''"
  using assms by (cases ln) (auto dest: length_other terminal_other)

lemma precision_head:
  assumes "list_all isLength ln" "isTerminal t"
  obtains c rest where "precision_text pr @ ln @ t # suf = c # rest" "\<not> isFlag c"
    "\<not> isDigit c" "c \<noteq> CHR ''*''"
proof (cases pr)
  case PNone
  show ?thesis
    by (rule terminal_head [OF assms, of suf]) (use PNone that in auto)
qed (use that in auto)

lemma width_head:
  assumes "width_ok w" "list_all isLength ln" "isTerminal t"
  obtains c rest where "width_text w @ precision_text pr @ ln @ t # suf = c # rest" "\<not> isFlag c"
proof (cases w)
  case WStar
  then show ?thesis using that by auto
next
  case (WDigits ds)
  show ?thesis
  proof (cases ds)
    case Nil
    with WDigits precision_head [OF assms(2,3), of pr suf] show ?thesis using that by auto
  next
    case (Cons d ds')
    with WDigits assms(1) have "\<not> isFlag d" by (auto dest: digit_not_flag)
    with WDigits Cons show ?thesis using that by auto
  qed
qed

lemma drop_append_length: "drop pos fmt = xs @ ys \<Longrightarrow> drop (pos + length xs) fmt = ys"
  by (metis add.commute append_eq_conv_conj drop_drop)

lemma consume_terminal_item:
  assumes "drop pos fmt = t # rest" "isTerminal t" "t \<noteq> CHR ''n''" "precision_ok pr"
  shows "consume_terminal fmt pos k (pr = PStar)
      (case pr of PDigits ds \<Rightarrow> digits_value 0 ds | _ \<Rightarrow> - 1) =
    after_params [if t = CHR ''s'' then string_param pr else kNON_STRING] (Suc pos) k"
proof -
  have at: "fmt_at fmt pos = Go t"
    using assms(1) pos_less_of_drop [OF assms(1)] by (simp add: fmt_at_drop)
  show ?thesis
  proof (cases pr)
    case (PDigits ds)
    with assms(4) have "0 \<le> digits_value 0 ds"
      by (auto simp: list_all_iff intro: digits_value_ge)
    with PDigits assms at show ?thesis
      by (auto simp: consume_terminal_def after_params_def)
  qed (use assms at in \<open>auto simp: consume_terminal_def after_params_def\<close>)
qed

lemma consume_specifier_item:
  assumes d: "drop pos fmt = fl @ width_text w @ precision_text pr @ ln @ t # rest"
    and ok: "list_all isFlag fl" "width_ok w" "precision_ok pr" "list_all isLength ln"
      "isTerminal t" "t \<noteq> CHR ''n''"
  shows "consume_specifier fmt pos k =
    after_params (item_params (Specifier fl w pr ln t))
      (pos + length (fl @ width_text w @ precision_text pr @ ln @ [t])) k"
proof -
  let ?p1 = "pos + length fl"
  let ?p2 = "?p1 + length (width_text w)"
  let ?p3 = "?p2 + length (precision_text pr)"
  let ?p4 = "?p3 + length ln"
  let ?k2 = "k - length (width_params w)"
  let ?k3 = "?k2 - length (precision_params pr)"
  have d1: "drop ?p1 fmt = width_text w @ precision_text pr @ ln @ t # rest"
    using d by (rule drop_append_length)
  then have d2: "drop ?p2 fmt = precision_text pr @ ln @ t # rest" by (rule drop_append_length)
  then have d3: "drop ?p3 fmt = ln @ t # rest" by (rule drop_append_length)
  then have d4: "drop ?p4 fmt = t # rest" by (rule drop_append_length)
  have le: "?p4 < length fmt" by (rule pos_less_of_drop [OF d4])
  obtain c1 r1 where c1: "width_text w @ precision_text pr @ ln @ t # rest = c1 # r1" "\<not> isFlag c1"
    using ok by (blast intro: width_head)
  obtain c2 r2 where c2: "precision_text pr @ ln @ t # rest = c2 # r2" "\<not> isDigit c2"
    "c2 \<noteq> CHR ''*''" using ok by (blast intro: precision_head)
  obtain c3 r3 where c3: "ln @ t # rest = c3 # r3" "\<not> isDigit c3" "c3 \<noteq> CHR ''*''"
    "c3 \<noteq> CHR ''.''" using ok by (blast intro: terminal_head)
  have s1: "skip_while isFlag fmt pos = Go ?p1"
    using le ok c1 by (simp add: skip_while_closed d takeWhile_stop)
  have s2: "consume_width fmt ?p1 k =
      (if k < length (width_params w) then Return kDYNAMIC_WIDTH else Go (?p2, ?k2))"
    using consume_width_item [of ?p1 fmt w c2 r2 k] d1 c2 ok by simp
  have s3: "consume_precision fmt ?p2 j =
      (if j < length (precision_params pr) then Return kDYNAMIC_PRECISION
       else Go (?p3, j - length (precision_params pr), pr = PStar,
                case pr of PDigits ds \<Rightarrow> digits_value 0 ds | _ \<Rightarrow> - 1))" for j
    using consume_precision_item [of ?p2 fmt pr c3 r3 j] d2 c3 ok by simp
  have s4: "skip_while isLength fmt ?p3 = Go ?p4"
    using le ok by (simp add: skip_while_closed d3 takeWhile_stop terminal_other)
  note s5 = consume_terminal_item [OF d4 ok(5,6,3)]
  show ?thesis
    unfolding consume_specifier_def
    using s1 s2 s3 s4 s5 by (cases w; cases pr) (auto simp: after_params_def nth_Cons')
qed

lemma getParamInfo_body_item:
  assumes d: "drop pos fmt = item_text it @ rest" and ok: "item_ok it"
  shows "getParamInfo_body fmt pos k =
    after_params (item_params it) (pos + length (item_text it)) k"
proof (cases it)
  case (Literal c)
  with d have "drop pos fmt = c # rest" by simp
  with Literal ok show ?thesis
    using pos_less_of_drop [of pos fmt c rest]
    by (simp add: getParamInfo_body_def fmt_at_drop after_params_def)
next
  case Escape
  with d have d0: "drop pos fmt = CHR ''%'' # CHR ''%'' # rest" by simp
  note d1 = drop_Suc_of_drop [OF d0]
  show ?thesis
    using Escape d0 d1 pos_less_of_drop [OF d0] pos_less_of_drop [OF d1]
    by (simp add: getParamInfo_body_def fmt_at_drop after_params_def)
next
  case (Specifier fl w pr ln t)
  let ?body = "fl @ width_text w @ precision_text pr @ ln @ [t]"
  have d0: "drop pos fmt = CHR ''%'' # ?body @ rest" using d Specifier by simp
  have d1: "drop (Suc pos) fmt = ?body @ rest" by (rule drop_Suc_of_drop [OF d0])
  obtain c body' where c: "?body = c # body'" "c \<noteq> CHR ''%''"
    using ok Specifier by (cases ?body) auto
  have "fmt_at fmt pos = Go CHR ''%''" "fmt_at fmt (Suc pos) = Go c"
    using d0 d1 c pos_less_of_drop [OF d0] by (simp_all add: fmt_at_drop)
  with c Specifier ok d1 consume_specifier_item [of "Suc pos" fmt fl w pr ln t rest k] show ?thesis
    by (simp add: getParamInfo_body_def)
qed

subsection \<open>What the parser accepts is in the grammar\<close>

lemma flow_bind_Go_iff: "flow_bind m f = Go y \<longleftrightarrow> (\<exists>x. m = Go x \<and> f x = Go y)"
  by (cases m) auto

lemma flow_bind_Throw_iff:
  "flow_bind m f = Throw e \<longleftrightarrow> m = Throw e \<or> (\<exists>x. m = Go x \<and> f x = Throw e)"
  by (cases m) auto

lemma fmt_at_Go_cons:
  assumes "fmt_at fmt pos = Go c" "c \<noteq> NUL"
  shows "drop pos fmt = c # drop (Suc pos) fmt" "pos < length fmt"
  using assms by (auto simp: fmt_at_def Cons_nth_drop_Suc split: if_splits)

lemma skip_while_Go:
  assumes "skip_while P fmt pos = Go p" "pos \<le> length fmt" "\<not> P NUL"
  obtains xs where "drop pos fmt = xs @ drop p fmt" "list_all P xs" "p \<le> length fmt"
    "drop p fmt \<noteq> [] \<Longrightarrow> \<not> P (hd (drop p fmt))"
proof -
  let ?xs = "takeWhile P (drop pos fmt)"
  have p: "p = pos + length ?xs" using assms by (simp add: skip_while_closed)
  have split: "drop pos fmt = ?xs @ dropWhile P (drop pos fmt)" by simp
  then have rest: "drop p fmt = dropWhile P (drop pos fmt)"
    unfolding p by (rule drop_append_length)
  have "length ?xs \<le> length fmt - pos"
    by (metis length_drop length_takeWhile_le)
  with assms p have "p \<le> length fmt" by simp
  moreover have "list_all P ?xs" by (auto simp: list_all_iff dest: set_takeWhileD)
  ultimately show ?thesis
    using that [of ?xs] rest by (metis hd_dropWhile split)
qed

lemma consume_width_Go:
  assumes "consume_width fmt pos k = Go (p, n)" "pos \<le> length fmt"
  obtains w where "drop pos fmt = width_text w @ drop p fmt" "p \<le> length fmt"
    "\<forall>ds. w = WDigits ds \<longrightarrow> list_all isDigit ds"
proof -
  from assms(1) obtain c where c: "fmt_at fmt pos = Go c"
    and r: "(if c = CHR ''*'' then if k = 0 then Return kDYNAMIC_WIDTH else Go (Suc pos, k - 1)
             else flow_bind (skip_while isDigit fmt pos) (\<lambda>pos. Go (pos, k))) = Go (p, n)"
    by (auto simp: consume_width_def flow_bind_Go_iff)
  show ?thesis
  proof (cases "c = CHR ''*''")
    case True
    with r c fmt_at_Go_cons [OF c] that [of WStar] show ?thesis by (auto split: if_splits)
  next
    case False
    with r have "skip_while isDigit fmt pos = Go p" by (auto simp: flow_bind_Go_iff)
    then obtain ds where "drop pos fmt = ds @ drop p fmt" "list_all isDigit ds" "p \<le> length fmt"
      using assms(2) by (rule skip_while_Go) auto
    with that [of "WDigits ds"] show ?thesis by auto
  qed
qed

lemma scan_precision_Go:
  assumes "scan_precision fmt pos 0 = Go (p, v)" "pos \<le> length fmt"
  obtains ds where "drop pos fmt = ds @ drop p fmt" "p \<le> length fmt" "precision_ok (PDigits ds)"
proof -
  let ?ds = "takeWhile isDigit (drop pos fmt)"
  have p: "p = pos + length ?ds" and max: "digits_value 0 ?ds \<le> INT_MAX"
    using assms by (auto simp: scan_precision_closed Let_def INT_MAX_def split: if_splits)
  have split: "drop pos fmt = ?ds @ dropWhile isDigit (drop pos fmt)" by simp
  then have "drop p fmt = dropWhile isDigit (drop pos fmt)"
    unfolding p by (rule drop_append_length)
  with split have "drop pos fmt = ?ds @ drop p fmt" by simp
  moreover have "p \<le> length fmt"
    using assms(2) p length_takeWhile_le [of isDigit "drop pos fmt"] by simp
  moreover have "list_all isDigit ?ds" by (auto simp: list_all_iff dest: set_takeWhileD)
  ultimately show ?thesis using max that [of ?ds] by simp
qed

lemma consume_precision_Go:
  assumes "consume_precision fmt pos k = Go (p, n, b, v)" "pos \<le> length fmt"
  obtains pr where "drop pos fmt = precision_text pr @ drop p fmt" "p \<le> length fmt"
    "precision_ok pr"
proof -
  from assms(1) obtain c where c: "fmt_at fmt pos = Go c"
    and r: "c \<noteq> CHR ''.'' \<Longrightarrow> p = pos"
    and r': "c = CHR ''.'' \<Longrightarrow> flow_bind (fmt_at fmt (Suc pos)) (\<lambda>d.
           if d = CHR ''*'' then
             if k = 0 then Return kDYNAMIC_PRECISION
             else Go (Suc (Suc pos), k - 1, True, - 1)
           else flow_bind (scan_precision fmt (Suc pos) 0)
                  (\<lambda>(pos, precision). Go (pos, k, False, precision))) = Go (p, n, b, v)"
    by (auto simp: consume_precision_def flow_bind_Go_iff split: if_splits)
  show ?thesis
  proof (cases "c = CHR ''.''")
    case False
    with r assms(2) that [of PNone] show ?thesis by simp
  next
    case True
    have d: "drop pos fmt = CHR ''.'' # drop (Suc pos) fmt" "Suc pos \<le> length fmt"
      using fmt_at_Go_cons [OF c] True by auto
    from r' [OF True] obtain e where e: "fmt_at fmt (Suc pos) = Go e"
      and re: "if e = CHR ''*'' then p = Suc (Suc pos) else scan_precision fmt (Suc pos) 0 = Go (p, v)"
      by (auto simp: flow_bind_Go_iff split: if_splits)
    show ?thesis
    proof (cases "e = CHR ''*''")
      case True
      with re d fmt_at_Go_cons [OF e] that [of PStar] show ?thesis by auto
    next
      case False
      with re have "scan_precision fmt (Suc pos) 0 = Go (p, v)" by simp
      then obtain ds where "drop (Suc pos) fmt = ds @ drop p fmt" "p \<le> length fmt"
        "precision_ok (PDigits ds)" using d(2) by (rule scan_precision_Go)
      with d that [of "PDigits ds"] show ?thesis by auto
    qed
  qed
qed

lemma consume_terminal_Go:
  assumes "consume_terminal fmt pos k b v = Go (p, n)"
  obtains t where "drop pos fmt = t # drop (Suc pos) fmt" "isTerminal t" "t \<noteq> CHR ''n''"
proof -
  from assms obtain t where t: "fmt_at fmt pos = Go t" "isTerminal t" "t \<noteq> CHR ''n''"
    by (auto simp: consume_terminal_def flow_bind_Go_iff split: if_splits)
  with fmt_at_Go_cons [OF t(1)] that show ?thesis by (auto dest: terminal_other)
qed

lemma consume_specifier_Go:
  assumes "consume_specifier fmt pos k = Go (p, n)" "pos \<le> length fmt"
    and head: "hd (drop pos fmt) \<noteq> CHR ''%''"
  obtains fl w pr ln t rest where "item_ok (Specifier fl w pr ln t)"
    "drop pos fmt = fl @ width_text w @ precision_text pr @ ln @ t # rest"
proof -
  from assms(1) obtain p1 p2 n2 p3 n3 b v p4 where
    s1: "skip_while isFlag fmt pos = Go p1" and
    s2: "consume_width fmt p1 k = Go (p2, n2)" and
    s3: "consume_precision fmt p2 n2 = Go (p3, n3, b, v)" and
    s4: "skip_while isLength fmt p3 = Go p4" and
    s5: "consume_terminal fmt p4 n3 b v = Go (p, n)"
    unfolding consume_specifier_def flow_bind_Go_iff split_paired_Ex prod.case by blast
  obtain fl where fl: "drop pos fmt = fl @ drop p1 fmt" "list_all isFlag fl" "p1 \<le> length fmt"
    "drop p1 fmt \<noteq> [] \<Longrightarrow> \<not> isFlag (hd (drop p1 fmt))"
    using s1 assms(2) by (rule skip_while_Go) auto
  obtain w where w: "drop p1 fmt = width_text w @ drop p2 fmt" "p2 \<le> length fmt"
    "\<forall>ds. w = WDigits ds \<longrightarrow> list_all isDigit ds"
    using s2 fl(3) by (rule consume_width_Go)
  obtain pr where pr: "drop p2 fmt = precision_text pr @ drop p3 fmt" "p3 \<le> length fmt"
    "precision_ok pr" using s3 w(2) by (rule consume_precision_Go)
  obtain ln where ln: "drop p3 fmt = ln @ drop p4 fmt" "list_all isLength ln"
    using s4 pr(2) by (rule skip_while_Go) auto
  obtain t where t: "drop p4 fmt = t # drop (Suc p4) fmt" "isTerminal t" "t \<noteq> CHR ''n''"
    using s5 by (rule consume_terminal_Go)
  have wok: "width_ok w"
  proof (cases w)
    case (WDigits ds)
    have "hd ds \<noteq> CHR ''0''" if "ds \<noteq> []"
      using fl(4) w(1) WDigits that by (auto simp: isFlag_def)
    with WDigits w(3) show ?thesis by simp
  qed simp
  let ?body = "fl @ width_text w @ precision_text pr @ ln @ [t]"
  have d: "drop pos fmt = ?body @ drop (Suc p4) fmt" using fl w pr ln t by simp
  have "hd ?body = hd (drop pos fmt)" by (subst d) (auto simp: hd_append)
  with head have "hd ?body \<noteq> CHR ''%''" by simp
  with fl(2) wok pr(3) ln(2) t(2,3) d that show ?thesis by auto
qed

lemma getParamInfo_body_Go:
  assumes "getParamInfo_body fmt pos k = Go (p, n)" "pos < length fmt"
  obtains it rest where "item_ok it" "drop pos fmt = item_text it @ rest"
proof -
  let ?c = "fmt ! pos"
  have d: "drop pos fmt = ?c # drop (Suc pos) fmt" and at: "fmt_at fmt pos = Go ?c"
    using assms(2) by (simp_all add: Cons_nth_drop_Suc fmt_at_def)
  show ?thesis
  proof (cases "?c = CHR ''%''")
    case False
    with d that [of "Literal ?c"] show ?thesis by simp
  next
    case True
    with assms(1) at obtain e where e: "fmt_at fmt (Suc pos) = Go e"
      and r: "e \<noteq> CHR ''%'' \<Longrightarrow> consume_specifier fmt (Suc pos) k = Go (p, n)"
      by (auto simp: getParamInfo_body_def flow_bind_Go_iff split: if_splits)
    show ?thesis
    proof (cases "e = CHR ''%''")
      case esc: True
      with d True fmt_at_Go_cons [OF e] that [of Escape] show ?thesis by simp
    next
      case False
      have le: "Suc pos \<le> length fmt" using assms(2) by simp
      have "hd (drop (Suc pos) fmt) \<noteq> CHR ''%'' \<or> drop (Suc pos) fmt = []"
        using e False le by (auto simp: fmt_at_drop split: list.splits)
      moreover have "drop (Suc pos) fmt \<noteq> []"
      proof
        assume nil: "drop (Suc pos) fmt = []"
        with r [OF False] show False
          using le by (auto simp: consume_specifier_def skip_while_closed consume_width_def
              consume_precision_def consume_terminal_def fmt_at_drop split: if_splits)
      qed
      ultimately obtain fl w pr ln t rest where "item_ok (Specifier fl w pr ln t)"
        "drop (Suc pos) fmt = fl @ width_text w @ precision_text pr @ ln @ t # rest"
        using consume_specifier_Go [OF r [OF False] le] by blast
      with d True that [of "Specifier fl w pr ln t" rest] show ?thesis by simp
    qed
  qed
qed

subsection \<open>The main loop and its termination\<close>

text \<open>
  An iteration that continues has moved forward, stays inside the array, and has used up at most as
  many parameters as characters: the loop terminates, and so does the search of \<^verbatim>\<open>countFmtParams\<close>.
\<close>

lemma getParamInfo_body_progress:
  assumes "getParamInfo_body fmt pos k = Go (p, n)" "pos < length fmt"
  shows "pos < p \<and> p \<le> length fmt \<and> k \<le> n + (p - pos)"
proof -
  obtain it rest where it: "item_ok it" "drop pos fmt = item_text it @ rest"
    using assms by (rule getParamInfo_body_Go)
  then have "getParamInfo_body fmt pos k =
      after_params (item_params it) (pos + length (item_text it)) k"
    by (intro getParamInfo_body_item)
  with assms(1) have "p = pos + length (item_text it)" "n = k - length (item_params it)"
    by (auto simp: after_params_def split: if_splits)
  moreover have "length (item_text it) \<le> length fmt - pos"
    using it(2) by (metis length_append length_drop le_add1)
  moreover have "0 < length (item_text it)" by simp
  ultimately show ?thesis
    using item_params_le [of it] assms(2) by linarith
qed

function getParamInfo_loop :: "string \<Rightarrow> nat \<Rightarrow> nat \<Rightarrow> fmt_error + ParamType" where
  "getParamInfo_loop fmt pos param_num =
     (if pos < length fmt then
        case getParamInfo_body fmt pos param_num of
          Throw e \<Rightarrow> Inl e
        | Return t \<Rightarrow> Inr t
        | Go (pos', param_num') \<Rightarrow> getParamInfo_loop fmt pos' param_num'
      else Inr kINVALID)"
  by pat_completeness auto
termination
  by (relation "measure (\<lambda>(fmt, pos, param_num). length fmt - pos)")
     (auto dest!: getParamInfo_body_progress)

declare getParamInfo_loop.simps [simp del]

definition getParamInfo :: "string \<Rightarrow> nat \<Rightarrow> fmt_error + ParamType" where
  "getParamInfo fmt param_num = getParamInfo_loop fmt 0 param_num"

text \<open>On a format of the grammar the loop looks the parameter up in the list of the remaining ones.\<close>

lemma getParamInfo_loop_items:
  assumes "drop pos fmt = format_text its" "list_all item_ok its" "pos \<le> length fmt"
  shows "getParamInfo_loop fmt pos k =
    Inr (if k < length (format_params its) then format_params its ! k else kINVALID)"
  using assms
proof (induction its arbitrary: pos k)
  case Nil
  then show ?case by (subst getParamInfo_loop.simps) simp
next
  case (Cons it its)
  then have d: "drop pos fmt = item_text it @ format_text its" and ok: "item_ok it" by auto
  then have lt: "pos < length fmt"
    by (metis append_is_Nil_conv drop_all item_text_not_Nil linorder_not_less)
  have b: "getParamInfo_body fmt pos k =
      after_params (item_params it) (pos + length (item_text it)) k"
    using d ok by (rule getParamInfo_body_item)
  show ?case
  proof (cases "k < length (item_params it)")
    case True
    with b lt show ?thesis
      by (subst getParamInfo_loop.simps) (simp add: after_params_def nth_append)
  next
    case False
    have "pos + length (item_text it) \<le> length fmt"
      using arg_cong [OF d, of length] lt by simp
    with Cons.IH [OF drop_append_length [OF d]] Cons.prems
    have "getParamInfo_loop fmt (pos + length (item_text it)) (k - length (item_params it)) =
      Inr (if k - length (item_params it) < length (format_params its)
           then format_params its ! (k - length (item_params it)) else kINVALID)" by simp
    with False b lt show ?thesis
      by (subst getParamInfo_loop.simps) (auto simp: after_params_def nth_append)
  qed
qed

lemma getParamInfo_format_text:
  "list_all item_ok its \<Longrightarrow> getParamInfo (format_text its) k =
    Inr (if k < length (format_params its) then format_params its ! k else kINVALID)"
  by (simp add: getParamInfo_def getParamInfo_loop_items)

text \<open>Conversely, a search that reaches the end of the string has read a format of the grammar.\<close>

lemma flow_bind_Return_iff:
  "flow_bind m f = Return t \<longleftrightarrow> m = Return t \<or> (\<exists>x. m = Go x \<and> f x = Return t)"
  by (cases m) auto

lemma no_Return [simp]:
  "fmt_at fmt pos \<noteq> Return t" "skip_while P fmt pos \<noteq> Return t" "scan_precision fmt pos v \<noteq> Return t"
proof -
  show at: "fmt_at fmt pos \<noteq> Return t" for fmt pos by (simp add: fmt_at_def)
  show "skip_while P fmt pos \<noteq> Return t"
    by (induction P fmt pos rule: skip_while.induct)
       (subst skip_while.simps, auto simp: flow_bind_Return_iff at split: if_splits)
  show "scan_precision fmt pos v \<noteq> Return t"
    by (induction fmt pos v rule: scan_precision.induct)
       (subst scan_precision.simps, auto simp: flow_bind_Return_iff at split: if_splits)
qed

lemma getParamInfo_body_not_kINVALID: "getParamInfo_body fmt pos k \<noteq> Return kINVALID"
  by (auto simp: getParamInfo_body_def consume_specifier_def consume_width_def
      consume_precision_def consume_terminal_def flow_bind_Return_iff split: if_splits)

lemma getParamInfo_loop_kINVALID:
  assumes "getParamInfo_loop fmt pos k = Inr kINVALID" "pos \<le> length fmt"
  shows "\<exists>its. list_all item_ok its \<and> drop pos fmt = format_text its
           \<and> length (format_params its) \<le> k"
  using assms
proof (induction fmt pos k rule: getParamInfo_loop.induct)
  case (1 fmt pos k)
  show ?case
  proof (cases "pos < length fmt")
    case False
    then show ?thesis by (intro exI [of _ "[]"]) simp
  next
    case True
    with 1(2) obtain p n where b: "getParamInfo_body fmt pos k = Go (p, n)"
      and l: "getParamInfo_loop fmt p n = Inr kINVALID"
      using getParamInfo_body_not_kINVALID [of fmt pos k]
      by (subst (asm) getParamInfo_loop.simps) (auto split: flow.splits)
    obtain it rest where it: "item_ok it" "drop pos fmt = item_text it @ rest"
      using b True by (rule getParamInfo_body_Go)
    have "getParamInfo_body fmt pos k =
        after_params (item_params it) (pos + length (item_text it)) k"
      using it by (intro getParamInfo_body_item)
    with b have p: "p = pos + length (item_text it)" and n: "n + length (item_params it) = k"
      by (auto simp: after_params_def split: if_splits)
    have "p \<le> length fmt" using b True by (auto dest: getParamInfo_body_progress)
    then obtain its where its: "list_all item_ok its" "drop p fmt = format_text its"
      "length (format_params its) \<le> n"
      using 1(1) [OF True b] l by auto
    have "drop p fmt = rest" unfolding p by (rule drop_append_length [OF it(2)])
    with it its n show ?thesis by (intro exI [of _ "it # its"]) auto
  qed
qed

lemma getParamInfo_kINVALID:
  assumes "getParamInfo fmt k = Inr kINVALID"
  obtains its where "list_all item_ok its" "fmt = format_text its"
    "length (format_params its) \<le> k"
  using getParamInfo_loop_kINVALID [of fmt 0 k] assms by (auto simp: getParamInfo_def)

text \<open>A parameter that exists has a number below the length of the string.\<close>

lemma skip_while_bound:
  "skip_while P fmt pos = Go p \<Longrightarrow> pos \<le> length fmt \<Longrightarrow> \<not> P NUL \<Longrightarrow> pos \<le> p \<and> p \<le> length fmt"
  using length_takeWhile_le [of P "drop pos fmt"] by (auto simp: skip_while_closed)

lemma scan_precision_bound:
  "scan_precision fmt pos 0 = Go (p, v) \<Longrightarrow> pos \<le> length fmt \<Longrightarrow> pos \<le> p \<and> p \<le> length fmt"
  using length_takeWhile_le [of isDigit "drop pos fmt"]
  by (auto simp: scan_precision_closed INT_MAX_def Let_def split: if_splits)

lemma fmt_at_bound: "fmt_at fmt pos = Go c \<Longrightarrow> c \<noteq> NUL \<Longrightarrow> pos < length fmt"
  by (auto simp: fmt_at_def split: if_splits)

lemma consume_width_bound:
  "consume_width fmt pos k = Go (p, n) \<Longrightarrow> pos \<le> length fmt \<Longrightarrow>
     pos \<le> p \<and> p \<le> length fmt \<and> k \<le> n + (p - pos)"
  by (auto simp: consume_width_def flow_bind_Go_iff dest!: skip_while_bound fmt_at_bound
      split: if_splits)

lemma consume_precision_bound:
  "consume_precision fmt pos k = Go (p, n, b, v) \<Longrightarrow> pos \<le> length fmt \<Longrightarrow>
     pos \<le> p \<and> p \<le> length fmt \<and> k \<le> n + (p - pos)"
  by (auto simp: consume_precision_def flow_bind_Go_iff dest!: scan_precision_bound fmt_at_bound
      split: if_splits)

lemma consume_width_Return:
  "consume_width fmt pos k = Return t \<Longrightarrow> k = 0 \<and> pos < length fmt"
  by (auto simp: consume_width_def flow_bind_Return_iff dest: fmt_at_bound split: if_splits)

lemma consume_precision_Return:
  "consume_precision fmt pos k = Return t \<Longrightarrow> k = 0 \<and> pos < length fmt"
  by (auto simp: consume_precision_def flow_bind_Return_iff dest: fmt_at_bound split: if_splits)

lemma consume_terminal_Return:
  "consume_terminal fmt pos k b v = Return t \<Longrightarrow> k = 0 \<and> pos < length fmt"
  by (auto simp: consume_terminal_def flow_bind_Return_iff dest: fmt_at_bound terminal_other
      split: if_splits)

lemma consume_specifier_Return:
  assumes "consume_specifier fmt pos k = Return t" "pos \<le> length fmt"
  shows "k + pos < length fmt"
proof -
  from assms(1) obtain p1 where s1: "skip_while isFlag fmt pos = Go p1"
    and r: "consume_width fmt p1 k = Return t \<or> (\<exists>p2 n2. consume_width fmt p1 k = Go (p2, n2)
      \<and> (consume_precision fmt p2 n2 = Return t
        \<or> (\<exists>p3 n3 b v p4. consume_precision fmt p2 n2 = Go (p3, n3, b, v)
             \<and> skip_while isLength fmt p3 = Go p4 \<and> consume_terminal fmt p4 n3 b v = Return t)))"
    unfolding consume_specifier_def flow_bind_Return_iff split_paired_Ex prod.case by auto
  have p1: "pos \<le> p1" "p1 \<le> length fmt" using skip_while_bound [OF s1 assms(2)] by auto
  from r show ?thesis
  proof (elim disjE exE conjE)
    assume "consume_width fmt p1 k = Return t"
    with p1 show ?thesis by (auto dest: consume_width_Return)
  next
    fix p2 n2 assume "consume_width fmt p1 k = Go (p2, n2)" "consume_precision fmt p2 n2 = Return t"
    with p1 show ?thesis by (auto dest!: consume_width_bound consume_precision_Return)
  next
    fix p2 n2 p3 n3 b v p4
    assume s: "consume_width fmt p1 k = Go (p2, n2)" "consume_precision fmt p2 n2 = Go (p3, n3, b, v)"
      "skip_while isLength fmt p3 = Go p4" "consume_terminal fmt p4 n3 b v = Return t"
    note b2 = consume_width_bound [OF s(1) p1(2)]
    have b3: "p2 \<le> p3 \<and> p3 \<le> length fmt \<and> n2 \<le> n3 + (p3 - p2)"
      using consume_precision_bound [OF s(2)] b2 by blast
    have b4: "p3 \<le> p4" using skip_while_bound [OF s(3)] b3 by simp
    have t: "n3 = 0" "p4 < length fmt" using consume_terminal_Return [OF s(4)] by simp_all
    have "k + pos \<le> n2 + p2" using p1(1) b2 by linarith
    also have "n2 + p2 \<le> p3" using b3 t(1) by linarith
    finally show ?thesis using b4 t(2) by linarith
  qed
qed

lemma getParamInfo_body_Return:
  "getParamInfo_body fmt pos k = Return t \<Longrightarrow> pos < length fmt \<Longrightarrow> k + pos < length fmt"
  by (auto simp: getParamInfo_body_def flow_bind_Return_iff dest!: consume_specifier_Return
      split: if_splits)

lemma getParamInfo_loop_bound:
  assumes "getParamInfo_loop fmt pos k = Inr t" "t \<noteq> kINVALID" "pos \<le> length fmt"
  shows "k + pos < length fmt"
  using assms
proof (induction fmt pos k rule: getParamInfo_loop.induct)
  case (1 fmt pos k)
  have lt: "pos < length fmt"
    using 1(2,3) by (subst (asm) getParamInfo_loop.simps) (auto split: if_splits)
  show ?case
  proof (cases "getParamInfo_body fmt pos k")
    case (Throw e)
    with 1(2) lt show ?thesis by (subst (asm) getParamInfo_loop.simps) simp
  next
    case (Go pn)
    obtain p n where pn: "pn = (p, n)" by (cases pn)
    with Go 1(2) lt have "getParamInfo_loop fmt p n = Inr t"
      by (subst (asm) getParamInfo_loop.simps) simp
    moreover have pr: "pos < p \<and> p \<le> length fmt \<and> k \<le> n + (p - pos)"
      using Go pn lt by (auto dest: getParamInfo_body_progress)
    ultimately have "n + p < length fmt" using 1(1) [OF lt Go] pn 1(3) by simp
    with pr show ?thesis by linarith
  next
    case (Return t')
    then show ?thesis using lt by (rule getParamInfo_body_Return)
  qed
qed

subsection \<open>countFmtParams and the parameter type array\<close>

text \<open>\<^verbatim>\<open>while (getParamInfo(fmt, count) != kINVALID) ++count\<close>.\<close>

function countFmtParams_from :: "string \<Rightarrow> nat \<Rightarrow> fmt_error + nat" where
  "countFmtParams_from fmt count =
     (case getParamInfo fmt count of
        Inl e \<Rightarrow> Inl e
      | Inr t \<Rightarrow> if t \<noteq> kINVALID then countFmtParams_from fmt (Suc count) else Inr count)"
  by pat_completeness auto
termination
  by (relation "measure (\<lambda>(fmt, count). length fmt - count)")
     (auto simp: getParamInfo_def dest!: getParamInfo_loop_bound)

declare countFmtParams_from.simps [simp del]

definition countFmtParams :: "string \<Rightarrow> fmt_error + nat" where
  "countFmtParams fmt = countFmtParams_from fmt 0"

text \<open>
  \<^verbatim>\<open>getNumNibblesNeeded\<close>: the loop bound is evaluated again in every iteration, as written.
\<close>

function getNumNibblesNeeded_loop :: "string \<Rightarrow> nat \<Rightarrow> nat \<Rightarrow> fmt_error + nat" where
  "getNumNibblesNeeded_loop fmt i num_nibbles =
     (case countFmtParams fmt of
        Inl e \<Rightarrow> Inl e
      | Inr n \<Rightarrow>
          if i < n then
            (case getParamInfo fmt i of
               Inl e \<Rightarrow> Inl e
             | Inr t \<Rightarrow> getNumNibblesNeeded_loop fmt (Suc i)
                 (if t = kNON_STRING \<or> t = kDYNAMIC_PRECISION \<or> t = kDYNAMIC_WIDTH
                  then Suc num_nibbles else num_nibbles))
          else Inr num_nibbles)"
  by pat_completeness auto
termination
  by (relation "measure (\<lambda>(fmt, i, k). case countFmtParams fmt of Inl e \<Rightarrow> 0 | Inr n \<Rightarrow> n - i)") auto

declare getNumNibblesNeeded_loop.simps [simp del]

definition getNumNibblesNeeded :: "string \<Rightarrow> fmt_error + nat" where
  "getNumNibblesNeeded fmt = getNumNibblesNeeded_loop fmt 0 0"

text \<open>\<^verbatim>\<open>analyzeFormatString<NParams>\<close>, with its helper over the index sequence.\<close>

definition analyzeFormatStringHelper :: "string \<Rightarrow> nat list \<Rightarrow> fmt_error + ParamType list" where
  "analyzeFormatStringHelper fmt indices = sum_map (getParamInfo fmt) indices"

definition analyzeFormatString :: "nat \<Rightarrow> string \<Rightarrow> fmt_error + ParamType list" where
  "analyzeFormatString n_params fmt = analyzeFormatStringHelper fmt [0..<n_params]"

subsection \<open>Counting and listing the parameters of a format\<close>

lemma countFmtParams_from_items:
  assumes "list_all item_ok its" "k \<le> length (format_params its)"
  shows "countFmtParams_from (format_text its) k = Inr (length (format_params its))"
  using assms(2)
proof (induction "length (format_params its) - k" arbitrary: k)
  case 0
  with assms(1) show ?case
    by (subst countFmtParams_from.simps) (simp add: getParamInfo_format_text)
next
  case (Suc d)
  then have k: "k < length (format_params its)" by simp
  then have "format_params its ! k \<noteq> kINVALID"
    using nth_mem [OF k] kINVALID_not_param by (auto simp: format_params_def)
  with Suc k assms(1) show ?case
    by (subst countFmtParams_from.simps) (simp add: getParamInfo_format_text)
qed

lemma countFmtParams_format_text:
  "list_all item_ok its \<Longrightarrow> countFmtParams (format_text its) = Inr (length (format_params its))"
  by (simp add: countFmtParams_def countFmtParams_from_items)

lemma countFmtParams_from_Inr:
  "countFmtParams_from fmt k = Inr n \<Longrightarrow> getParamInfo fmt n = Inr kINVALID"
proof (induction fmt k rule: countFmtParams_from.induct)
  case (1 fmt k)
  show ?case
  proof (cases "getParamInfo fmt k")
    case (Inl e)
    with 1(2) show ?thesis by (subst (asm) countFmtParams_from.simps) simp
  next
    case (Inr t)
    with 1 show ?thesis
      by (subst (asm) (2) countFmtParams_from.simps) (auto split: if_splits)
  qed
qed

lemma countFmtParams_Inr:
  assumes "countFmtParams fmt = Inr n"
  obtains its where "list_all item_ok its" "fmt = format_text its" "n = length (format_params its)"
proof -
  from assms have "getParamInfo fmt n = Inr kINVALID"
    unfolding countFmtParams_def by (rule countFmtParams_from_Inr)
  then obtain its where its: "list_all item_ok its" "fmt = format_text its"
    by (rule getParamInfo_kINVALID)
  with assms countFmtParams_format_text that show ?thesis by simp
qed

lemma analyzeFormatString_format_text:
  assumes "list_all item_ok its" "n \<le> length (format_params its)"
  shows "analyzeFormatString n (format_text its) = Inr (take n (format_params its))"
proof -
  have "sum_map (getParamInfo (format_text its)) [0..<n] = Inr (map ((!) (format_params its)) [0..<n])"
    using assms by (intro sum_map_Inr) (simp add: getParamInfo_format_text)
  also have "map ((!) (format_params its)) [0..<n] = take n (format_params its)"
    using assms by (intro nth_equalityI) simp_all
  finally show ?thesis
    by (simp add: analyzeFormatString_def analyzeFormatStringHelper_def)
qed

text \<open>The types \<^verbatim>\<open>getNumNibblesNeeded\<close> counts.\<close>

definition nibble_param :: "ParamType \<Rightarrow> bool" where
  "nibble_param t \<longleftrightarrow> t = kNON_STRING \<or> t = kDYNAMIC_PRECISION \<or> t = kDYNAMIC_WIDTH"

lemma getNumNibblesNeeded_loop_items:
  assumes "list_all item_ok its"
  shows "getNumNibblesNeeded_loop (format_text its) i c =
    Inr (c + length (filter nibble_param (drop i (format_params its))))"
proof (induction "length (format_params its) - i" arbitrary: i c)
  case 0
  with assms show ?case
    by (subst getNumNibblesNeeded_loop.simps) (simp add: countFmtParams_format_text)
next
  case (Suc d)
  then have i: "i < length (format_params its)" by simp
  then have "drop i (format_params its) = format_params its ! i # drop (Suc i) (format_params its)"
    by (simp add: Cons_nth_drop_Suc)
  moreover have "d = length (format_params its) - Suc i" using Suc(2) by simp
  ultimately show ?case
    using Suc(1) [of "Suc i"] assms i
    by (subst getNumNibblesNeeded_loop.simps)
       (simp add: countFmtParams_format_text getParamInfo_format_text nibble_param_def)
qed

subsection \<open>No read outside the array\<close>

lemma consume_specifier_in_range:
  assumes "pos \<le> length fmt"
  shows "consume_specifier fmt pos k \<noteq> Throw Out_of_range"
proof
  have at: "q \<le> length fmt \<Longrightarrow> fmt_at fmt q \<noteq> Throw e" for q e by (simp add: fmt_at_def)
  have w: "q \<le> length fmt \<Longrightarrow> consume_width fmt q j \<noteq> Throw Out_of_range" for q j
    by (auto simp: consume_width_def flow_bind_Throw_iff at skip_while_closed split: if_splits)
  have pr: "q \<le> length fmt \<Longrightarrow> consume_precision fmt q j \<noteq> Throw Out_of_range" for q j
    by (auto simp: consume_precision_def flow_bind_Throw_iff at scan_precision_closed INT_MAX_def
        Let_def dest!: fmt_at_bound split: if_splits)
  have t: "q \<le> length fmt \<Longrightarrow> consume_terminal fmt q j b v \<noteq> Throw Out_of_range" for q j b v
    by (auto simp: consume_terminal_def flow_bind_Throw_iff at split: if_splits)
  have sk: "q \<le> length fmt \<Longrightarrow> \<not> P NUL \<Longrightarrow> skip_while P fmt q \<noteq> Throw e" for q e P
    by (simp add: skip_while_closed)
  assume "consume_specifier fmt pos k = Throw Out_of_range"
  then show False
    unfolding consume_specifier_def flow_bind_Throw_iff split_paired_Ex prod.case
  proof (elim disjE exE conjE)
    assume "skip_while isFlag fmt pos = Throw Out_of_range"
    with sk [of pos isFlag Out_of_range] assms show False by simp
  next
    fix p1 assume s1: "skip_while isFlag fmt pos = Go p1"
    have p1: "p1 \<le> length fmt" using skip_while_bound [OF s1 assms] by simp
    { assume "consume_width fmt p1 k = Throw Out_of_range"
      with w [OF p1] show False by simp }
    fix p2 n2 assume s2: "consume_width fmt p1 k = Go (p2, n2)"
    have p2: "p2 \<le> length fmt" using consume_width_bound [OF s2 p1] by simp
    { assume "consume_precision fmt p2 n2 = Throw Out_of_range"
      with pr [OF p2] show False by simp }
    fix p3 n3 b v assume s3: "consume_precision fmt p2 n2 = Go (p3, n3, b, v)"
    have p3: "p3 \<le> length fmt" using consume_precision_bound [OF s3 p2] by simp
    { assume "skip_while isLength fmt p3 = Throw Out_of_range"
      with sk [of p3 isLength Out_of_range] p3 show False by simp }
    fix p4 assume s4: "skip_while isLength fmt p3 = Go p4"
      and "consume_terminal fmt p4 n3 b v = Throw Out_of_range"
    with t [of p4 n3 b v] skip_while_bound [OF s4 p3] show False by simp
  qed
qed

lemma getParamInfo_body_in_range:
  "pos < length fmt \<Longrightarrow> getParamInfo_body fmt pos k \<noteq> Throw Out_of_range"
  by (auto simp: getParamInfo_body_def flow_bind_Throw_iff fmt_at_def
      dest: consume_specifier_in_range [of "Suc pos" fmt k, OF Suc_leI] split: if_splits)

lemma getParamInfo_loop_in_range: "getParamInfo_loop fmt pos k \<noteq> Inl Out_of_range"
proof (induction fmt pos k rule: getParamInfo_loop.induct)
  case (1 fmt pos k)
  then show ?case
    using getParamInfo_body_in_range [of pos fmt k]
    by (subst getParamInfo_loop.simps) (auto split: flow.splits)
qed

lemma countFmtParams_from_in_range: "countFmtParams_from fmt k \<noteq> Inl Out_of_range"
proof (induction fmt k rule: countFmtParams_from.induct)
  case (1 fmt k)
  then show ?case
    using getParamInfo_loop_in_range [of fmt 0 k]
    by (subst countFmtParams_from.simps) (auto simp: getParamInfo_def split: sum.splits)
qed

subsection \<open>Properties\<close>

text \<open>
  C13. On every format string of the printf grammar, \<^verbatim>\<open>getParamInfo\<close> returns, for the parameter number
  \<open>k\<close>, the \<open>k\<close>-th entry of the parameter types of its specifiers in order (a \<open>*\<close> width, a \<open>*\<close>
  precision and the converted argument each counting as one), and \<open>kINVALID\<close> beyond the last.
\<close>

theorem getParamInfo_correct:
  assumes "list_all item_ok its"
  shows "getParamInfo (format_text its) k =
    Inr (if k < length (format_params its) then format_params its ! k else kINVALID)"
  using assms by (rule getParamInfo_format_text)

theorem getParamInfo_correct_witness:
  "getParamInfo ''a%-*.3s%%%d'' 1 = Inr (kSTRING 3) \<and> getParamInfo ''a%-*.3s%%%d'' 3 = Inr kINVALID"
proof -
  let ?its = "[Literal CHR ''a'', Specifier ''-'' WStar (PDigits ''3'') [] CHR ''s'', Escape,
    Specifier [] (WDigits []) PNone [] CHR ''d'']"
  have ok: "list_all item_ok ?its"
    by (simp add: char_class_defs digit_value_def INT_MAX_def)
  show ?thesis
    using getParamInfo_correct [OF ok, of 1] getParamInfo_correct [OF ok, of 3]
    by (simp add: digit_value_def)
qed

text \<open>
  C14. \<^verbatim>\<open>countFmtParams\<close> accepts exactly the format strings of the printf grammar and returns the number
  of parameters they consume; on any other string it throws (it always terminates).
\<close>

theorem countFmtParams_accepts_grammar:
  "countFmtParams fmt = Inr n \<longleftrightarrow>
     (\<exists>its. list_all item_ok its \<and> fmt = format_text its \<and> n = length (format_params its))"
  using countFmtParams_format_text by (auto elim: countFmtParams_Inr)

text \<open>
  C29. The parameter type array that \<^verbatim>\<open>STATIC_LOG\<close> computes from an accepted format is the list of the
  parameter types of its specifiers; none of them is \<open>kINVALID\<close>.
\<close>

theorem analyzeFormatString_correct:
  assumes "countFmtParams fmt = Inr n"
  shows "\<exists>its. list_all item_ok its \<and> fmt = format_text its
    \<and> analyzeFormatString n fmt = Inr (format_params its) \<and> kINVALID \<notin> set (format_params its)"
proof -
  from assms obtain its where its: "list_all item_ok its" "fmt = format_text its"
    "n = length (format_params its)" by (rule countFmtParams_Inr)
  with analyzeFormatString_format_text [of its n] have
    "analyzeFormatString n fmt = Inr (format_params its)" by simp
  moreover have "kINVALID \<notin> set (format_params its)"
    using kINVALID_not_param by (auto simp: format_params_def)
  ultimately show ?thesis using its by blast
qed

theorem analyzeFormatString_correct_witness:
  "\<exists>its. list_all item_ok its \<and> ''%s'' = format_text its
    \<and> analyzeFormatString 1 ''%s'' = Inr (format_params its) \<and> kINVALID \<notin> set (format_params its)"
proof -
  have "countFmtParams (format_text [Specifier [] (WDigits []) PNone [] CHR ''s'']) = Inr 1"
    by (subst countFmtParams_format_text) (simp_all add: char_class_defs)
  then have "countFmtParams ''%s'' = Inr 1" by simp
  then show ?thesis by (rule analyzeFormatString_correct)
qed

text \<open>
  C30. Neither function ever reads the format array out of range: a malformed format is rejected
  with one of the parser's own exceptions.
\<close>

theorem parser_stays_in_array:
  "getParamInfo fmt k \<noteq> Inl Out_of_range \<and> countFmtParams fmt \<noteq> Inl Out_of_range"
  using getParamInfo_loop_in_range countFmtParams_from_in_range
  by (simp add: getParamInfo_def countFmtParams_def)

text \<open>
  \<^verbatim>\<open>getNumNibblesNeeded\<close> counts the non-string parameters of the array.
\<close>

theorem getNumNibblesNeeded_correct:
  assumes "countFmtParams fmt = Inr n" "analyzeFormatString n fmt = Inr ts"
  shows "getNumNibblesNeeded fmt = Inr (length (filter nibble_param ts))"
proof -
  from assms(1) obtain its where its: "list_all item_ok its" "fmt = format_text its"
    "n = length (format_params its)" by (rule countFmtParams_Inr)
  with assms(2) analyzeFormatString_format_text [of its n] have "ts = format_params its" by simp
  with its getNumNibblesNeeded_loop_items [OF its(1), of 0 0] show ?thesis
    by (simp add: getNumNibblesNeeded_def)
qed

theorem getNumNibblesNeeded_correct_witness: "getNumNibblesNeeded ''%d%s'' = Inr 1"
proof -
  let ?its = "[Specifier [] (WDigits []) PNone [] CHR ''d'', Specifier [] (WDigits []) PNone [] CHR ''s'']"
  have ok: "list_all item_ok ?its" by (simp add: char_class_defs)
  have "countFmtParams (format_text ?its) = Inr 2"
    by (subst countFmtParams_format_text [OF ok]) simp
  moreover have "analyzeFormatString 2 (format_text ?its) = Inr (take 2 (format_params ?its))"
    by (rule analyzeFormatString_format_text [OF ok]) simp
  ultimately show ?thesis
    using getNumNibblesNeeded_correct [of "''%d%s''" 2 "[kNON_STRING, kSTRING_WITH_NO_PRECISION]"]
    by (simp add: nibble_param_def)
qed

end
