(* ===== verification/ArgStore.thy ===== *)
theory ArgStore
  imports FormatParser
begin

section \<open>Sizing and storing the arguments of a log statement\<close>

text \<open>
  The run-time part of \<^verbatim>\<open>src/src/static_log_internal.h\<close>: \<^verbatim>\<open>as_uint64_t\<close>, \<^verbatim>\<open>getArgSize(s)\<close>,
  \<^verbatim>\<open>storeArgument(s)\<close> and \<^verbatim>\<open>downCast\<close>. \<^verbatim>\<open>size_t\<close> and \<^verbatim>\<open>uint64_t\<close> are 64-bit words, the overloads of a
  template are the constructors of the argument type, and the buffer written through \<^verbatim>\<open>char **storage\<close>
  is a memory together with the current position.
\<close>

subsection \<open>Arguments\<close>

text \<open>
  One constructor per class of C++ argument type that the templates tell apart: integers of each
  width and sign (\<^verbatim>\<open>char\<close> is signed, \<^verbatim>\<open>bool\<close> an unsigned byte), \<^verbatim>\<open>float\<close> and \<^verbatim>\<open>double\<close> by their
  representation, object pointers, \<^verbatim>\<open>char*\<close>/\<^verbatim>\<open>const char*\<close> with the address and the characters before
  the NUL, and the non-constant \<^verbatim>\<open>wchar_t*\<close> with the address and the bytes found there.
\<close>

datatype arg =
    AI8 "8 word" | AU8 "8 word"
  | AI16 "16 word" | AU16 "16 word"
  | AI32 "32 word" | AU32 "32 word"
  | AI64 "64 word" | AU64 "64 word"
  | AF32 "32 word" | AF64 "64 word"
  | APtr "64 word"
  | AStr "64 word" string
  | AWStr "64 word" "byte list"

primrec sizeof_arg :: "arg \<Rightarrow> nat" where
  "sizeof_arg (AI8 w) = 1" | "sizeof_arg (AU8 w) = 1"
| "sizeof_arg (AI16 w) = 2" | "sizeof_arg (AU16 w) = 2"
| "sizeof_arg (AI32 w) = 4" | "sizeof_arg (AU32 w) = 4"
| "sizeof_arg (AI64 w) = 8" | "sizeof_arg (AU64 w) = 8"
| "sizeof_arg (AF32 w) = 4" | "sizeof_arg (AF64 w) = 8"
| "sizeof_arg (APtr w) = 8"
| "sizeof_arg (AStr a s) = 8"
| "sizeof_arg (AWStr a s) = 8"

text \<open>The object representation, as \<^verbatim>\<open>memcpy(dst, &arg, sizeof(T))\<close> copies it.\<close>

primrec arg_bytes :: "arg \<Rightarrow> byte list" where
  "arg_bytes (AI8 w) = le_bytes 1 (unat w)" | "arg_bytes (AU8 w) = le_bytes 1 (unat w)"
| "arg_bytes (AI16 w) = le_bytes 2 (unat w)" | "arg_bytes (AU16 w) = le_bytes 2 (unat w)"
| "arg_bytes (AI32 w) = le_bytes 4 (unat w)" | "arg_bytes (AU32 w) = le_bytes 4 (unat w)"
| "arg_bytes (AI64 w) = le_bytes 8 (unat w)" | "arg_bytes (AU64 w) = le_bytes 8 (unat w)"
| "arg_bytes (AF32 w) = le_bytes 4 (unat w)" | "arg_bytes (AF64 w) = le_bytes 8 (unat w)"
| "arg_bytes (APtr w) = le_bytes 8 (unat w)"
| "arg_bytes (AStr a s) = le_bytes 8 (unat a)"
| "arg_bytes (AWStr a s) = le_bytes 8 (unat a)"

lemma length_arg_bytes [simp]: "length (arg_bytes a) = sizeof_arg a"
  by (cases a) simp_all

lemma sizeof_arg_bounds: "0 < sizeof_arg a" "sizeof_arg a \<le> 8"
  by (cases a; simp)+

primrec is_str :: "arg \<Rightarrow> bool" where
  "is_str (AI8 w) = False" | "is_str (AU8 w) = False"
| "is_str (AI16 w) = False" | "is_str (AU16 w) = False"
| "is_str (AI32 w) = False" | "is_str (AU32 w) = False"
| "is_str (AI64 w) = False" | "is_str (AU64 w) = False"
| "is_str (AF32 w) = False" | "is_str (AF64 w) = False"
| "is_str (APtr w) = False"
| "is_str (AStr a s) = True"
| "is_str (AWStr a s) = False"

text \<open>\<^verbatim>\<open>as_uint64_t\<close>: integers convert (signed ones sign-extend), everything else gives 0.\<close>

primrec as_uint64_t :: "arg \<Rightarrow> 64 word" where
  "as_uint64_t (AI8 w) = scast w" | "as_uint64_t (AU8 w) = ucast w"
| "as_uint64_t (AI16 w) = scast w" | "as_uint64_t (AU16 w) = ucast w"
| "as_uint64_t (AI32 w) = scast w" | "as_uint64_t (AU32 w) = ucast w"
| "as_uint64_t (AI64 w) = w" | "as_uint64_t (AU64 w) = w"
| "as_uint64_t (AF32 w) = 0" | "as_uint64_t (AF64 w) = 0"
| "as_uint64_t (APtr w) = 0"
| "as_uint64_t (AStr a s) = 0"
| "as_uint64_t (AWStr a s) = 0"

text \<open>\<^verbatim>\<open>analyzeFmtParamSize\<close>: the sizes of the argument types.\<close>

definition analyzeFmtParamSize :: "arg list \<Rightarrow> nat list" where
  "analyzeFmtParamSize args = map sizeof_arg args"

subsection \<open>getArgSize and getArgSizes\<close>

datatype store_error =
    Argument_out_of_range \<comment> \<open>\<^verbatim>\<open>arg_fmt_types[arg_num]\<close> beyond the array\<close>
  | String_too_large \<comment> \<open>the exception of \<^verbatim>\<open>storeArgument\<close>\<close>
  | Read_past_string \<comment> \<open>\<^verbatim>\<open>memcpy\<close> reads beyond the argument's characters\<close>
  | Assertion_failed

text \<open>
  The result of \<^verbatim>\<open>getArgSize\<close>, with its two reference parameters: the size, the new
  \<^verbatim>\<open>previous_precision\<close> and the new \<^verbatim>\<open>string_size\<close>.
\<close>

definition getArgSize_value ::
  "ParamType \<Rightarrow> 64 word \<Rightarrow> 64 word \<Rightarrow> arg \<Rightarrow> 64 word \<times> 64 word \<times> 64 word" where
  "getArgSize_value fmt_type previous_precision string_size a =
     (of_nat (sizeof_arg a),
      (if fmt_type = kDYNAMIC_PRECISION then as_uint64_t a else previous_precision),
      of_nat (sizeof_arg a))"

definition getArgSize_string ::
  "ParamType \<Rightarrow> 64 word \<Rightarrow> 64 word \<Rightarrow> string \<Rightarrow> 64 word \<times> 64 word \<times> 64 word" where
  "getArgSize_string fmt_type previous_precision string_size str =
     (if fmt_type \<le> kNON_STRING then (8, previous_precision, string_size)
      else
        (let string_size = of_nat (length str);
             fmt_length = (ucast string_size :: 32 word);
             string_size =
               (if kSTRING 0 \<le> fmt_type \<and> ucast fmt_length < string_size then ucast fmt_length
                else if fmt_type = kSTRING_WITH_DYNAMIC_PRECISION \<and> previous_precision < string_size
                then previous_precision
                else string_size)
         in (string_size + 4, previous_precision, string_size)))"

fun getArgSize ::
  "ParamType \<Rightarrow> 64 word \<Rightarrow> 64 word \<Rightarrow> arg \<Rightarrow> 64 word \<times> 64 word \<times> 64 word" where
  "getArgSize fmt_type previous_precision string_size (AStr a str) =
     getArgSize_string fmt_type previous_precision string_size str"
| "getArgSize fmt_type previous_precision string_size a =
     getArgSize_value fmt_type previous_precision string_size a"

text \<open>
  \<^verbatim>\<open>getArgSizes<arg_num>\<close>: the sum of the sizes, the last dynamic precision and the filled
  \<^verbatim>\<open>string_sizes\<close> array, the head evaluated before the rest. C++ leaves the order of the two operands of the
  sum open; only in this one does a dynamic precision reach its string.
\<close>

fun getArgSizes ::
  "nat \<Rightarrow> ParamType list \<Rightarrow> 64 word \<Rightarrow> 64 word list \<Rightarrow> arg list
     \<Rightarrow> store_error + (64 word \<times> 64 word \<times> 64 word list)" where
  "getArgSizes arg_num arg_fmt_types previous_precision string_sizes [] =
     Inr (0, previous_precision, string_sizes)"
| "getArgSizes arg_num arg_fmt_types previous_precision string_sizes (head # rest) =
     (if length arg_fmt_types \<le> arg_num \<or> length string_sizes \<le> arg_num
      then Inl Argument_out_of_range
      else
        (case getArgSize (arg_fmt_types ! arg_num) previous_precision (string_sizes ! arg_num) head of
           (arg_size, previous_precision, string_size) \<Rightarrow>
             sum_bind
               (getArgSizes (Suc arg_num) arg_fmt_types previous_precision
                  (string_sizes[arg_num := string_size]) rest)
               (\<lambda>(sizes, previous_precision, string_sizes).
                  Inr (arg_size + sizes, previous_precision, string_sizes))))"

subsection \<open>storeArgument and storeArguments\<close>

definition storeArgument_value :: "mem \<times> nat \<Rightarrow> byte list \<Rightarrow> mem \<times> nat" where
  "storeArgument_value storage bytes =
     (mem_write (fst storage) (snd storage) bytes, snd storage + length bytes)"

text \<open>
  The string overload, on the pointer value \<open>a\<close> and the bytes \<open>content\<close> that can be read there.
\<close>

definition storeArgument_string ::
  "mem \<times> nat \<Rightarrow> 64 word \<Rightarrow> byte list \<Rightarrow> ParamType \<Rightarrow> 64 word \<Rightarrow> store_error + (mem \<times> nat)" where
  "storeArgument_string storage a content param_type string_size =
     (if param_type \<le> kNON_STRING then Inr (storeArgument_value storage (le_bytes 8 (unat a)))
      else if 0xFFFFFFFF < string_size then Inl String_too_large
      else
        (let size32 = (ucast string_size :: 32 word);
             storage = storeArgument_value storage (le_bytes 4 (unat size32))
         in if length content < unat string_size then Inl Read_past_string
            else Inr (storeArgument_value storage (take (unat string_size) content))))"

fun storeArgument ::
  "mem \<times> nat \<Rightarrow> arg \<Rightarrow> ParamType \<Rightarrow> 64 word \<Rightarrow> store_error + (mem \<times> nat)" where
  "storeArgument storage (AStr a str) param_type string_size =
     storeArgument_string storage a (str @ [NUL]) param_type string_size"
| "storeArgument storage (AWStr a content) param_type string_size =
     storeArgument_string storage a content param_type string_size"
| "storeArgument storage a param_type string_size =
     Inr (storeArgument_value storage (arg_bytes a))"

fun storeArguments ::
  "nat \<Rightarrow> ParamType list \<Rightarrow> 64 word list \<Rightarrow> mem \<times> nat \<Rightarrow> arg list \<Rightarrow> store_error + (mem \<times> nat)" where
  "storeArguments arg_num param_types string_sizes storage [] = Inr storage"
| "storeArguments arg_num param_types string_sizes storage (head # rest) =
     (if length param_types \<le> arg_num \<or> length string_sizes \<le> arg_num
      then Inl Argument_out_of_range
      else sum_bind
        (storeArgument storage head (param_types ! arg_num) (string_sizes ! arg_num))
        (\<lambda>storage. storeArguments (Suc arg_num) param_types string_sizes storage rest))"

text \<open>\<^verbatim>\<open>downCast<uint32_t>\<close> of a \<^verbatim>\<open>size_t\<close>, with its assertion.\<close>

definition downCast :: "64 word \<Rightarrow> store_error + 32 word" where
  "downCast large =
     (let small = (ucast large :: 32 word)
      in if large - ucast small = 0 then Inr small else Inl Assertion_failed)"

subsection \<open>Reference: what is stored\<close>

text \<open>
  The bytes an argument contributes to the record, given its type and the dynamic precision in
  force: a pointer or value is its object representation, a string a 32-bit length and that many
  characters.
\<close>

definition stored_length :: "ParamType \<Rightarrow> 64 word \<Rightarrow> string \<Rightarrow> nat" where
  "stored_length t previous_precision s =
     (if t = kSTRING_WITH_DYNAMIC_PRECISION then min (length s) (unat previous_precision)
      else length s)"

fun arg_image :: "ParamType \<Rightarrow> 64 word \<Rightarrow> arg \<Rightarrow> byte list" where
  "arg_image t previous_precision (AStr a s) =
     (if t \<le> kNON_STRING then le_bytes 8 (unat a)
      else le_bytes 4 (stored_length t previous_precision s)
           @ take (stored_length t previous_precision s) s)"
| "arg_image t previous_precision a = arg_bytes a"

definition next_precision :: "ParamType \<Rightarrow> 64 word \<Rightarrow> arg \<Rightarrow> 64 word" where
  "next_precision t previous_precision a =
     (if t = kDYNAMIC_PRECISION \<and> \<not> is_str a then as_uint64_t a else previous_precision)"

fun args_image :: "nat \<Rightarrow> ParamType list \<Rightarrow> 64 word \<Rightarrow> arg list \<Rightarrow> byte list" where
  "args_image n ts previous_precision [] = []"
| "args_image n ts previous_precision (a # as) =
     arg_image (ts ! n) previous_precision a
     @ args_image (Suc n) ts (next_precision (ts ! n) previous_precision a) as"

text \<open>
  The arguments the code stores correctly: strings shorter than \<open>2 ^ 32\<close>, and no non-constant wide
  string.
\<close>

fun arg_ok :: "arg \<Rightarrow> bool" where
  "arg_ok (AStr a s) \<longleftrightarrow> length s < 2 ^ 32"
| "arg_ok (AWStr a c) \<longleftrightarrow> False"
| "arg_ok _ \<longleftrightarrow> True"

subsection \<open>Sizes and stores agree with the reference\<close>

lemma unat_ucast_32: "unat (ucast (w :: 64 word) :: 32 word) = unat w mod 2 ^ 32"
  by (simp add: unsigned_ucast_eq take_bit_eq_mod)

lemma unat_ucast_64: "unat (ucast (w :: 32 word) :: 64 word) = unat w"
proof -
  have "unat w < 2 ^ 32" using unsigned_less [of w] by simp
  then have "unat w < 2 ^ 64" by (rule order_less_trans) simp
  then show ?thesis by (simp add: unsigned_ucast_eq take_bit_eq_mod)
qed

lemma unat_length:
  "length s < 2 ^ 32 \<Longrightarrow> unat (of_nat (length s) :: 64 word) = length s"
  by (simp add: unat_of_nat)

text \<open>The truncation to the 32-bit \<^verbatim>\<open>fmt_length\<close> has no effect below \<open>2 ^ 32\<close>.\<close>

lemma fmt_length_small:
  assumes "length s < 2 ^ 32"
  shows "ucast (ucast (of_nat (length s) :: 64 word) :: 32 word) = (of_nat (length s) :: 64 word)"
proof -
  have "unat (ucast (ucast (of_nat (length s) :: 64 word) :: 32 word) :: 64 word) =
      unat (of_nat (length s) :: 64 word)"
    using assms by (simp add: unat_ucast_64 unat_ucast_32 unat_length)
  then show ?thesis by (rule unsigned_word_eqI)
qed

lemma stored_length_le: "stored_length t pp s \<le> length s"
  by (simp add: stored_length_def)

lemma getArgSize_string_eq:
  assumes "length s < 2 ^ 32" "\<not> t \<le> kNON_STRING"
  shows "getArgSize_string t pp ss s =
    (of_nat (stored_length t pp s) + 4, pp, of_nat (stored_length t pp s))"
proof -
  have lt: "pp < of_nat (length s) \<longleftrightarrow> unat pp < length s"
    using assms(1) by (simp add: word_less_nat_alt unat_length)
  show ?thesis
    using assms lt
    by (auto simp: getArgSize_string_def Let_def fmt_length_small stored_length_def min_def)
qed

lemma getArgSize_image:
  assumes "arg_ok a" "getArgSize t pp ss a = (sz, pp', ss')"
  shows "sz = of_nat (length (arg_image t pp a))" "pp' = next_precision t pp a"
    "\<not> t \<le> kNON_STRING \<Longrightarrow> is_str a \<Longrightarrow> unat ss' = length (arg_image t pp a) - 4"
    "\<not> is_str a \<Longrightarrow> ss' = of_nat (sizeof_arg a)"
proof -
  have "sz = of_nat (length (arg_image t pp a)) \<and> pp' = next_precision t pp a
    \<and> (\<not> t \<le> kNON_STRING \<longrightarrow> is_str a \<longrightarrow> unat ss' = length (arg_image t pp a) - 4)
    \<and> (\<not> is_str a \<longrightarrow> ss' = of_nat (sizeof_arg a))"
  proof (cases "is_str a")
    case False
    with assms show ?thesis
      by (cases a) (auto simp: getArgSize_value_def next_precision_def)
  next
    case True
    then obtain ad s where a: "a = AStr ad s" by (cases a) auto
    show ?thesis
    proof (cases "t \<le> kNON_STRING")
      case True
      with a assms show ?thesis
        by (auto simp: getArgSize_string_def next_precision_def)
    next
      case False
      let ?n = "stored_length t pp s"
      have n: "?n \<le> length s" by (rule stored_length_le)
      with a assms(1) have "unat (of_nat ?n :: 64 word) = ?n" by (simp add: unat_of_nat)
      with a n False assms getArgSize_string_eq [of s t pp ss] show ?thesis
        by (auto simp: next_precision_def min_def)
    qed
  qed
  then show "sz = of_nat (length (arg_image t pp a))" "pp' = next_precision t pp a"
    "\<not> t \<le> kNON_STRING \<Longrightarrow> is_str a \<Longrightarrow> unat ss' = length (arg_image t pp a) - 4"
    "\<not> is_str a \<Longrightarrow> ss' = of_nat (sizeof_arg a)" by auto
qed

lemma storeArgument_image:
  assumes "arg_ok a" "getArgSize t pp ss a = (sz, pp', ss')"
  shows "storeArgument (m, p) a t ss' =
    Inr (mem_write m p (arg_image t pp a), p + length (arg_image t pp a))"
proof (cases "is_str a")
  case False
  with assms(1) show ?thesis
    by (cases a) (auto simp: storeArgument_value_def)
next
  case True
  then obtain ad s where a: "a = AStr ad s" by (cases a) auto
  show ?thesis
  proof (cases "t \<le> kNON_STRING")
    case True
    with a show ?thesis by (simp add: storeArgument_string_def storeArgument_value_def)
  next
    case False
    let ?n = "stored_length t pp s"
    have n: "?n \<le> length s" by (rule stored_length_le)
    with a assms(1) have n32: "?n < 2 ^ 32" by simp
    have ss': "unat ss' = ?n"
      using getArgSize_image(3) [OF assms False] a False n by (simp add: min_def)
    then have "unat ss' \<le> unat (0xFFFFFFFF :: 64 word)" using n32 by simp
    then have "\<not> 0xFFFFFFFF < ss'" by (simp add: word_less_nat_alt linorder_not_less)
    moreover have "unat (ucast ss' :: 32 word) = ?n" using n32 by (simp add: unat_ucast_32 ss')
    ultimately show ?thesis
      using a False ss' n
      by (simp add: storeArgument_string_def storeArgument_value_def Let_def min_def
          mem_write_append [of m p "le_bytes 4 ?n", simplified])
  qed
qed

lemma getArgSizes_frame:
  "getArgSizes n ts pp ss args = Inr (sz, pp', ss') \<Longrightarrow>
     length ss' = length ss \<and> (\<forall>i < n. ss' ! i = ss ! i)"
proof (induction args arbitrary: n pp ss sz pp' ss')
  case Nil
  then show ?case by simp
next
  case (Cons a args)
  obtain s0 p0 x0 where g: "getArgSize (ts ! n) pp (ss ! n) a = (s0, p0, x0)"
    by (metis prod_cases3)
  with Cons.prems obtain sz1 where
    "getArgSizes (Suc n) ts p0 (ss[n := x0]) args = Inr (sz1, pp', ss')"
    by (auto simp: sum_bind_Inr_iff split: if_splits)
  with Cons.IH [OF this] show ?case by simp
qed

lemma getArgSizes_total:
  assumes "n + length args \<le> length ts" "n + length args \<le> length ss"
  shows "\<exists>sz pp' ss'. getArgSizes n ts pp ss args = Inr (sz, pp', ss')"
  using assms
proof (induction args arbitrary: n pp ss)
  case Nil
  then show ?case by simp
next
  case (Cons a args)
  obtain s0 p0 x0 where g: "getArgSize (ts ! n) pp (ss ! n) a = (s0, p0, x0)"
    by (metis prod_cases3)
  from Cons.IH [of "Suc n" "ss[n := x0]" p0] Cons.prems obtain sz pp' ss' where
    "getArgSizes (Suc n) ts p0 (ss[n := x0]) args = Inr (sz, pp', ss')" by auto
  with g Cons.prems show ?case by auto
qed

lemma storeArguments_image:
  assumes "list_all arg_ok args" "getArgSizes n ts pp ss args = Inr (sz, pp', ss')"
  shows "sz = of_nat (length (args_image n ts pp args))
    \<and> storeArguments n ts ss' (m, p) args =
        Inr (mem_write m p (args_image n ts pp args), p + length (args_image n ts pp args))"
  using assms
proof (induction args arbitrary: n pp ss sz pp' m p)
  case Nil
  then show ?case by (simp add: mem_write_Nil)
next
  case (Cons a args)
  obtain s0 p0 x0 where g: "getArgSize (ts ! n) pp (ss ! n) a = (s0, p0, x0)"
    by (metis prod_cases3)
  with Cons.prems(2) obtain sz1 where len: "n < length ts" "n < length ss"
    and r: "getArgSizes (Suc n) ts p0 (ss[n := x0]) args = Inr (sz1, pp', ss')"
    and sz: "sz = s0 + sz1"
    by (auto simp: sum_bind_Inr_iff split: if_splits)
  have ok: "arg_ok a" "list_all arg_ok args" using Cons.prems(1) by auto
  have f: "length ss' = length ss" "ss' ! n = x0"
    using getArgSizes_frame [OF r] len by auto
  note im = getArgSize_image(1,2) [OF ok(1) g] and st = storeArgument_image [OF ok(1) g, of m p]
  from Cons.IH [OF ok(2) r] im sz len f st show ?case
    by (simp add: mem_write_append add.assoc)
qed

text \<open>The size noted for an argument that is no string is that of its type.\<close>

lemma getArgSizes_values:
  assumes "list_all arg_ok args" "getArgSizes n ts pp ss args = Inr (sz, pp', ss')"
    and "k < length args" "\<not> is_str (args ! k)"
  shows "ss' ! (n + k) = of_nat (sizeof_arg (args ! k))"
  using assms
proof (induction args arbitrary: n pp ss sz k)
  case Nil
  then show ?case by simp
next
  case (Cons a args)
  obtain s0 p0 x0 where g: "getArgSize (ts ! n) pp (ss ! n) a = (s0, p0, x0)"
    by (metis prod_cases3)
  with Cons.prems(2) obtain sz1 where len: "n < length ss"
    and r: "getArgSizes (Suc n) ts p0 (ss[n := x0]) args = Inr (sz1, pp', ss')"
    by (auto simp: sum_bind_Inr_iff split: if_splits)
  show ?case
  proof (cases k)
    case 0
    with Cons.prems(1,4) getArgSizes_frame [OF r] len getArgSize_image(4) [OF _ g] show ?thesis by simp
  next
    case (Suc j)
    with Cons.IH [OF _ r, of j] Cons.prems show ?thesis by simp
  qed
qed

lemma arg_image_length: "arg_ok a \<Longrightarrow> length (arg_image t pp a) < 2 ^ 33"
proof (cases a)
  case (AStr ad s)
  assume "arg_ok a"
  with AStr stored_length_le [of t pp s] show ?thesis by auto
qed auto

lemma args_image_length:
  "list_all arg_ok args \<Longrightarrow> length (args_image n ts pp args) \<le> length args * 2 ^ 33"
proof (induction args arbitrary: n pp)
  case Nil
  then show ?case by simp
next
  case (Cons a args)
  then have "length (arg_image (ts ! n) pp a) < 2 ^ 33"
    by (intro arg_image_length) simp
  moreover have "length (args_image (Suc n) ts (next_precision (ts ! n) pp a) args)
      \<le> length args * 2 ^ 33"
    using Cons by simp
  ultimately show ?case by simp
qed

lemma downCast_eq:
  "downCast w = (if unat w < 2 ^ 32 then Inr (word_of_nat (unat w)) else Inl Assertion_failed)"
proof -
  have u: "unat (ucast (ucast w :: 32 word) :: 64 word) = unat w mod 2 ^ 32"
    by (simp add: unat_ucast_64 unat_ucast_32)
  have "w - ucast (ucast w :: 32 word) = 0 \<longleftrightarrow> unat w = unat (ucast (ucast w :: 32 word) :: 64 word)"
    by (auto intro: unsigned_word_eqI)
  also have "\<dots> \<longleftrightarrow> unat w < 2 ^ 32"
    unfolding u using mod_less_divisor [of "2 ^ 32" "unat w"] by (metis mod_less zero_less_numeral zero_less_power)
  finally show ?thesis by (simp add: downCast_def)
qed

subsection \<open>Properties\<close>

text \<open>
  C15. For the arguments the library supports, the sizes computed before the reservation are exactly
  what is stored afterwards: the store succeeds, writes the reference image of the arguments from
  the start of the reservation, and ends exactly \<^verbatim>\<open>alloc_size\<close> bytes further; nothing else in memory
  changes and the 64-bit sum has not wrapped around.
\<close>

theorem store_fills_reservation:
  assumes "list_all arg_ok args" "length args \<le> length ts" "length ts < length sizes"
    and "length args < 2 ^ 31"
  shows "\<exists>alloc pp' sizes'. getArgSizes 0 ts pp sizes args = Inr (alloc, pp', sizes')
    \<and> unat alloc = length (args_image 0 ts pp args)
    \<and> storeArguments 0 ts sizes' (m, p) args =
        Inr (mem_write m p (args_image 0 ts pp args), p + unat alloc)"
proof -
  from assms(2,3) getArgSizes_total [of 0 args ts sizes pp] obtain alloc pp' sizes' where
    g: "getArgSizes 0 ts pp sizes args = Inr (alloc, pp', sizes')" by auto
  have "length (args_image 0 ts pp args) \<le> length args * 2 ^ 33"
    using assms(1) by (rule args_image_length)
  also have "\<dots> < 2 ^ 64" using assms(4) by simp
  finally have "unat (of_nat (length (args_image 0 ts pp args)) :: 64 word)
      = length (args_image 0 ts pp args)" by (simp add: unat_of_nat)
  with g storeArguments_image [OF assms(1) g, of m p] show ?thesis by auto
qed

theorem store_fills_reservation_witness:
  "\<exists>alloc pp' sizes'.
     getArgSizes 0 [kNON_STRING, kSTRING_WITH_NO_PRECISION] (- 1) [0, 0, 0] [AI32 7, AStr 64 ''hi'']
       = Inr (alloc, pp', sizes')
     \<and> unat alloc = length (le_bytes 4 7 @ le_bytes 4 2 @ ''hi'')
     \<and> storeArguments 0 [kNON_STRING, kSTRING_WITH_NO_PRECISION] sizes' (\<lambda>_. NUL, 100) [AI32 7, AStr 64 ''hi'']
       = Inr (mem_write (\<lambda>_. NUL) 100 (le_bytes 4 7 @ le_bytes 4 2 @ ''hi''), 100 + unat alloc)"
proof -
  have im: "args_image 0 [kNON_STRING, kSTRING_WITH_NO_PRECISION] (- 1) [AI32 7, AStr 64 ''hi'']
      = le_bytes 4 7 @ le_bytes 4 2 @ ''hi''"
  proof -
    have "stored_length kSTRING_WITH_NO_PRECISION (- 1) ''hi'' = 2"
      by (simp add: stored_length_def)
    then show ?thesis by (simp add: param_order next_precision_def)
  qed
  show ?thesis
    unfolding im [symmetric] by (rule store_fills_reservation) simp_all
qed

text \<open>
  A string converted with \<open>%.*s\<close> is stored with at most as many characters as the precision
  argument says; a negative precision, which wraps to a huge unsigned value, truncates nothing.
\<close>

theorem dynamic_precision_truncates:
  assumes "length s < 2 ^ 32"
  shows "\<exists>alloc pp'. getArgSizes 0 [kDYNAMIC_PRECISION, kSTRING_WITH_DYNAMIC_PRECISION] pp [0, 0, 0]
      [AI32 w, AStr a s] = Inr (alloc, pp', [4, of_nat
        (if sint w < 0 then length s else min (length s) (nat (sint w))), 0])"
proof -
  let ?pp = "scast w :: 64 word"
  have range: "- (2 ^ 31) \<le> sint w" "sint w < 2 ^ 31"
    using sint_ge [of w] sint_lt [of w] by simp_all
  have "uint ?pp = sint w mod 2 ^ 64"
    unfolding scast_eq uint_word_of_int by simp
  moreover have "x mod 2 ^ 64 = (if x < 0 then x + 2 ^ 64 else x)"
    if "- (2 ^ 31) \<le> x" "x < 2 ^ 31" for x :: int
  proof (cases "x < 0")
    case True
    have "x mod 2 ^ 64 = (x + 2 ^ 64) mod 2 ^ 64" by simp
    also have "\<dots> = x + 2 ^ 64" using that True by (intro mod_pos_pos_trivial) simp_all
    finally show ?thesis using True by simp
  next
    case False
    then show ?thesis using that by simp
  qed
  ultimately have u: "int (unat ?pp) = (if sint w < 0 then sint w + 2 ^ 64 else sint w)"
    using range by (simp only: uint_nat)
  have "stored_length kSTRING_WITH_DYNAMIC_PRECISION ?pp s =
      (if sint w < 0 then length s else min (length s) (nat (sint w)))"
  proof (cases "sint w < 0")
    case True
    then have "2 ^ 32 \<le> int (unat ?pp)" using u range by simp
    moreover have "int (length s) < 2 ^ 32" using assms by simp
    ultimately have "length s < unat ?pp" by linarith
    with True show ?thesis by (simp add: stored_length_def)
  next
    case False
    then have "int (unat ?pp) = sint w" using u by (simp only: if_False)
    then have "unat ?pp = nat (sint w)" by linarith
    with False show ?thesis by (simp add: stored_length_def)
  qed
  with assms show ?thesis
    by (simp add: getArgSize_value_def getArgSize_string_eq param_order)
qed

theorem dynamic_precision_truncates_witness:
  "\<exists>alloc pp'. getArgSizes 0 [kDYNAMIC_PRECISION, kSTRING_WITH_DYNAMIC_PRECISION] 0 [0, 0, 0]
      [AI32 3, AStr 0 ''abcdef''] = Inr (alloc, pp', [4, 3, 0])"
  using dynamic_precision_truncates [of "''abcdef''" 0 3 0] by simp

text \<open>
  A static precision (\<open>%.10s\<close>) never truncates what is stored: whatever the precision \<open>n\<close> in the
  parameter type, the whole string is sized and stored. The comment in \<^verbatim>\<open>getArgSize\<close> says the
  opposite; the code compares the length with its own 32-bit truncation.
\<close>

theorem static_precision_not_applied:
  assumes "length s < 2 ^ 32"
  shows "getArgSize (kSTRING n) pp ss (AStr a s) = (of_nat (length s) + 4, pp, of_nat (length s))"
  using assms by (simp add: getArgSize_string_eq param_order stored_length_def)

theorem static_precision_not_applied_witness:
  "getArgSize (kSTRING 2) 0 0 (AStr 64 ''abcdef'') = (10, 0, 6)"
  using static_precision_not_applied [of "''abcdef''" 2 0 0 64] by simp

text \<open>
  A \<^verbatim>\<open>const char*\<close> converted with a non-string specifier (\<open>%p\<close>) is sized and stored as an
  eight-byte pointer, but its entry of the size array is left as it was (zero in the first call of
  the statement), so the array does not describe the record.
\<close>

theorem pointer_argument_size_not_recorded:
  "getArgSizes 0 [kNON_STRING] pp [0, 0] [AStr a s] = Inr (8, pp, [0, 0])
   \<and> storeArguments 0 [kNON_STRING] [0, 0] (m, p) [AStr a s]
       = Inr (mem_write m p (le_bytes 8 (unat a)), p + 8)"
  by (simp add: getArgSize_string_def storeArgument_string_def storeArgument_value_def)

text \<open>
  C31. A non-constant \<^verbatim>\<open>wchar_t*\<close> converted with \<open>%ls\<close> is sized as an eight-byte value but stored as a
  string, four bytes longer than its reservation.
\<close>

theorem wide_string_overruns_reservation:
  assumes "\<not> t \<le> kNON_STRING" "8 \<le> length c"
  shows "getArgSizes 0 [t] pp [0, 0] [AWStr a c] = Inr (8, pp, [8, 0])
    \<and> storeArguments 0 [t] [8, 0] (m, p) [AWStr a c]
        = Inr (mem_write m p (le_bytes 4 8 @ take 8 c), p + 12)"
proof -
  have "t \<noteq> kDYNAMIC_PRECISION" using assms(1) by (auto simp: param_order)
  with assms show ?thesis
    by (simp add: getArgSize_value_def storeArgument_string_def storeArgument_value_def Let_def
        min_def mem_write_append [of m p "le_bytes 4 8", simplified])
qed

theorem wide_string_overruns_reservation_witness:
  "getArgSizes 0 [kSTRING_WITH_NO_PRECISION] 0 [0, 0] [AWStr 64 (le_bytes 8 104)] = Inr (8, 0, [8, 0])
   \<and> storeArguments 0 [kSTRING_WITH_NO_PRECISION] [8, 0] (\<lambda>_. NUL, 0) [AWStr 64 (le_bytes 8 104)]
        = Inr (mem_write (\<lambda>_. NUL) 0 (le_bytes 4 8 @ take 8 (le_bytes 8 104)), 0 + 12)"
  by (rule wide_string_overruns_reservation) (simp_all add: param_order)

text \<open>
  The down cast of the record size passes its assertion exactly for sizes below \<open>2 ^ 32\<close>, and
  then keeps the value.
\<close>

theorem downCast_exact:
  "downCast w = (if unat w < 2 ^ 32 then Inr (word_of_nat (unat w)) else Inl Assertion_failed)"
  by (rule downCast_eq)

end
