(* ===== verification/LogEntry.thy ===== *)
theory LogEntry
  imports Prelude
begin

section \<open>The header of a log record\<close>

text \<open>
  \<^verbatim>\<open>struct LogEntry\<close> of \<^verbatim>\<open>src/src/static_log_internal.h\<close>, as it lies in the staging buffer: four
  eight-byte members at the offsets 0, 8, 16 and 24 (the layout of the platform's ABI, with 64-bit
  pointers). A record is framed when it starts with a header whose \<^verbatim>\<open>entry_size\<close> is its own length.
\<close>

record log_entry =
  timestamp :: nat
  entry_size :: nat
  static_info :: nat
  param_size :: nat

definition sizeof_LogEntry :: nat where
  "sizeof_LogEntry = 32"

definition entry_bytes :: "log_entry \<Rightarrow> byte list" where
  "entry_bytes e = le_bytes 8 (timestamp e) @ le_bytes 8 (entry_size e)
     @ le_bytes 8 (static_info e) @ le_bytes 8 (param_size e)"

text \<open>Reading the members through a \<^verbatim>\<open>LogEntry*\<close>.\<close>

definition entry_at :: "mem \<Rightarrow> nat \<Rightarrow> log_entry" where
  "entry_at m a =
     \<lparr>timestamp = le_nat (mem_read m a 8),
      entry_size = le_nat (mem_read m (a + 8) 8),
      static_info = le_nat (mem_read m (a + 16) 8),
      param_size = le_nat (mem_read m (a + 24) 8)\<rparr>"

definition framed :: "byte list \<Rightarrow> bool" where
  "framed r \<longleftrightarrow> sizeof_LogEntry \<le> length r \<and> le_nat (take 8 (drop 8 r)) = length r"

lemma length_entry_bytes [simp]: "length (entry_bytes e) = sizeof_LogEntry"
  by (simp add: entry_bytes_def sizeof_LogEntry_def)

lemma framed_not_Nil: "framed r \<Longrightarrow> r \<noteq> []"
  by (auto simp: framed_def sizeof_LogEntry_def)

lemma entry_size_of_framed:
  assumes "mem_read m a n = r @ rest" "framed r"
  shows "entry_size (entry_at m a) = length r" "mem_read m a (length r) = r"
proof -
  have n: "length r \<le> n" using arg_cong [OF assms(1), of length] by simp
  then show r: "mem_read m a (length r) = r"
    using arg_cong [OF assms(1), of "take (length r)"] by simp
  have "take 8 (drop 8 (mem_read m a (length r))) = mem_read m (a + 8) 8"
    using assms(2) by (auto simp: framed_def sizeof_LogEntry_def min_def)
  with r assms(2) show "entry_size (entry_at m a) = length r"
    by (simp add: entry_at_def framed_def)
qed

lemma entry_at_entry_bytes:
  assumes "mem_read m a sizeof_LogEntry = entry_bytes e"
    and "timestamp e < 2 ^ 64" "entry_size e < 2 ^ 64" "static_info e < 2 ^ 64" "param_size e < 2 ^ 64"
  shows "entry_at m a = e"
proof -
  have r: "mem_read m (a + k) 8 = take 8 (drop k (entry_bytes e))" if "k + 8 \<le> sizeof_LogEntry" for k
  proof -
    have "take 8 (drop k (mem_read m a sizeof_LogEntry)) = mem_read m (a + k) 8"
      using that by (auto simp: min_def)
    then show ?thesis using assms(1) by simp
  qed
  show ?thesis
    using r [of 0] r [of 8] r [of 16] r [of 24] assms(2-)
    by (simp add: entry_at_def entry_bytes_def sizeof_LogEntry_def)
qed

end
