(* ===== verification/StagingBuffer.thy ===== *)
theory StagingBuffer
  imports LogEntry
begin

section \<open>The staging buffer\<close>

text \<open>
  The class \<^verbatim>\<open>StagingBuffer\<close> of \<^verbatim>\<open>src/src/static_log_backend.h\<close> and its out-of-line members in
  \<^verbatim>\<open>src/src/static_log_backend.cc\<close>: a circular byte queue of one producer (the logging thread) and one
  consumer (the backend thread). Pointers into \<^verbatim>\<open>storage_\<close> are offsets, the pointer differences
  assigned to \<^verbatim>\<open>uint64_t\<close> members are \<open>sub64\<close>, and each operation is a function on the record of the
  members. This theory treats the operations one after the other; the interleaving of the two
  threads is the subject of \<open>SpscSteps\<close>.

  The contract is the locale \<open>record_fifo\<close>: the buffer holds a list of records, a push appends one or
  is refused, the consumer sees the oldest record whole and contiguous, and dropping it leaves the
  rest. The interpretation shows it for the code's operations, records being framed by their
  \<^verbatim>\<open>entry_size\<close> field.
\<close>

subsection \<open>State\<close>

definition kSTAGING_BUFFER_SIZE :: nat where
  "kSTAGING_BUFFER_SIZE = 1048576"

record staging_buffer =
  producer_pos :: nat
  end_of_recorded_space :: nat
  min_free_space :: nat
  cycles_producer_blocked :: nat
  num_times_producer_blocked :: nat
  num_allocations :: nat
  consumer_pos :: nat
  should_deallocate :: bool
  buffer_id :: nat
  storage :: mem

text \<open>The constructor; \<^verbatim>\<open>storage_()\<close> is zero-initialised.\<close>

definition new_StagingBuffer :: "nat \<Rightarrow> staging_buffer" where
  "new_StagingBuffer bufferId =
     \<lparr>producer_pos = 0,
      end_of_recorded_space = kSTAGING_BUFFER_SIZE,
      min_free_space = kSTAGING_BUFFER_SIZE,
      cycles_producer_blocked = 0,
      num_times_producer_blocked = 0,
      num_allocations = 0,
      consumer_pos = 0,
      should_deallocate = False,
      buffer_id = bufferId,
      storage = (\<lambda>_. NUL)\<rparr>"

text \<open>The destructor, which only sets the flag.\<close>

definition destroy_StagingBuffer :: "staging_buffer \<Rightarrow> staging_buffer" where
  "destroy_StagingBuffer b = b\<lparr>should_deallocate := True\<rparr>"

definition getId :: "staging_buffer \<Rightarrow> nat" where
  "getId b = buffer_id b"

definition checkCanDelete :: "staging_buffer \<Rightarrow> bool" where
  "checkCanDelete b \<longleftrightarrow> should_deallocate b \<and> consumer_pos b = producer_pos b"

subsection \<open>The producer's operations\<close>

text \<open>
  One iteration of the loop of \<^verbatim>\<open>reserveSpaceInternal\<close> on the value \<open>c\<close> it reads from
  \<^verbatim>\<open>consumer_pos_\<close>; the flag says that the iteration ended with \<^verbatim>\<open>break\<close>.
\<close>

definition reserve_iteration :: "nat \<Rightarrow> nat \<Rightarrow> staging_buffer \<Rightarrow> staging_buffer \<times> bool" where
  "reserve_iteration nbytes c b =
     (if c \<le> producer_pos b then
        let b1 = b\<lparr>min_free_space := sub64 kSTAGING_BUFFER_SIZE (producer_pos b)\<rparr>
        in if nbytes < min_free_space b1 then (b1, True)
           else
             let b2 = b1\<lparr>end_of_recorded_space := producer_pos b1\<rparr>
             in if c \<noteq> 0
                then (b2\<lparr>producer_pos := 0, min_free_space := sub64 c 0\<rparr>, False)
                else (b2, False)
      else (b\<lparr>min_free_space := sub64 c (producer_pos b)\<rparr>, False))"

text \<open>
  The result of a reservation: a pointer, the null pointer (only when not blocking), or still
  spinning after the reads of \<^verbatim>\<open>consumer_pos_\<close> given as the list \<open>cs\<close>.
\<close>

datatype reservation = Reserved nat | Null_pointer | Spinning

fun reserveSpaceInternal ::
  "nat \<Rightarrow> bool \<Rightarrow> nat list \<Rightarrow> staging_buffer \<Rightarrow> reservation \<times> staging_buffer" where
  "reserveSpaceInternal nbytes blocking [] b =
     (if min_free_space b \<le> nbytes then (Spinning, b) else (Reserved (producer_pos b), b))"
| "reserveSpaceInternal nbytes blocking (c # cs) b =
     (if min_free_space b \<le> nbytes then
        (case reserve_iteration nbytes c b of
           (b', True) \<Rightarrow> (Reserved (producer_pos b'), b')
         | (b', False) \<Rightarrow>
             if \<not> blocking \<and> min_free_space b' \<le> nbytes then (Null_pointer, b')
             else reserveSpaceInternal nbytes blocking cs b')
      else (Reserved (producer_pos b), b))"

definition reserveProducerSpace ::
  "nat \<Rightarrow> nat list \<Rightarrow> staging_buffer \<Rightarrow> reservation \<times> staging_buffer" where
  "reserveProducerSpace nbytes cs b =
     (let b = b\<lparr>num_allocations := (num_allocations b + 1) mod 2 ^ 64\<rparr>
      in if nbytes < min_free_space b then (Reserved (producer_pos b), b)
         else reserveSpaceInternal nbytes True cs b)"

datatype assertion = Min_free_space_assertion | End_of_storage_assertion

definition finishReservation :: "nat \<Rightarrow> staging_buffer \<Rightarrow> assertion + staging_buffer" where
  "finishReservation nbytes b =
     (if \<not> nbytes < min_free_space b then Inl Min_free_space_assertion
      else if \<not> producer_pos b + nbytes < kSTAGING_BUFFER_SIZE then Inl End_of_storage_assertion
      else Inr (b\<lparr>min_free_space := min_free_space b - nbytes,
                 producer_pos := producer_pos b + nbytes\<rparr>))"

subsection \<open>The consumer's operations\<close>

text \<open>The pointer and \<^verbatim>\<open>*bytes_available\<close>, and the state, where the position may have rolled over.\<close>

definition peek :: "staging_buffer \<Rightarrow> (nat \<times> nat) \<times> staging_buffer" where
  "peek b =
     (let cached_producer_pos = producer_pos b
      in if cached_producer_pos < consumer_pos b then
           let bytes_available = sub64 (end_of_recorded_space b) (consumer_pos b)
           in if 0 < bytes_available then ((consumer_pos b, bytes_available), b)
              else ((0, sub64 cached_producer_pos 0), b\<lparr>consumer_pos := 0\<rparr>)
         else ((consumer_pos b, sub64 cached_producer_pos (consumer_pos b)), b))"

definition consume :: "nat \<Rightarrow> staging_buffer \<Rightarrow> staging_buffer" where
  "consume nbytes b = b\<lparr>consumer_pos := consumer_pos b + nbytes\<rparr>"

subsection \<open>Invariant and abstraction\<close>

text \<open>
  \<open>min_free_space\<close> is a lower bound on the contiguous space in front of the producer: up to the end of
  the storage while the producer is not behind the consumer, up to the consumer after a wrap. After
  a wrap the recorded data ends at \<open>end_of_recorded_space\<close>, not before the consumer.
\<close>

definition sb_inv :: "staging_buffer \<Rightarrow> bool" where
  "sb_inv b \<longleftrightarrow>
     producer_pos b < kSTAGING_BUFFER_SIZE
     \<and> (if consumer_pos b \<le> producer_pos b
        then min_free_space b \<le> kSTAGING_BUFFER_SIZE - producer_pos b
        else min_free_space b \<le> consumer_pos b - producer_pos b
             \<and> consumer_pos b \<le> end_of_recorded_space b
             \<and> end_of_recorded_space b \<le> kSTAGING_BUFFER_SIZE)"

text \<open>The unconsumed bytes: those before a wrap, then those after it.\<close>

definition first_segment :: "staging_buffer \<Rightarrow> byte list" where
  "first_segment b =
     (if consumer_pos b \<le> producer_pos b
      then mem_read (storage b) (consumer_pos b) (producer_pos b - consumer_pos b)
      else mem_read (storage b) (consumer_pos b) (end_of_recorded_space b - consumer_pos b))"

definition second_segment :: "staging_buffer \<Rightarrow> byte list" where
  "second_segment b =
     (if consumer_pos b \<le> producer_pos b then [] else mem_read (storage b) 0 (producer_pos b))"

definition pending :: "staging_buffer \<Rightarrow> byte list" where
  "pending b = first_segment b @ second_segment b"

text \<open>The buffer holds a list of records: no record straddles the wrap.\<close>

definition sb_holds :: "staging_buffer \<Rightarrow> byte list list \<Rightarrow> bool" where
  "sb_holds b rs \<longleftrightarrow> sb_inv b \<and>
     (\<exists>rs1 rs2. rs = rs1 @ rs2 \<and> concat rs1 = first_segment b \<and> concat rs2 = second_segment b)"

lemmas segment_defs = first_segment_def second_segment_def

lemma kSTAGING_BUFFER_SIZE_pos [simp]: "0 < kSTAGING_BUFFER_SIZE"
  by (simp add: kSTAGING_BUFFER_SIZE_def)

lemma sb_holds_inv: "sb_holds b rs \<Longrightarrow> sb_inv b"
  by (simp add: sb_holds_def)

lemma sb_holds_pending: "sb_holds b rs \<Longrightarrow> concat rs = pending b"
  by (auto simp: sb_holds_def pending_def)

text \<open>A change that touches neither the segments nor the invariant keeps the records.\<close>

lemma sb_holds_cong:
  assumes "sb_holds b rs" "sb_inv b'" "first_segment b' = first_segment b"
    "second_segment b' = second_segment b"
  shows "sb_holds b' rs"
  using assms by (auto simp: sb_holds_def)

lemma new_StagingBuffer_holds: "sb_holds (new_StagingBuffer i) []"
  by (simp add: sb_holds_def sb_inv_def segment_defs new_StagingBuffer_def)

subsection \<open>Reservation\<close>

lemma reserve_iteration_frame [buffer_simps]:
  "reserve_iteration n c b = (b', brk) \<Longrightarrow>
     consumer_pos b' = consumer_pos b \<and> storage b' = storage b
     \<and> num_allocations b' = num_allocations b \<and> should_deallocate b' = should_deallocate b
     \<and> buffer_id b' = buffer_id b"
  by (auto simp: reserve_iteration_def Let_def split: if_splits)

lemma reserve_iteration_holds:
  assumes "sb_holds b rs" "reserve_iteration n (consumer_pos b) b = (b', brk)"
  shows "sb_holds b' rs \<and> (brk \<longrightarrow> n < min_free_space b')"
proof -
  have inv: "sb_inv b" using assms(1) by (rule sb_holds_inv)
  have "sb_inv b'" "first_segment b' = first_segment b" "second_segment b' = second_segment b"
    using inv assms(2)
    by (auto simp: reserve_iteration_def sb_inv_def segment_defs Let_def split: if_splits)
  with assms(1) have "sb_holds b' rs" by (rule sb_holds_cong)
  moreover have "brk \<longrightarrow> n < min_free_space b'"
    using assms(2) by (auto simp: reserve_iteration_def Let_def split: if_splits)
  ultimately show ?thesis by simp
qed

lemma reserveSpaceInternal_holds:
  assumes "sb_holds b rs" "\<forall>c \<in> set cs. c = consumer_pos b"
    "reserveSpaceInternal n blocking cs b = (r, b')"
  shows "sb_holds b' rs \<and> consumer_pos b' = consumer_pos b \<and> storage b' = storage b
    \<and> (\<forall>q. r = Reserved q \<longrightarrow> q = producer_pos b' \<and> n < min_free_space b')"
  using assms
proof (induction n blocking cs b rule: reserveSpaceInternal.induct)
  case (1 n blocking b)
  then show ?case by (auto split: if_splits)
next
  case (2 n blocking c cs b)
  show ?case
  proof (cases "min_free_space b \<le> n")
    case False
    with 2 show ?thesis by auto
  next
    case True
    obtain b1 brk where it: "reserve_iteration n c b = (b1, brk)" by fastforce
    have c: "c = consumer_pos b" using 2(3) by simp
    note h = reserve_iteration_holds [OF 2(2) it [unfolded c]]
      and f = reserve_iteration_frame [OF it]
    show ?thesis
    proof (cases "brk \<or> (\<not> blocking \<and> min_free_space b1 \<le> n)")
      case True
      with 2(4) \<open>min_free_space b \<le> n\<close> it h f show ?thesis by (auto split: if_splits)
    next
      case False
      with 2(4) \<open>min_free_space b \<le> n\<close> it
      have "reserveSpaceInternal n blocking cs b1 = (r, b')" by auto
      with 2(1) [OF \<open>min_free_space b \<le> n\<close> it [symmetric]] False h f 2(3) show ?thesis by auto
    qed
  qed
qed

lemma reserveProducerSpace_holds:
  assumes "sb_holds b rs" "\<forall>c \<in> set cs. c = consumer_pos b"
    "reserveProducerSpace n cs b = (r, b')"
  shows "sb_holds b' rs \<and> consumer_pos b' = consumer_pos b \<and> storage b' = storage b
    \<and> (\<forall>q. r = Reserved q \<longrightarrow> q = producer_pos b' \<and> n < min_free_space b')"
proof -
  let ?b = "b\<lparr>num_allocations := (num_allocations b + 1) mod 2 ^ 64\<rparr>"
  have h: "sb_holds ?b rs"
    using assms(1) by (rule sb_holds_cong)
      (use assms(1) in \<open>auto simp: sb_holds_def sb_inv_def segment_defs\<close>)
  show ?thesis
  proof (cases "n < min_free_space b")
    case True
    with assms(3) h show ?thesis by (auto simp: reserveProducerSpace_def)
  next
    case False
    with assms(3) have "reserveSpaceInternal n True cs ?b = (r, b')"
      by (simp add: reserveProducerSpace_def)
    with reserveSpaceInternal_holds [OF h _ this] assms(2) show ?thesis by simp
  qed
qed

subsection \<open>Writing into a reservation and committing it\<close>

text \<open>The producer's stores through the reserved pointer.\<close>

definition write_reserved :: "byte list \<Rightarrow> staging_buffer \<Rightarrow> staging_buffer" where
  "write_reserved r b = b\<lparr>storage := mem_write (storage b) (producer_pos b) r\<rparr>"

lemma write_reserved_holds:
  assumes "sb_holds b rs" "length r < min_free_space b"
  shows "sb_holds (write_reserved r b) rs"
  using assms(1)
proof (rule sb_holds_cong)
  show "sb_inv (write_reserved r b)"
    using sb_holds_inv [OF assms(1)] by (simp add: sb_inv_def write_reserved_def)
  show "first_segment (write_reserved r b) = first_segment b"
    "second_segment (write_reserved r b) = second_segment b"
    using sb_holds_inv [OF assms(1)] assms(2)
    by (auto simp: sb_inv_def segment_defs write_reserved_def mem_simps)
qed

lemma finishReservation_ok:
  assumes "sb_inv b" "n < min_free_space b"
  shows "finishReservation n b = Inr (b\<lparr>min_free_space := min_free_space b - n,
                                        producer_pos := producer_pos b + n\<rparr>)"
proof -
  have "\<exists>e \<le> kSTAGING_BUFFER_SIZE. min_free_space b \<le> e - producer_pos b"
    using assms(1) by (auto simp: sb_inv_def split: if_splits)
  with assms(2) have "producer_pos b + n < kSTAGING_BUFFER_SIZE" by auto
  with assms(2) show ?thesis by (simp add: finishReservation_def)
qed

lemma commit_holds:
  assumes "sb_holds b rs" "length r < min_free_space b"
  shows "\<exists>b'. finishReservation (length r) (write_reserved r b) = Inr b' \<and> sb_holds b' (rs @ [r])
    \<and> consumer_pos b' = consumer_pos b"
proof -
  let ?w = "write_reserved r b"
  let ?b = "?w\<lparr>min_free_space := min_free_space b - length r,
               producer_pos := producer_pos b + length r\<rparr>"
  have inv: "sb_inv b" using assms(1) by (rule sb_holds_inv)
  have w: "sb_holds ?w rs" using assms by (rule write_reserved_holds)
  have fin: "finishReservation (length r) ?w = Inr ?b"
    using finishReservation_ok [OF sb_holds_inv [OF w], of "length r"] assms(2)
    by (simp add: write_reserved_def)
  have inv': "sb_inv ?b"
    using inv assms(2) by (auto simp: sb_inv_def write_reserved_def split: if_splits)
  have "\<exists>rs1 rs2. rs @ [r] = rs1 @ rs2 \<and> concat rs1 = first_segment ?b \<and> concat rs2 = second_segment ?b"
  proof (cases "consumer_pos b \<le> producer_pos b")
    case True
    from w True obtain rs1 rs2 where rs: "rs = rs1 @ rs2" "concat rs1 = first_segment ?w"
      "concat rs2 = []" by (auto simp: sb_holds_def segment_defs write_reserved_def)
    have "mem_read (storage ?w) (consumer_pos b) (producer_pos b - consumer_pos b + length r)
        = first_segment ?w @ r"
      using True by (subst mem_read_append) (simp add: segment_defs write_reserved_def mem_simps)
    moreover have "first_segment ?b = mem_read (storage ?w) (consumer_pos b)
        (producer_pos b - consumer_pos b + length r)"
      using True by (simp add: segment_defs write_reserved_def)
    moreover have "concat (rs @ [r]) = first_segment ?w @ r" using rs by simp
    moreover have "second_segment ?b = []" using True by (simp add: segment_defs write_reserved_def)
    ultimately have "concat (rs @ [r]) = first_segment ?b" "second_segment ?b = []" by metis+
    then show ?thesis by (intro exI [of _ "rs @ [r]"] exI [of _ "[]"]) simp
  next
    case False
    from w obtain rs1 rs2 where rs: "rs = rs1 @ rs2" "concat rs1 = first_segment ?w"
      "concat rs2 = second_segment ?w" by (auto simp: sb_holds_def)
    have lt: "producer_pos b + length r < consumer_pos b"
      using inv False assms(2) by (auto simp: sb_inv_def)
    have "mem_read (storage ?w) 0 (producer_pos b + length r) = second_segment ?w @ r"
      using False by (subst mem_read_append) (simp add: segment_defs write_reserved_def mem_simps)
    with lt False rs have "concat rs1 = first_segment ?b" "concat (rs2 @ [r]) = second_segment ?b"
      by (simp_all add: segment_defs write_reserved_def)
    with rs(1) show ?thesis by (intro exI [of _ rs1] exI [of _ "rs2 @ [r]"]) simp
  qed
  with inv' have "sb_holds ?b (rs @ [r])" unfolding sb_holds_def by blast
  moreover have "consumer_pos ?b = consumer_pos b" by (simp add: write_reserved_def)
  ultimately show ?thesis using fin by blast
qed

subsection \<open>Peeking and consuming\<close>

lemma peek_frame [buffer_simps]:
  "peek b = (pa, b') \<Longrightarrow> producer_pos b' = producer_pos b \<and> storage b' = storage b
     \<and> min_free_space b' = min_free_space b \<and> end_of_recorded_space b' = end_of_recorded_space b
     \<and> should_deallocate b' = should_deallocate b \<and> buffer_id b' = buffer_id b"
  by (auto simp: peek_def Let_def split: if_splits)

text \<open>
  What a peek returns is the first segment of the state it leaves (after a roll-over, the former
  second one), and it is empty only if nothing is pending.
\<close>

lemma peek_holds:
  assumes "sb_holds b rs" "peek b = ((pos, avail), b')"
  shows "sb_holds b' rs" "pos = consumer_pos b'" "mem_read (storage b') pos avail = first_segment b'"
    "avail = 0 \<longleftrightarrow> pending b' = []" "avail = length (first_segment b')"
proof -
  have inv: "sb_inv b" using assms(1) by (rule sb_holds_inv)
  consider (straight) "consumer_pos b \<le> producer_pos b"
    | (wrapped) "producer_pos b < consumer_pos b" "consumer_pos b < end_of_recorded_space b"
    | (roll) "producer_pos b < consumer_pos b" "consumer_pos b = end_of_recorded_space b"
    using inv by (force simp: sb_inv_def)
  then have "sb_holds b' rs \<and> pos = consumer_pos b' \<and> mem_read (storage b') pos avail = first_segment b'
    \<and> (avail = 0 \<longleftrightarrow> pending b' = []) \<and> avail = length (first_segment b')"
  proof cases
    case straight
    with assms show ?thesis by (auto simp: peek_def segment_defs pending_def)
  next
    case wrapped
    with assms show ?thesis by (auto simp: peek_def Let_def segment_defs pending_def)
  next
    case roll
    with assms(2) have b': "b' = b\<lparr>consumer_pos := 0\<rparr>" "pos = 0" "avail = producer_pos b"
      by (auto simp: peek_def Let_def)
    from assms(1) roll obtain rs1 rs2 where "rs = rs1 @ rs2" "concat rs1 = []"
      "concat rs2 = mem_read (storage b) 0 (producer_pos b)"
      by (auto simp: sb_holds_def segment_defs)
    then have "concat rs = mem_read (storage b) 0 (producer_pos b)" by simp
    moreover have "sb_inv b'"
      using inv roll b' by (auto simp: sb_inv_def)
    ultimately have "sb_holds b' rs"
      unfolding sb_holds_def
      by (intro conjI exI [of _ rs] exI [of _ "[]"]) (simp_all add: segment_defs b')
    with b' show ?thesis by (simp add: segment_defs pending_def)
  qed
  then show "sb_holds b' rs" "pos = consumer_pos b'"
    "mem_read (storage b') pos avail = first_segment b'"
    "avail = 0 \<longleftrightarrow> pending b' = []" "avail = length (first_segment b')" by blast+
qed

text \<open>The oldest record lies whole at the front of the first segment, once that is not empty.\<close>

lemma front_record:
  assumes "sb_holds b (r # rs)" "r \<noteq> []" "first_segment b \<noteq> []"
  obtains rs1 rs2 where "rs = rs1 @ rs2" "first_segment b = r @ concat rs1"
    "concat rs2 = second_segment b"
proof -
  from assms(1) obtain rs1 rs2 where rs: "r # rs = rs1 @ rs2" "concat rs1 = first_segment b"
    "concat rs2 = second_segment b" by (auto simp: sb_holds_def)
  with assms(3) obtain x xs where "rs1 = x # xs" by (cases rs1) auto
  with rs that show ?thesis by auto
qed

lemma consume_holds:
  assumes "sb_holds b (r # rs)" "r \<noteq> []" "first_segment b \<noteq> []"
  shows "sb_holds (consume (length r) b) rs"
proof -
  have inv: "sb_inv b" using assms(1) by (rule sb_holds_inv)
  obtain rs1 rs2 where rs: "rs = rs1 @ rs2" "first_segment b = r @ concat rs1"
    "concat rs2 = second_segment b" using assms by (rule front_record)
  have len: "length r \<le> length (first_segment b)" using rs(2) by simp
  have inv': "sb_inv (consume (length r) b)"
    using inv len by (auto simp: sb_inv_def consume_def segment_defs split: if_splits)
  have "first_segment (consume (length r) b) = drop (length r) (first_segment b)"
    "second_segment (consume (length r) b) = second_segment b"
    using inv len by (auto simp: sb_inv_def consume_def segment_defs split: if_splits)
  with inv' rs show ?thesis by (auto simp: sb_holds_def)
qed

subsection \<open>The contract of a record queue\<close>

text \<open>
  What the two sides of the library rely on. \<open>holds\<close> relates a state to the records in it, oldest
  first; \<open>push\<close> says whether the record was accepted; \<open>front\<close> is the consumer's view, which may change
  the representation; \<open>drop_front\<close> releases the record of the last view.
\<close>

locale record_fifo =
  fixes init :: "'b"
    and holds :: "'b \<Rightarrow> 'r list \<Rightarrow> bool"
    and valid :: "'r \<Rightarrow> bool"
    and push :: "'r \<Rightarrow> 'b \<Rightarrow> bool \<times> 'b"
    and front :: "'b \<Rightarrow> 'r option \<times> 'b"
    and drop_front :: "'r \<Rightarrow> 'b \<Rightarrow> 'b"
  assumes init_holds: "holds init []"
    and push_holds: "holds b rs \<Longrightarrow> valid r \<Longrightarrow> push r b = (ok, b') \<Longrightarrow>
      holds b' (if ok then rs @ [r] else rs)"
    and front_holds: "holds b rs \<Longrightarrow> front b = (x, b') \<Longrightarrow>
      holds b' rs \<and> x = (case rs of [] \<Rightarrow> None | r # _ \<Rightarrow> Some r)"
    and drop_front_holds: "holds b (r # rs) \<Longrightarrow> front b = (Some r, b') \<Longrightarrow>
      holds (drop_front r b') rs"

text \<open>A history of the queue: pushes, and takes of the front record when there is one.\<close>

datatype 'r queue_op = Push 'r | Take

text \<open>The run: the accepted and the delivered records, and the final state.\<close>

fun queue_run ::
  "('r \<Rightarrow> 'b \<Rightarrow> bool \<times> 'b) \<Rightarrow> ('b \<Rightarrow> 'r option \<times> 'b) \<Rightarrow> ('r \<Rightarrow> 'b \<Rightarrow> 'b)
     \<Rightarrow> 'r queue_op list \<Rightarrow> 'b \<Rightarrow> 'r list \<times> 'r list \<times> 'b" where
  "queue_run push front drop_front [] b = ([], [], b)"
| "queue_run push front drop_front (Push r # ops) b =
     (case push r b of (ok, b') \<Rightarrow>
      case queue_run push front drop_front ops b' of (acc, del, b'') \<Rightarrow>
        (if ok then r # acc else acc, del, b''))"
| "queue_run push front drop_front (Take # ops) b =
     (case front b of (x, b') \<Rightarrow>
      case queue_run push front drop_front ops
             (case x of None \<Rightarrow> b' | Some r \<Rightarrow> drop_front r b') of (acc, del, b'') \<Rightarrow>
        (acc, (case x of None \<Rightarrow> del | Some r \<Rightarrow> r # del), b''))"

context record_fifo
begin

text \<open>Nothing is lost, duplicated, reordered or changed.\<close>

lemma run_fifo:
  assumes "holds b rs" "\<forall>r. Push r \<in> set ops \<longrightarrow> valid r"
    "queue_run push front drop_front ops b = (acc, del, b')"
  shows "\<exists>rest. rs @ acc = del @ rest \<and> holds b' rest"
  using assms
proof (induction ops arbitrary: b rs acc del b')
  case Nil
  then show ?case by simp
next
  case (Cons op ops)
  show ?case
  proof (cases op)
    case (Push r)
    obtain ok b1 where p: "push r b = (ok, b1)" by fastforce
    obtain acc1 del1 b2 where q: "queue_run push front drop_front ops b1 = (acc1, del1, b2)"
      by (metis prod_cases3)
    have "holds b1 (if ok then rs @ [r] else rs)"
      using Cons.prems Push p by (intro push_holds) auto
    from Cons.IH [OF this _ q] Cons.prems Push p q show ?thesis by (auto split: if_splits)
  next
    case Take
    obtain x b1 where f: "front b = (x, b1)" by fastforce
    note h = front_holds [OF Cons.prems(1) f]
    show ?thesis
    proof (cases rs)
      case Nil
      obtain acc1 del1 b2 where q: "queue_run push front drop_front ops b1 = (acc1, del1, b2)"
        by (metis prod_cases3)
      from h have "holds b1 rs" by simp
      from Cons.IH [OF this _ q] Cons.prems Take f q h Nil show ?thesis by auto
    next
      case (Cons r rs')
      with h have x: "x = Some r" by simp
      then have d: "holds (drop_front r b1) rs'"
        using Cons.prems(1) f Cons by (auto intro: drop_front_holds)
      obtain acc1 del1 b2 where
        q: "queue_run push front drop_front ops (drop_front r b1) = (acc1, del1, b2)"
        by (metis prod_cases3)
      from Cons.IH [OF d _ q] Cons.prems Take f q x \<open>rs = r # rs'\<close> show ?thesis by auto
    qed
  qed
qed

end

subsection \<open>The staging buffer meets the contract\<close>

text \<open>
  One attempt of the producer, with a single read of the consumer's position if the fast path fails;
  a record that does not fit then is the case where the code goes on spinning. An assertion failure
  (which does not occur) also counts as refused.
\<close>

definition push_record :: "byte list \<Rightarrow> staging_buffer \<Rightarrow> bool \<times> staging_buffer" where
  "push_record r b =
     (case reserveProducerSpace (length r) [consumer_pos b] b of
        (Reserved q, b') \<Rightarrow>
          (case finishReservation (length r) (write_reserved r b') of
             Inr b'' \<Rightarrow> (True, b'')
           | Inl e \<Rightarrow> (False, b'))
      | (_, b') \<Rightarrow> (False, b'))"

text \<open>The consumer's view: \<^verbatim>\<open>peek\<close>, then the record at the pointer as long as its header says.\<close>

definition front_record_of :: "staging_buffer \<Rightarrow> byte list option \<times> staging_buffer" where
  "front_record_of b =
     (case peek b of ((pos, bytes_available), b') \<Rightarrow>
        (if 0 < bytes_available
         then Some (mem_read (storage b') pos (entry_size (entry_at (storage b') pos)))
         else None, b'))"

definition drop_record :: "byte list \<Rightarrow> staging_buffer \<Rightarrow> staging_buffer" where
  "drop_record r b = consume (entry_size (entry_at (storage b) (consumer_pos b))) b"

definition sb_records :: "staging_buffer \<Rightarrow> byte list list \<Rightarrow> bool" where
  "sb_records b rs \<longleftrightarrow> sb_holds b rs \<and> (\<forall>r \<in> set rs. framed r)"

text \<open>Changes of the representation that keep the records.\<close>

lemma sb_records_cong:
  assumes "sb_records b rs" "sb_inv b'" "first_segment b' = first_segment b"
    "second_segment b' = second_segment b"
  shows "sb_records b' rs"
  using assms sb_holds_cong by (auto simp: sb_records_def)

lemma sb_records_inv: "sb_records b rs \<Longrightarrow> sb_inv b"
  by (simp add: sb_records_def sb_holds_def)

lemma push_record_records:
  assumes "sb_records b rs" "framed r" "push_record r b = (ok, b')"
  shows "sb_records b' (if ok then rs @ [r] else rs)"
proof -
  obtain res b1 where res: "reserveProducerSpace (length r) [consumer_pos b] b = (res, b1)"
    by fastforce
  have h: "sb_holds b1 rs" "\<forall>q. res = Reserved q \<longrightarrow> length r < min_free_space b1"
    using reserveProducerSpace_holds [OF _ _ res, of rs] assms(1) by (auto simp: sb_records_def)
  show ?thesis
  proof (cases "\<exists>q. res = Reserved q")
    case True
    then obtain b2 where "finishReservation (length r) (write_reserved r b1) = Inr b2"
      "sb_holds b2 (rs @ [r])" using commit_holds [OF h(1), of r] h(2) by auto
    with True assms res show ?thesis by (auto simp: push_record_def sb_records_def)
  next
    case False
    with assms res h(1) show ?thesis
      by (cases res) (auto simp: push_record_def sb_records_def)
  qed
qed

lemma front_record_of_records:
  assumes "sb_records b rs" "front_record_of b = (x, b')"
  shows "sb_records b' rs \<and> x = (case rs of [] \<Rightarrow> None | r # _ \<Rightarrow> Some r)
    \<and> (rs \<noteq> [] \<longrightarrow> first_segment b' \<noteq> [] \<and>
         entry_size (entry_at (storage b') (consumer_pos b')) = length (hd rs))"
proof -
  obtain pos avail where pk: "peek b = ((pos, avail), b')" "x = (if 0 < avail
       then Some (mem_read (storage b') pos (entry_size (entry_at (storage b') pos))) else None)"
    using assms(2) by (auto simp: front_record_of_def split: prod.splits)
  have hb: "sb_holds b rs" and fr: "\<forall>r \<in> set rs. framed r" using assms(1) by (auto simp: sb_records_def)
  note h = peek_holds [OF hb pk(1)]
  show ?thesis
  proof (cases rs)
    case Nil
    with h(1,4) pk(2) fr show ?thesis
      using sb_holds_pending [OF h(1)] by (simp add: sb_records_def)
  next
    case (Cons r rs')
    have r: "framed r" "r \<noteq> []" using fr Cons framed_not_Nil by auto
    then have av: "0 < avail" using sb_holds_pending [OF h(1)] h(4) Cons by auto
    then have ne: "first_segment b' \<noteq> []" using h(5) by auto
    then obtain rs1 where "first_segment b' = r @ concat rs1"
      using front_record [of b' r rs'] h(1) Cons r(2) by metis
    with h(3) have "mem_read (storage b') pos avail = r @ concat rs1" by simp
    from entry_size_of_framed [OF this r(1)] Cons av ne pk(2) h(1,2) fr show ?thesis
      by (simp add: sb_records_def)
  qed
qed

interpretation sbq: record_fifo "new_StagingBuffer i" sb_records framed push_record
  front_record_of drop_record for i
proof
  show "sb_records (new_StagingBuffer i) []"
    using new_StagingBuffer_holds by (simp add: sb_records_def)
  show "\<And>b rs r ok b'. sb_records b rs \<Longrightarrow> framed r \<Longrightarrow> push_record r b = (ok, b') \<Longrightarrow>
      sb_records b' (if ok then rs @ [r] else rs)"
    by (rule push_record_records)
  show "\<And>b rs x b'. sb_records b rs \<Longrightarrow> front_record_of b = (x, b') \<Longrightarrow>
      sb_records b' rs \<and> x = (case rs of [] \<Rightarrow> None | r # _ \<Rightarrow> Some r)"
    using front_record_of_records by blast
  fix b r rs b'
  assume b: "sb_records b (r # rs)" "front_record_of b = (Some r, b')"
  have r: "framed r" using b(1) by (simp add: sb_records_def)
  have "sb_holds (consume (length r) b') rs"
    using front_record_of_records [OF b] framed_not_Nil [OF r]
    by (intro consume_holds) (auto simp: sb_records_def)
  with front_record_of_records [OF b] b(1) show "sb_records (drop_record r b') rs"
    by (simp add: sb_records_def drop_record_def)
qed

subsection \<open>Progress and its limit\<close>

lemma sb_inv_peek: "sb_inv b \<Longrightarrow> sb_inv (snd (peek b))"
  by (auto simp: sb_inv_def peek_def Let_def)

lemma pending_peek: "sb_inv b \<Longrightarrow> pending b = [] \<Longrightarrow> pending (snd (peek b)) = []"
  by (auto simp: sb_inv_def peek_def Let_def pending_def segment_defs split: if_splits)

text \<open>After a peek of an empty buffer the two positions agree.\<close>

lemma peek_empty_positions:
  "sb_inv b \<Longrightarrow> pending b = [] \<Longrightarrow>
     consumer_pos (snd (peek b)) = producer_pos (snd (peek b))"
  by (auto simp: sb_inv_def peek_def Let_def pending_def segment_defs split: if_splits)

lemma reserve_drained:
  assumes "sb_inv b" "consumer_pos b = producer_pos b" "n < kSTAGING_BUFFER_SIZE"
    "reserveProducerSpace n [consumer_pos b] b = (r, b')"
  shows "(\<exists>q. r = Reserved q) \<or>
    r = Spinning \<and> producer_pos b' = 0 \<and> sb_inv b' \<and> pending b' = []
      \<and> end_of_recorded_space b' = consumer_pos b' \<and> 0 < consumer_pos b'"
  using assms
  by (auto simp: reserveProducerSpace_def reserve_iteration_def Let_def sb_inv_def pending_def
      segment_defs split: if_splits)

lemma reserve_at_start:
  assumes "consumer_pos b = 0" "producer_pos b = 0" "n < kSTAGING_BUFFER_SIZE"
  shows "\<exists>q b'. reserveSpaceInternal n True [consumer_pos b] b = (Reserved q, b')"
  using assms by (auto simp: reserve_iteration_def Let_def)

lemma reserve_iteration_bounds:
  assumes "producer_pos b \<le> kSTAGING_BUFFER_SIZE" "c \<le> kSTAGING_BUFFER_SIZE"
    "reserve_iteration n c b = (b', brk)"
  shows "producer_pos b' \<le> kSTAGING_BUFFER_SIZE" "min_free_space b' \<le> kSTAGING_BUFFER_SIZE"
    "brk \<Longrightarrow> n < min_free_space b'"
  using assms by (auto simp: reserve_iteration_def Let_def split: if_splits)

lemma reserveSpaceInternal_oversize:
  assumes "kSTAGING_BUFFER_SIZE \<le> n" "producer_pos b \<le> kSTAGING_BUFFER_SIZE"
    "min_free_space b \<le> kSTAGING_BUFFER_SIZE" "\<forall>c \<in> set cs. c \<le> kSTAGING_BUFFER_SIZE"
  shows "fst (reserveSpaceInternal n True cs b) = Spinning"
  using assms(2-)
proof (induction cs arbitrary: b)
  case Nil
  with assms(1) show ?case by simp
next
  case (Cons c cs)
  obtain b1 brk where it: "reserve_iteration n c b = (b1, brk)" by fastforce
  have c: "c \<le> kSTAGING_BUFFER_SIZE" using Cons.prems(3) by simp
  note bd = reserve_iteration_bounds [OF Cons.prems(1) c it]
  have "\<not> brk" using bd(2,3) assms(1) by auto
  with Cons.IH [OF bd(1,2)] Cons.prems assms(1) it show ?case by simp
qed

subsection \<open>Properties\<close>

text \<open>
  C16. The staging buffer is a first-in first-out queue of records: in every history of pushes of
  framed records and takes, starting from a new buffer, the accepted records are the delivered ones
  followed by those the buffer still holds, each byte for byte as it was pushed.
\<close>

theorem staging_buffer_fifo:
  assumes "\<forall>r. Push r \<in> set ops \<longrightarrow> framed r"
    and "queue_run push_record front_record_of drop_record ops (new_StagingBuffer i) = (acc, del, b)"
  shows "\<exists>rest. acc = del @ rest \<and> sb_records b rest"
  using sbq.run_fifo [OF sbq.init_holds [of i] assms] by simp

theorem staging_buffer_fifo_witness:
  "let r = le_bytes 8 0 @ le_bytes 8 32 @ le_bytes 16 0;
       (acc, del, b) = queue_run push_record front_record_of drop_record [Push r, Push r, Take]
          (new_StagingBuffer 0)
   in \<exists>rest. acc = del @ rest \<and> sb_records b rest"
proof -
  let ?r = "le_bytes 8 0 @ le_bytes 8 32 @ le_bytes 16 0"
  have f: "framed ?r" by (simp add: framed_def sizeof_LogEntry_def)
  obtain acc del b where q: "queue_run push_record front_record_of drop_record [Push ?r, Push ?r, Take]
      (new_StagingBuffer 0) = (acc, del, b)" by (metis prod_cases3)
  have "\<exists>rest. acc = del @ rest \<and> sb_records b rest"
    by (rule staging_buffer_fifo [OF _ q]) (use f in auto)
  with q show ?thesis by (simp add: Let_def)
qed

text \<open>
  A reservation is contiguous, inside the storage and apart from all unconsumed data: when
  \<^verbatim>\<open>reserveProducerSpace\<close> returns a pointer for \<open>n\<close> bytes, writing a record of that length there keeps
  the pending bytes, and \<^verbatim>\<open>finishReservation\<close> passes both its assertions and appends exactly the record.
\<close>

theorem reservation_safe:
  assumes "sb_holds b rs" "\<forall>c \<in> set cs. c = consumer_pos b"
    and "reserveProducerSpace (length r) cs b = (Reserved q, b1)"
  shows "q + length r < kSTAGING_BUFFER_SIZE \<and> pending (write_reserved r b1) = pending b
    \<and> (\<exists>b2. finishReservation (length r) (write_reserved r b1) = Inr b2
          \<and> pending b2 = pending b @ r)"
proof -
  from reserveProducerSpace_holds [OF assms] have h: "sb_holds b1 rs" "q = producer_pos b1"
    "length r < min_free_space b1" by auto
  obtain b2 where b2: "finishReservation (length r) (write_reserved r b1) = Inr b2"
    "sb_holds b2 (rs @ [r])" using commit_holds [OF h(1,3)] by auto
  have "q + length r < kSTAGING_BUFFER_SIZE"
    using b2(1) h(2) by (auto simp: finishReservation_def write_reserved_def split: if_splits)
  moreover have "pending (write_reserved r b1) = pending b" "pending b2 = pending b @ r"
    using sb_holds_pending [OF write_reserved_holds [OF h(1,3)]] sb_holds_pending [OF assms(1)]
      sb_holds_pending [OF b2(2)] by simp_all
  ultimately show ?thesis using b2(1) by blast
qed

theorem reservation_safe_witness:
  "let b1 = snd (reserveProducerSpace (length ''log'') [0] (new_StagingBuffer 7))
   in 0 + length ''log'' < kSTAGING_BUFFER_SIZE
      \<and> pending (write_reserved ''log'' b1) = pending (new_StagingBuffer 7)
      \<and> (\<exists>b2. finishReservation (length ''log'') (write_reserved ''log'' b1) = Inr b2
            \<and> pending b2 = pending (new_StagingBuffer 7) @ ''log'')"
proof -
  have res: "reserveProducerSpace (length ''log'') [0] (new_StagingBuffer 7) =
      (Reserved 0, snd (reserveProducerSpace (length ''log'') [0] (new_StagingBuffer 7)))"
    by (simp add: reserveProducerSpace_def new_StagingBuffer_def kSTAGING_BUFFER_SIZE_def)
  have "\<forall>c \<in> set [0]. c = consumer_pos (new_StagingBuffer 7)"
    by (simp add: new_StagingBuffer_def)
  from reservation_safe [OF new_StagingBuffer_holds this res] show ?thesis
    unfolding Let_def .
qed

text \<open>
  A producer that waits on a drained buffer is served: for any request below the buffer's size,
  once the consumer has peeked at the empty buffer, either the reservation succeeds at once, or it
  wraps and succeeds after the consumer's next peek.
\<close>

theorem drained_reservation_succeeds:
  assumes "sb_inv b" "pending b = []" "n < kSTAGING_BUFFER_SIZE"
    and "b1 = snd (peek b)" "reserveProducerSpace n [consumer_pos b1] b1 = (r, b2)"
  shows "(\<exists>q. r = Reserved q) \<or>
    (\<exists>q b4. reserveSpaceInternal n True [consumer_pos (snd (peek b2))] (snd (peek b2)) = (Reserved q, b4))"
proof -
  have "sb_inv b1" "consumer_pos b1 = producer_pos b1"
    using assms sb_inv_peek peek_empty_positions by auto
  from reserve_drained [OF this assms(3,5)] show ?thesis
  proof (elim disjE)
    assume "r = Spinning \<and> producer_pos b2 = 0 \<and> sb_inv b2 \<and> pending b2 = []
      \<and> end_of_recorded_space b2 = consumer_pos b2 \<and> 0 < consumer_pos b2"
    then have "consumer_pos (snd (peek b2)) = 0" "producer_pos (snd (peek b2)) = 0"
      by (simp_all add: peek_def)
    from reserve_at_start [OF this assms(3)] show ?thesis by blast
  qed blast
qed

theorem drained_reservation_succeeds_witness:
  "let b = new_StagingBuffer 0; b1 = snd (peek b);
       (r, b2) = reserveProducerSpace 100 [consumer_pos b1] b1
   in (\<exists>q. r = Reserved q) \<or>
      (\<exists>q b4. reserveSpaceInternal 100 True [consumer_pos (snd (peek b2))] (snd (peek b2)) = (Reserved q, b4))"
proof -
  let ?b = "new_StagingBuffer 0"
  have "sb_inv ?b" "pending ?b = []" "100 < kSTAGING_BUFFER_SIZE"
    using sb_holds_inv [OF new_StagingBuffer_holds] sb_holds_pending [OF new_StagingBuffer_holds]
    by (simp_all add: kSTAGING_BUFFER_SIZE_def)
  note d = drained_reservation_succeeds [OF this refl]
  show ?thesis
    unfolding Let_def by (split prod.split) (intro allI impI, erule d)
qed

text \<open>
  A request of at least the buffer's size is never granted: whatever positions the consumer
  goes through, the blocking reservation is still spinning after any number of reads.
\<close>

theorem oversized_reservation_spins:
  assumes "kSTAGING_BUFFER_SIZE \<le> n" "sb_inv b" "\<forall>c \<in> set cs. c \<le> kSTAGING_BUFFER_SIZE"
  shows "fst (reserveProducerSpace n cs b) = Spinning"
proof -
  have "producer_pos b \<le> kSTAGING_BUFFER_SIZE" "min_free_space b \<le> kSTAGING_BUFFER_SIZE"
    using assms(2) by (auto simp: sb_inv_def split: if_splits)
  with assms(1,3) show ?thesis
    by (simp add: reserveProducerSpace_def reserveSpaceInternal_oversize)
qed

theorem oversized_reservation_spins_witness:
  "fst (reserveProducerSpace 1048576 [0, 0] (new_StagingBuffer 0)) = Spinning"
  by (rule oversized_reservation_spins)
     (use sb_holds_inv [OF new_StagingBuffer_holds] in \<open>simp_all add: kSTAGING_BUFFER_SIZE_def\<close>)

lemma empty_positions:
  assumes "sb_records b []"
  shows "consumer_pos (snd (peek b)) = producer_pos (snd (peek b))"
proof -
  have h: "sb_holds b []" using assms by (simp add: sb_records_def)
  then have "pending b = []" using sb_holds_pending by fastforce
  then show ?thesis by (intro peek_empty_positions sb_holds_inv [OF h])
qed

text \<open>A peek makes the buffer of an ended thread deletable if it is empty.\<close>

lemma ended_empty_peek:
  assumes "sb_records b []" "should_deallocate b"
  shows "checkCanDelete (snd (peek b))"
proof -
  have "should_deallocate (snd (peek b)) = should_deallocate b"
    by (metis peek_frame prod.collapse)
  with empty_positions [OF assms(1)] assms(2) show ?thesis by (simp add: checkCanDelete_def)
qed

text \<open>
  The backend deletes a buffer without losing a record: \<^verbatim>\<open>checkCanDelete\<close> holds only of a buffer
  whose thread has ended and that holds no record, and a buffer of an ended thread that holds none
  becomes deletable with the backend's next peek at the latest.
\<close>

theorem checkCanDelete_exact:
  assumes "sb_records b rs"
  shows "(checkCanDelete b \<longrightarrow> should_deallocate b \<and> rs = [])
    \<and> (should_deallocate b \<and> rs = [] \<longrightarrow> checkCanDelete (snd (peek b)))"
proof -
  have h: "sb_holds b rs" "\<forall>r \<in> set rs. r \<noteq> []"
    using assms framed_not_Nil by (auto simp: sb_records_def)
  note c = sb_holds_pending [OF h(1)]
  have "rs = []" if "consumer_pos b = producer_pos b"
    using c h(2) that by (cases rs) (simp_all add: pending_def segment_defs)
  then show ?thesis using ended_empty_peek assms by (auto simp: checkCanDelete_def)
qed

theorem checkCanDelete_exact_witness:
  "let b = destroy_StagingBuffer (new_StagingBuffer 3)
   in (checkCanDelete b \<longrightarrow> should_deallocate b \<and> [] = ([] :: byte list list))
      \<and> (should_deallocate b \<and> [] = ([] :: byte list list) \<longrightarrow> checkCanDelete (snd (peek b)))"
proof -
  have "sb_records (destroy_StagingBuffer (new_StagingBuffer 3)) []"
    by (simp add: sb_records_def sb_holds_def sb_inv_def segment_defs destroy_StagingBuffer_def
        new_StagingBuffer_def)
  from checkCanDelete_exact [OF this] show ?thesis unfolding Let_def .
qed

end
