(* ===== verification/SpscSteps.thy ===== *)
theory SpscSteps
  imports StagingBuffer
begin

section \<open>The producer and the consumer interleaved\<close>

text \<open>
  The staging buffer is shared without a lock between the logging thread and the backend thread. Here
  the two run as state machines whose steps are the single accesses to the shared members
  (\<^verbatim>\<open>producer_pos_\<close>, \<^verbatim>\<open>consumer_pos_\<close>, \<^verbatim>\<open>end_of_recorded_space_\<close> and each byte of \<^verbatim>\<open>storage_\<close>), in every
  interleaving, under sequentially consistent memory (the code uses plain and \<^verbatim>\<open>volatile\<close> members and
  relies on the machine's ordering). \<^verbatim>\<open>min_free_space_\<close> is private to the producer. The two ghost
  components collect the records committed and those consumed.
\<close>

subsection \<open>Program counters and the step relations\<close>

text \<open>Where the producer is, with the record it logs and the local variables of \<^verbatim>\<open>reserveSpaceInternal\<close>.\<close>

datatype producer_pc =
    P_idle
  | P_loop "byte list" \<comment> \<open>before the test of the \<^verbatim>\<open>while\<close>\<close>
  | P_read "byte list" nat \<comment> \<open>\<^verbatim>\<open>cached_consumer_pos\<close> has been read\<close>
  | P_wrap "byte list" nat \<comment> \<open>\<^verbatim>\<open>end_of_recorded_space_\<close> has been written\<close>
  | P_write "byte list" nat \<comment> \<open>reserved, and that many bytes written\<close>

text \<open>Where the consumer is, with the locals of \<^verbatim>\<open>peek\<close> and the available bytes.\<close>

datatype consumer_pc =
    C_idle
  | C_cached nat \<comment> \<open>\<^verbatim>\<open>cached_producer_pos\<close> has been read\<close>
  | C_roll nat \<comment> \<open>nothing left before the wrap, about to write \<^verbatim>\<open>consumer_pos_\<close>\<close>
  | C_run nat \<comment> \<open>\<^verbatim>\<open>peek\<close> has returned that many bytes\<close>

record spsc =
  buf :: staging_buffer
  ppc :: producer_pc
  cpc :: consumer_pc
  logged :: "byte list list"
  delivered :: "byte list list"

definition spsc_init :: "nat \<Rightarrow> spsc" where
  "spsc_init i = \<lparr>buf = new_StagingBuffer i, ppc = P_idle, cpc = C_idle, logged = [], delivered = []\<rparr>"

inductive producer_step :: "spsc \<Rightarrow> spsc \<Rightarrow> bool" where
  p_fast: "ppc s = P_idle \<Longrightarrow> framed r \<Longrightarrow> length r < min_free_space (buf s) \<Longrightarrow>
     producer_step s (s\<lparr>ppc := P_write r 0,
       buf := (buf s)\<lparr>num_allocations := (num_allocations (buf s) + 1) mod 2 ^ 64\<rparr>\<rparr>)"
| p_slow: "ppc s = P_idle \<Longrightarrow> framed r \<Longrightarrow> \<not> length r < min_free_space (buf s) \<Longrightarrow>
     producer_step s (s\<lparr>ppc := P_loop r,
       buf := (buf s)\<lparr>num_allocations := (num_allocations (buf s) + 1) mod 2 ^ 64\<rparr>\<rparr>)"
| p_read: "ppc s = P_loop r \<Longrightarrow> min_free_space (buf s) \<le> length r \<Longrightarrow>
     producer_step s (s\<lparr>ppc := P_read r (consumer_pos (buf s))\<rparr>)"
| p_exit: "ppc s = P_loop r \<Longrightarrow> \<not> min_free_space (buf s) \<le> length r \<Longrightarrow>
     producer_step s (s\<lparr>ppc := P_write r 0\<rparr>)"
| p_break: "ppc s = P_read r c \<Longrightarrow> c \<le> producer_pos (buf s) \<Longrightarrow>
     length r < sub64 kSTAGING_BUFFER_SIZE (producer_pos (buf s)) \<Longrightarrow>
     producer_step s (s\<lparr>ppc := P_write r 0,
       buf := (buf s)\<lparr>min_free_space := sub64 kSTAGING_BUFFER_SIZE (producer_pos (buf s))\<rparr>\<rparr>)"
| p_end: "ppc s = P_read r c \<Longrightarrow> c \<le> producer_pos (buf s) \<Longrightarrow>
     \<not> length r < sub64 kSTAGING_BUFFER_SIZE (producer_pos (buf s)) \<Longrightarrow>
     producer_step s (s\<lparr>ppc := P_wrap r c,
       buf := (buf s)\<lparr>min_free_space := sub64 kSTAGING_BUFFER_SIZE (producer_pos (buf s)),
                      end_of_recorded_space := producer_pos (buf s)\<rparr>\<rparr>)"
| p_wrap: "ppc s = P_wrap r c \<Longrightarrow> c \<noteq> 0 \<Longrightarrow>
     producer_step s (s\<lparr>ppc := P_loop r,
       buf := (buf s)\<lparr>producer_pos := 0, min_free_space := sub64 c 0\<rparr>\<rparr>)"
| p_no_wrap: "ppc s = P_wrap r 0 \<Longrightarrow> producer_step s (s\<lparr>ppc := P_loop r\<rparr>)"
| p_behind: "ppc s = P_read r c \<Longrightarrow> \<not> c \<le> producer_pos (buf s) \<Longrightarrow>
     producer_step s (s\<lparr>ppc := P_loop r,
       buf := (buf s)\<lparr>min_free_space := sub64 c (producer_pos (buf s))\<rparr>\<rparr>)"
| p_store: "ppc s = P_write r k \<Longrightarrow> k < length r \<Longrightarrow>
     producer_step s (s\<lparr>ppc := P_write r (Suc k),
       buf := (buf s)\<lparr>storage := (storage (buf s))(producer_pos (buf s) + k := r ! k)\<rparr>\<rparr>)"
| p_finish: "ppc s = P_write r (length r) \<Longrightarrow> finishReservation (length r) (buf s) = Inr b \<Longrightarrow>
     producer_step s (s\<lparr>ppc := P_idle, buf := b, logged := logged s @ [r]\<rparr>)"

inductive consumer_step :: "spsc \<Rightarrow> spsc \<Rightarrow> bool" where
  c_read: "cpc s = C_idle \<Longrightarrow>
     consumer_step s (s\<lparr>cpc := C_cached (producer_pos (buf s))\<rparr>)"
| c_before_wrap: "cpc s = C_cached q \<Longrightarrow> q < consumer_pos (buf s) \<Longrightarrow>
     0 < sub64 (end_of_recorded_space (buf s)) (consumer_pos (buf s)) \<Longrightarrow>
     consumer_step s (s\<lparr>cpc := C_run (sub64 (end_of_recorded_space (buf s)) (consumer_pos (buf s)))\<rparr>)"
| c_exhausted: "cpc s = C_cached q \<Longrightarrow> q < consumer_pos (buf s) \<Longrightarrow>
     \<not> 0 < sub64 (end_of_recorded_space (buf s)) (consumer_pos (buf s)) \<Longrightarrow>
     consumer_step s (s\<lparr>cpc := C_roll q\<rparr>)"
| c_roll: "cpc s = C_roll q \<Longrightarrow>
     consumer_step s (s\<lparr>cpc := (if 0 < sub64 q 0 then C_run (sub64 q 0) else C_idle),
       buf := (buf s)\<lparr>consumer_pos := 0\<rparr>\<rparr>)"
| c_straight: "cpc s = C_cached q \<Longrightarrow> \<not> q < consumer_pos (buf s) \<Longrightarrow>
     consumer_step s (s\<lparr>cpc := (if 0 < sub64 q (consumer_pos (buf s))
       then C_run (sub64 q (consumer_pos (buf s))) else C_idle)\<rparr>)"
| c_consume: "cpc s = C_run a \<Longrightarrow>
     n = entry_size (entry_at (storage (buf s)) (consumer_pos (buf s))) \<Longrightarrow>
     consumer_step s (s\<lparr>cpc := C_idle, buf := consume n (buf s),
       delivered := delivered s @ [mem_read (storage (buf s)) (consumer_pos (buf s)) n]\<rparr>)"

text \<open>
  The consumer takes every record it peeks at. The scan of \<^verbatim>\<open>ioPoll\<close>, which peeks without consuming, and the time
  stamp \<^verbatim>\<open>processLogBuffer\<close> writes into the front record are part of the iterations in \<open>Worker\<close>.
\<close>

definition spsc_step :: "spsc \<Rightarrow> spsc \<Rightarrow> bool" where
  "spsc_step s t \<longleftrightarrow> producer_step s t \<or> consumer_step s t"

inductive spsc_reachable :: "nat \<Rightarrow> spsc \<Rightarrow> bool" for i where
  start: "spsc_reachable i (spsc_init i)"
| step: "spsc_reachable i s \<Longrightarrow> spsc_step s t \<Longrightarrow> spsc_reachable i t"

inductive_cases producer_stepE: "producer_step s t"
inductive_cases consumer_stepE: "consumer_step s t"

subsection \<open>The invariant\<close>

text \<open>
  What the stale copy of the consumer's position still says: while it is not beyond the producer, the
  consumer has only advanced up to the producer; if it was beyond, the consumer is further on, or has
  rolled over.
\<close>

fun producer_inv :: "producer_pc \<Rightarrow> staging_buffer \<Rightarrow> bool" where
  "producer_inv P_idle b \<longleftrightarrow> True"
| "producer_inv (P_loop r) b \<longleftrightarrow> framed r"
| "producer_inv (P_read r c) b \<longleftrightarrow> framed r \<and> c \<le> kSTAGING_BUFFER_SIZE \<and>
     (if c \<le> producer_pos b then c \<le> consumer_pos b \<and> consumer_pos b \<le> producer_pos b
      else c \<le> consumer_pos b \<or> consumer_pos b \<le> producer_pos b)"
| "producer_inv (P_wrap r c) b \<longleftrightarrow> framed r \<and> c \<le> consumer_pos b
     \<and> consumer_pos b \<le> producer_pos b \<and> end_of_recorded_space b = producer_pos b"
| "producer_inv (P_write r k) b \<longleftrightarrow> framed r \<and> length r < min_free_space b \<and> k \<le> length r
     \<and> mem_read (storage b) (producer_pos b) k = take k r"

text \<open>
  What the stale copy of the producer's position still says: if it was behind the consumer, the
  producer still is, and no less far; otherwise it lies in the first segment.
\<close>

definition segment_end :: "staging_buffer \<Rightarrow> nat" where
  "segment_end b = (if consumer_pos b \<le> producer_pos b then producer_pos b else end_of_recorded_space b)"

fun consumer_inv :: "consumer_pc \<Rightarrow> staging_buffer \<Rightarrow> bool" where
  "consumer_inv C_idle b \<longleftrightarrow> True"
| "consumer_inv (C_cached q) b \<longleftrightarrow>
     (if q < consumer_pos b then producer_pos b < consumer_pos b \<and> q \<le> producer_pos b
      else q \<le> segment_end b)"
| "consumer_inv (C_roll q) b \<longleftrightarrow> producer_pos b < consumer_pos b \<and> q \<le> producer_pos b
     \<and> consumer_pos b = end_of_recorded_space b"
| "consumer_inv (C_run a) b \<longleftrightarrow> 0 < a \<and> consumer_pos b + a \<le> segment_end b"

definition spsc_inv :: "spsc \<Rightarrow> bool" where
  "spsc_inv s \<longleftrightarrow> producer_inv (ppc s) (buf s) \<and> consumer_inv (cpc s) (buf s)
     \<and> (\<exists>rs. logged s = delivered s @ rs \<and> sb_records (buf s) rs)"

lemma length_first_segment:
  "sb_inv b \<Longrightarrow> length (first_segment b) = segment_end b - consumer_pos b"
  by (simp add: first_segment_def segment_end_def)

lemma spsc_init_inv: "spsc_inv (spsc_init i)"
  using sbq.init_holds by (simp add: spsc_inv_def spsc_init_def)

lemma store_byte_records:
  assumes "sb_records b rs" "producer_pos b \<le> i" "i < producer_pos b + min_free_space b"
  shows "sb_records (b\<lparr>storage := (storage b)(i := x)\<rparr>) rs"
  using assms(1)
proof (rule sb_records_cong)
  let ?b = "b\<lparr>storage := (storage b)(i := x)\<rparr>"
  have inv: "sb_inv b" using assms(1) by (rule sb_records_inv)
  then show "sb_inv ?b" by (simp add: sb_inv_def)
  show "first_segment ?b = first_segment b" "second_segment ?b = second_segment b"
    using inv assms(2,3)
    by (auto simp: segment_defs sb_inv_def intro!: mem_read_cong split: if_splits)
qed

subsection \<open>Every step of the producer keeps the invariant\<close>

lemma spsc_invI:
  "producer_inv (ppc s) (buf s) \<Longrightarrow> consumer_inv (cpc s) (buf s) \<Longrightarrow> logged s = delivered s @ rs \<Longrightarrow>
     sb_records (buf s) rs \<Longrightarrow> spsc_inv s"
  by (auto simp: spsc_inv_def)

lemma consumer_inv_cong:
  "consumer_inv c b \<Longrightarrow> consumer_pos b' = consumer_pos b \<Longrightarrow> producer_pos b' = producer_pos b \<Longrightarrow>
     end_of_recorded_space b' = end_of_recorded_space b \<Longrightarrow> consumer_inv c b'"
  by (cases c) (auto simp: segment_end_def split: if_splits)

lemma producer_step_inv:
  assumes "producer_step s t" "spsc_inv s"
  shows "spsc_inv t"
proof -
  from assms(2) obtain rs where P: "producer_inv (ppc s) (buf s)" and C: "consumer_inv (cpc s) (buf s)"
    and L: "logged s = delivered s @ rs" and R: "sb_records (buf s) rs"
    by (auto simp: spsc_inv_def)
  have inv: "sb_inv (buf s)" using R by (rule sb_records_inv)
  let ?S = kSTAGING_BUFFER_SIZE
  from assms(1) show ?thesis
  proof cases
    case (p_fast r)
    have "sb_records (buf t) rs"
      using R by (rule sb_records_cong) (use inv p_fast in \<open>auto simp: sb_inv_def segment_defs\<close>)
    then show ?thesis
      using p_fast L consumer_inv_cong [OF C, of "buf t"] by (intro spsc_invI [of t rs]) auto
  next
    case (p_slow r)
    have "sb_records (buf t) rs"
      using R by (rule sb_records_cong) (use inv p_slow in \<open>auto simp: sb_inv_def segment_defs\<close>)
    then show ?thesis
      using p_slow L consumer_inv_cong [OF C, of "buf t"] by (intro spsc_invI [of t rs]) auto
  next
    case (p_read r)
    then show ?thesis
      using P C L R inv by (intro spsc_invI [of t rs]) (auto simp: sb_inv_def split: if_splits)
  next
    case (p_exit r)
    then show ?thesis using P C L R by (intro spsc_invI [of t rs]) auto
  next
    case (p_break r c)
    with P have le: "consumer_pos (buf s) \<le> producer_pos (buf s)" by auto
    have "sb_records (buf t) rs"
      using R by (rule sb_records_cong) (use inv le p_break in \<open>auto simp: sb_inv_def segment_defs\<close>)
    then show ?thesis
      using p_break P L consumer_inv_cong [OF C, of "buf t"] by (intro spsc_invI [of t rs]) auto
  next
    case (p_end r c)
    with P have le: "c \<le> consumer_pos (buf s)" "consumer_pos (buf s) \<le> producer_pos (buf s)" by auto
    have "sb_records (buf t) rs"
      using R by (rule sb_records_cong) (use inv le p_end in \<open>auto simp: sb_inv_def segment_defs\<close>)
    moreover have "consumer_inv (cpc t) (buf t)"
      using C le p_end by (cases "cpc s") (auto simp: segment_end_def)
    ultimately show ?thesis
      using p_end P L le by (intro spsc_invI [of t rs]) auto
  next
    case (p_wrap r c)
    with P have le: "c \<le> consumer_pos (buf s)" "consumer_pos (buf s) \<le> producer_pos (buf s)"
      "end_of_recorded_space (buf s) = producer_pos (buf s)" by auto
    have "sb_records (buf t) rs"
      using R by (rule sb_records_cong) (use inv le p_wrap in \<open>auto simp: sb_inv_def segment_defs\<close>)
    moreover have "consumer_inv (cpc t) (buf t)"
      using C le p_wrap by (cases "cpc s") (auto simp: segment_end_def)
    ultimately show ?thesis
      using p_wrap P L le by (intro spsc_invI [of t rs]) auto
  next
    case (p_no_wrap r)
    then show ?thesis using P C L R by (intro spsc_invI [of t rs]) auto
  next
    case (p_behind r c)
    with P have le: "c \<le> ?S" "c \<le> consumer_pos (buf s) \<or> consumer_pos (buf s) \<le> producer_pos (buf s)"
      by auto
    have "sb_records (buf t) rs"
      using R by (rule sb_records_cong) (use inv le p_behind in \<open>auto simp: sb_inv_def segment_defs\<close>)
    then show ?thesis
      using p_behind P L consumer_inv_cong [OF C, of "buf t"] by (intro spsc_invI [of t rs]) auto
  next
    case (p_store r k)
    with P have k: "k < length r" "length r < min_free_space (buf s)"
      "mem_read (storage (buf s)) (producer_pos (buf s)) k = take k r" by auto
    have "sb_records (buf t) rs"
      unfolding p_store(1) using store_byte_records [OF R, of "producer_pos (buf s) + k" "r ! k"] k by simp
    moreover have "mem_read (storage (buf t)) (producer_pos (buf s)) (Suc k) = take (Suc k) r"
    proof -
      have "mem_read (storage (buf t)) (producer_pos (buf s)) k =
          mem_read (storage (buf s)) (producer_pos (buf s)) k"
        using p_store by (intro mem_read_cong) simp
      with k mem_read_append [of "storage (buf t)" "producer_pos (buf s)" k 1] p_store show ?thesis
        by (simp add: take_Suc_conv_app_nth mem_read_def)
    qed
    ultimately show ?thesis
      using p_store P L consumer_inv_cong [OF C, of "buf t"] by (intro spsc_invI [of t rs]) auto
  next
    case (p_finish r b)
    with P have r: "framed r" "length r < min_free_space (buf s)"
      "mem_read (storage (buf s)) (producer_pos (buf s)) (length r) = r" by auto
    then have "mem_write (storage (buf s)) (producer_pos (buf s)) r = storage (buf s)"
      by (simp add: mem_write_same)
    then have w: "write_reserved r (buf s) = buf s" by (simp add: write_reserved_def)
    have "sb_holds (buf s) rs" using R by (simp add: sb_records_def)
    from commit_holds [OF this r(2)] w p_finish have "sb_holds b (rs @ [r])" by auto
    with R r(1) have "sb_records b (rs @ [r])" by (simp add: sb_records_def)
    moreover have "consumer_inv (cpc s) b"
      using C inv r(2) finishReservation_ok [OF inv r(2)] p_finish
      by (cases "cpc s") (auto simp: segment_end_def sb_inv_def split: if_splits)
    ultimately show ?thesis
      using p_finish L by (intro spsc_invI [of t "rs @ [r]"]) auto
  qed
qed

subsection \<open>Every step of the consumer keeps the invariant\<close>

lemma producer_inv_consume:
  assumes "producer_inv c b" "sb_inv b" "consumer_pos b + n \<le> segment_end b"
  shows "producer_inv c (consume n b)"
  using assms by (cases c) (auto simp: consume_def segment_end_def sb_inv_def split: if_splits)

lemma producer_inv_roll:
  assumes "producer_inv c b" "producer_pos b < consumer_pos b"
  shows "producer_inv c (b\<lparr>consumer_pos := 0\<rparr>)"
  using assms by (cases c) (auto split: if_splits)

lemma consumer_step_inv:
  assumes "consumer_step s t" "spsc_inv s"
  shows "spsc_inv t"
proof -
  from assms(2) obtain rs where P: "producer_inv (ppc s) (buf s)" and C: "consumer_inv (cpc s) (buf s)"
    and L: "logged s = delivered s @ rs" and R: "sb_records (buf s) rs"
    by (auto simp: spsc_inv_def)
  have inv: "sb_inv (buf s)" using R by (rule sb_records_inv)
  from assms(1) show ?thesis
  proof cases
    case c_read
    then show ?thesis
      using P L R inv by (intro spsc_invI [of t rs]) (auto simp: segment_end_def sb_inv_def split: if_splits)
  next
    case (c_before_wrap q)
    with C inv have "producer_pos (buf s) < consumer_pos (buf s)" by auto
    with c_before_wrap P L R inv show ?thesis
      by (intro spsc_invI [of t rs]) (auto simp: segment_end_def sb_inv_def)
  next
    case (c_exhausted q)
    with C inv show ?thesis
      using P L R by (intro spsc_invI [of t rs]) (auto simp: sb_inv_def)
  next
    case (c_roll q)
    with C have c: "producer_pos (buf s) < consumer_pos (buf s)" "q \<le> producer_pos (buf s)"
      "consumer_pos (buf s) = end_of_recorded_space (buf s)" by auto
    then have pk: "peek (buf s) = ((0, sub64 (producer_pos (buf s)) 0), buf t)"
      using c_roll by (simp add: peek_def)
    have "sb_records (buf t) rs"
      using R peek_holds(1) [OF _ pk] by (auto simp: sb_records_def)
    moreover have "producer_inv (ppc t) (buf t)"
      using producer_inv_roll [OF P c(1)] c_roll by simp
    ultimately show ?thesis
      using c_roll c L by (intro spsc_invI [of t rs]) (auto simp: segment_end_def)
  next
    case (c_straight q)
    with C P L R inv show ?thesis
      by (intro spsc_invI [of t rs]) auto
  next
    case (c_consume a n)
    with C have a: "0 < a" "consumer_pos (buf s) + a \<le> segment_end (buf s)" by auto
    then have ne: "first_segment (buf s) \<noteq> []"
      using length_first_segment [OF inv] by auto
    then obtain r rs' where rs: "rs = r # rs'"
      using R sb_holds_pending [of "buf s" rs] by (cases rs) (auto simp: sb_records_def pending_def)
    have r: "framed r" "r \<noteq> []" using R rs framed_not_Nil by (auto simp: sb_records_def)
    have H: "sb_holds (buf s) (r # rs')" using R rs by (simp add: sb_records_def)
    obtain rs1 where seg: "first_segment (buf s) = r @ concat rs1"
      using front_record [OF H r(2) ne] by metis
    then have "mem_read (storage (buf s)) (consumer_pos (buf s))
        (segment_end (buf s) - consumer_pos (buf s)) = r @ concat rs1"
      by (simp add: first_segment_def segment_end_def split: if_splits)
    from entry_size_of_framed [OF this r(1)] have n: "n = length r"
      "mem_read (storage (buf s)) (consumer_pos (buf s)) n = r" using c_consume by simp_all
    have "length r \<le> segment_end (buf s) - consumer_pos (buf s)"
      using arg_cong [OF seg, of length] length_first_segment [OF inv] by simp
    with a have le: "consumer_pos (buf s) + n \<le> segment_end (buf s)" using n by simp
    have "sb_records (consume n (buf s)) rs'"
      using consume_holds [OF H r(2) ne] R rs n by (simp add: sb_records_def)
    with c_consume n L rs producer_inv_consume [OF P inv le] show ?thesis
      by (intro spsc_invI [of t rs']) auto
  qed
qed

lemma spsc_step_inv: "spsc_step s t \<Longrightarrow> spsc_inv s \<Longrightarrow> spsc_inv t"
  using producer_step_inv consumer_step_inv by (auto simp: spsc_step_def)

lemma spsc_reachable_inv: "spsc_reachable i s \<Longrightarrow> spsc_inv s"
  by (induction rule: spsc_reachable.induct) (auto intro: spsc_init_inv spsc_step_inv)

subsection \<open>Uninterrupted runs\<close>

text \<open>
  A thread that is not interrupted performs the operations of \<open>StagingBuffer\<close>: the step relation only
  splits them into their single accesses.
\<close>

lemma spsc_stepsI: "producer_step s t \<Longrightarrow> spsc_step\<^sup>*\<^sup>* t u \<Longrightarrow> spsc_step\<^sup>*\<^sup>* s u"
  by (auto simp: spsc_step_def intro: converse_rtranclp_into_rtranclp)

lemma spsc_stepsI2: "consumer_step s t \<Longrightarrow> spsc_step\<^sup>*\<^sup>* t u \<Longrightarrow> spsc_step\<^sup>*\<^sup>* s u"
  by (auto simp: spsc_step_def intro: converse_rtranclp_into_rtranclp)

lemma spsc_step_producer: "producer_step s t \<Longrightarrow> spsc_step\<^sup>*\<^sup>* s t"
  by (rule r_into_rtranclp) (simp add: spsc_step_def)

lemma spsc_step_consumer: "consumer_step s t \<Longrightarrow> spsc_step\<^sup>*\<^sup>* s t"
  by (rule r_into_rtranclp) (simp add: spsc_step_def)

lemma spsc_reachable_steps: "spsc_step\<^sup>*\<^sup>* s t \<Longrightarrow> spsc_reachable i s \<Longrightarrow> spsc_reachable i t"
  by (induction rule: rtranclp_induct) (auto intro: spsc_reachable.step)

text \<open>The steps of a thread until it is idle again.\<close>

definition producer_works :: "spsc \<Rightarrow> spsc \<Rightarrow> bool" where
  "producer_works s t \<longleftrightarrow> ppc s \<noteq> P_idle \<and> producer_step s t"

definition consumer_works :: "spsc \<Rightarrow> spsc \<Rightarrow> bool" where
  "consumer_works s t \<longleftrightarrow> cpc s \<noteq> C_idle \<and> consumer_step s t"

lemma works_spsc_steps:
  "producer_works\<^sup>*\<^sup>* s t \<Longrightarrow> spsc_step\<^sup>*\<^sup>* s t" "consumer_works\<^sup>*\<^sup>* s t \<Longrightarrow> spsc_step\<^sup>*\<^sup>* s t"
  by (erule rtranclp_mono [THEN predicate2D, rotated], simp add: producer_works_def consumer_works_def spsc_step_def le_fun_def)+

lemma works_step:
  "ppc s \<noteq> P_idle \<Longrightarrow> producer_step s t \<Longrightarrow> producer_works\<^sup>*\<^sup>* s t"
  by (rule r_into_rtranclp) (simp add: producer_works_def)

lemma works_steps:
  "producer_step s t \<Longrightarrow> ppc s \<noteq> P_idle \<Longrightarrow> producer_works\<^sup>*\<^sup>* t u \<Longrightarrow> producer_works\<^sup>*\<^sup>* s u"
  by (auto simp: producer_works_def intro: converse_rtranclp_into_rtranclp)

lemma works_step2:
  "cpc s \<noteq> C_idle \<Longrightarrow> consumer_step s t \<Longrightarrow> consumer_works\<^sup>*\<^sup>* s t"
  by (rule r_into_rtranclp) (simp add: consumer_works_def)

text \<open>A run of a deterministic system that has come to an end is the only one.\<close>

lemma deterministic_run:
  assumes "\<And>x y z. r x y \<Longrightarrow> r x z \<Longrightarrow> y = z" "r\<^sup>*\<^sup>* s u" "r\<^sup>*\<^sup>* s v" "\<nexists>x. r v x"
  shows "r\<^sup>*\<^sup>* u v"
  using assms(2,3)
proof (induction rule: rtranclp_induct)
  case (step x y)
  from step.IH [OF step.prems] show ?case
  proof (cases rule: converse_rtranclpE)
    case base
    with step.hyps(2) assms(4) show ?thesis by blast
  next
    case (step x')
    with assms(1) [of x y x'] \<open>r x y\<close> show ?thesis by blast
  qed
qed

lemma producer_step_deterministic:
  assumes "ppc s \<noteq> P_idle" "producer_step s t" "producer_step s u"
  shows "t = u"
  using assms(2)
  by cases (use assms(1,3) in \<open>auto elim!: producer_stepE\<close>)

lemma consumer_step_deterministic: "consumer_step s t \<Longrightarrow> consumer_step s u \<Longrightarrow> t = u"
  by (erule consumer_stepE; erule consumer_stepE; simp)

lemma iteration_run:
  assumes "ppc s = P_loop r" "min_free_space (buf s) \<le> length r"
    "reserve_iteration (length r) (consumer_pos (buf s)) (buf s) = (b, brk)"
  shows "producer_works\<^sup>*\<^sup>* s (s\<lparr>ppc := (if brk then P_write r 0 else P_loop r), buf := b\<rparr>)"
proof -
  let ?c = "consumer_pos (buf s)" and ?p = "producer_pos (buf s)"
  let ?s1 = "s\<lparr>ppc := P_read r ?c\<rparr>"
  let ?t = "s\<lparr>ppc := (if brk then P_write r 0 else P_loop r), buf := b\<rparr>"
  have "producer_works\<^sup>*\<^sup>* ?s1 ?t"
  proof (cases "?c \<le> ?p")
    case False
    then have "?t = ?s1\<lparr>ppc := P_loop r, buf := (buf ?s1)\<lparr>min_free_space := sub64 ?c (producer_pos (buf ?s1))\<rparr>\<rparr>"
      using assms(3) by (auto simp: reserve_iteration_def)
    moreover have "producer_step ?s1 \<dots>" using False by (intro producer_step.p_behind) auto
    ultimately show ?thesis using works_step [of ?s1] by simp
  next
    case le: True
    show ?thesis
    proof (cases "length r < sub64 kSTAGING_BUFFER_SIZE ?p")
      case True
      then have "?t = ?s1\<lparr>ppc := P_write r 0,
          buf := (buf ?s1)\<lparr>min_free_space := sub64 kSTAGING_BUFFER_SIZE (producer_pos (buf ?s1))\<rparr>\<rparr>"
        using assms(3) le by (auto simp: reserve_iteration_def Let_def)
      moreover have "producer_step ?s1 \<dots>" using True le by (intro producer_step.p_break) auto
      ultimately show ?thesis using works_step [of ?s1] by simp
    next
      case False
      let ?s2 = "?s1\<lparr>ppc := P_wrap r ?c,
        buf := (buf ?s1)\<lparr>min_free_space := sub64 kSTAGING_BUFFER_SIZE (producer_pos (buf ?s1)),
                       end_of_recorded_space := producer_pos (buf ?s1)\<rparr>\<rparr>"
      have "producer_step ?s1 ?s2" using False le by (intro producer_step.p_end) auto
      moreover have "producer_step ?s2 ?t"
      proof (cases "?c = 0")
        case True
        then have "?t = ?s2\<lparr>ppc := P_loop r\<rparr>"
          using assms(3) le False by (auto simp: reserve_iteration_def Let_def)
        moreover have "producer_step ?s2 \<dots>" using True by (intro producer_step.p_no_wrap) auto
        ultimately show ?thesis by simp
      next
        case nz: False
        then have "?t = ?s2\<lparr>ppc := P_loop r, buf := (buf ?s2)\<lparr>producer_pos := 0, min_free_space := sub64 ?c 0\<rparr>\<rparr>"
          using assms(3) le False by (auto simp: reserve_iteration_def Let_def)
        moreover have "producer_step ?s2 \<dots>" using nz by (intro producer_step.p_wrap) auto
        ultimately show ?thesis by simp
      qed
      ultimately show ?thesis by (intro works_steps [OF _ _ works_step]) simp_all
    qed
  qed
  moreover have "producer_step s ?s1" using assms by (intro producer_step.p_read)
  ultimately show ?thesis using assms(1) by (intro works_steps [of s ?s1]) simp_all
qed

text \<open>The remaining bytes of a reserved record.\<close>

lemma store_run:
  assumes "ppc s = P_write r k" "k \<le> length r"
  shows "producer_works\<^sup>*\<^sup>* s (s\<lparr>ppc := P_write r (length r),
    buf := (buf s)\<lparr>storage := mem_write (storage (buf s)) (producer_pos (buf s) + k) (drop k r)\<rparr>\<rparr>)"
  using assms
proof (induction "length r - k" arbitrary: s k)
  case 0
  then have "k = length r" by simp
  with 0 have "s\<lparr>ppc := P_write r (length r), buf := (buf s)\<lparr>storage :=
      mem_write (storage (buf s)) (producer_pos (buf s) + k) (drop k r)\<rparr>\<rparr> = s"
    by (cases s; cases "buf s") (simp add: mem_simps)
  then show ?case by simp
next
  case (Suc n)
  then have k: "k < length r" by simp
  let ?s = "s\<lparr>ppc := P_write r (Suc k),
       buf := (buf s)\<lparr>storage := (storage (buf s))(producer_pos (buf s) + k := r ! k)\<rparr>\<rparr>"
  have step: "producer_step s ?s" using Suc.prems(1) k by (rule producer_step.p_store)
  have "mem_write (mem_write m (producer_pos (buf s) + k) [r ! k]) (producer_pos (buf s) + k + 1)
      (drop (Suc k) r) = mem_write m (producer_pos (buf s) + k) (drop k r)" for m
    using mem_write_append [of m _ "[r ! k]"] k by (simp add: Cons_nth_drop_Suc)
  moreover have "mem_write m a [x] = m(a := x)" for m a and x :: byte
    by (auto simp: mem_write_def fun_eq_iff)
  ultimately have "mem_write ((storage (buf s))(producer_pos (buf s) + k := r ! k))
      (Suc (producer_pos (buf s) + k)) (drop (Suc k) r) =
      mem_write (storage (buf s)) (producer_pos (buf s) + k) (drop k r)" by simp
  then show ?case
    using works_steps [OF step _ Suc.hyps(1) [of "Suc k" ?s]] Suc.hyps(2) Suc.prems(1) k by simp
qed

lemma write_run:
  assumes "ppc s = P_write r 0" "finishReservation (length r) (write_reserved r (buf s)) = Inr b"
  shows "producer_works\<^sup>*\<^sup>* s (s\<lparr>ppc := P_idle, buf := b, logged := logged s @ [r]\<rparr>)"
proof -
  let ?t = "s\<lparr>ppc := P_write r (length r), buf := write_reserved r (buf s)\<rparr>"
  have "producer_works\<^sup>*\<^sup>* s ?t" using store_run [OF assms(1)] by (simp add: write_reserved_def)
  moreover have "producer_step ?t (?t\<lparr>ppc := P_idle, buf := b, logged := logged ?t @ [r]\<rparr>)"
    by (rule producer_step.p_finish) (use assms(2) in auto)
  then have "producer_works\<^sup>*\<^sup>* ?t (s\<lparr>ppc := P_idle, buf := b, logged := logged s @ [r]\<rparr>)"
    using works_step [of ?t] by simp
  ultimately show ?thesis by (rule rtranclp_trans)
qed

lemma producer_works_deterministic: "producer_works s t \<Longrightarrow> producer_works s u \<Longrightarrow> t = u"
  using producer_step_deterministic by (auto simp: producer_works_def)

lemma consumer_works_deterministic: "consumer_works s t \<Longrightarrow> consumer_works s u \<Longrightarrow> t = u"
  using consumer_step_deterministic by (auto simp: consumer_works_def)

text \<open>
  The statement the producer has begun, and its uninterrupted execution: the step that begins it, then the
  producer's own steps until it is idle.
\<close>

fun pc_record :: "producer_pc \<Rightarrow> byte list option" where
  "pc_record P_idle = None"
| "pc_record (P_loop r) = Some r"
| "pc_record (P_read r c) = Some r"
| "pc_record (P_wrap r c) = Some r"
| "pc_record (P_write r k) = Some r"

definition producer_run :: "byte list \<Rightarrow> spsc \<Rightarrow> spsc \<Rightarrow> bool" where
  "producer_run r s u \<longleftrightarrow> (\<exists>s1. producer_step s s1 \<and> pc_record (ppc s1) = Some r \<and> producer_works\<^sup>*\<^sup>* s1 u)"

definition consumer_run :: "spsc \<Rightarrow> spsc \<Rightarrow> bool" where
  "consumer_run s u \<longleftrightarrow> (\<exists>s1. consumer_step s s1 \<and> consumer_works\<^sup>*\<^sup>* s1 u)"

definition begun :: "byte list \<Rightarrow> spsc \<Rightarrow> spsc" where
  "begun r s = s\<lparr>ppc := (if length r < min_free_space (buf s) then P_write r 0 else P_loop r),
     buf := (buf s)\<lparr>num_allocations := (num_allocations (buf s) + 1) mod 2 ^ 64\<rparr>\<rparr>"

lemma producer_begins:
  assumes "ppc s = P_idle" "framed r"
  shows "producer_step s s1 \<and> pc_record (ppc s1) = Some r \<longleftrightarrow> s1 = begun r s"
proof
  assume "producer_step s s1 \<and> pc_record (ppc s1) = Some r"
  then show "s1 = begun r s" using assms(1) by (auto simp: begun_def elim!: producer_stepE)
next
  assume "s1 = begun r s"
  then show "producer_step s s1 \<and> pc_record (ppc s1) = Some r"
    using producer_step.p_fast [OF assms] producer_step.p_slow [OF assms] by (auto simp: begun_def)
qed

lemma push_record_works:
  assumes "push_record r (buf s) = (True, b)"
  shows "producer_works\<^sup>*\<^sup>* (begun r s) (s\<lparr>ppc := P_idle, buf := b, logged := logged s @ [r]\<rparr>)"
proof -
  let ?b = "(buf s)\<lparr>num_allocations := (num_allocations (buf s) + 1) mod 2 ^ 64\<rparr>"
  have res: "\<exists>b1. (\<exists>q. reserveProducerSpace (length r) [consumer_pos (buf s)] (buf s) = (Reserved q, b1))
      \<and> finishReservation (length r) (write_reserved r b1) = Inr b"
    using assms by (auto simp: push_record_def split: prod.splits reservation.splits sum.splits)
  then obtain b1 q where b1: "reserveProducerSpace (length r) [consumer_pos (buf s)] (buf s) = (Reserved q, b1)"
    "finishReservation (length r) (write_reserved r b1) = Inr b" by blast
  have "producer_works\<^sup>*\<^sup>* (begun r s) (s\<lparr>ppc := P_write r 0, buf := b1\<rparr>)"
  proof (cases "length r < min_free_space (buf s)")
    case True
    with b1(1) have "b1 = ?b" by (simp add: reserveProducerSpace_def)
    with True show ?thesis by (simp add: begun_def)
  next
    case False
    let ?s1 = "s\<lparr>ppc := P_loop r, buf := ?b\<rparr>"
    have s1: "begun r s = ?s1" using False by (simp add: begun_def)
    obtain b2 brk where it: "reserve_iteration (length r) (consumer_pos (buf ?s1)) (buf ?s1) = (b2, brk)"
      by fastforce
    from it False b1(1) have b2: "b2 = b1" "brk \<or> length r < min_free_space b1"
      by (auto simp: reserveProducerSpace_def split: bool.splits if_splits)
    have "producer_works\<^sup>*\<^sup>* ?s1 (?s1\<lparr>ppc := (if brk then P_write r 0 else P_loop r), buf := b2\<rparr>)"
      using it False by (intro iteration_run) simp_all
    moreover have "producer_step (?s1\<lparr>ppc := P_loop r, buf := b1\<rparr>) (s\<lparr>ppc := P_write r 0, buf := b1\<rparr>)"
      if "length r < min_free_space b1"
      using producer_step.p_exit [of "?s1\<lparr>ppc := P_loop r, buf := b1\<rparr>" r] that
      by (cases s) simp
    ultimately show ?thesis unfolding s1
      using b2 by (cases brk) (auto simp: producer_works_def intro: rtranclp.rtrancl_into_rtrancl)
  qed
  also have "producer_works\<^sup>*\<^sup>* (s\<lparr>ppc := P_write r 0, buf := b1\<rparr>)
      (s\<lparr>ppc := P_idle, buf := b, logged := logged s @ [r]\<rparr>)"
    using write_run [of "s\<lparr>ppc := P_write r 0, buf := b1\<rparr>" r b] b1(2) by simp
  finally show ?thesis .
qed

lemma push_record_run:
  assumes "ppc s = P_idle" "framed r" "push_record r (buf s) = (True, b)"
  shows "spsc_step\<^sup>*\<^sup>* s (s\<lparr>ppc := P_idle, buf := b, logged := logged s @ [r]\<rparr>)"
  using spsc_stepsI [of s "begun r s"] producer_begins [OF assms(1,2), of "begun r s"]
    works_spsc_steps(1) [OF push_record_works [OF assms(3)]] by blast

text \<open>A record for which there is no room: the producer goes round the loop, and nothing changes any more.\<close>

definition no_room :: "nat \<Rightarrow> staging_buffer \<Rightarrow> bool" where
  "no_room n b \<longleftrightarrow> (case reserve_iteration n (consumer_pos b) b of (b', brk) \<Rightarrow> \<not> brk \<and> min_free_space b' \<le> n)"

lemma no_room_again: "no_room n b \<Longrightarrow> no_room n (fst (reserve_iteration n (consumer_pos b) b))"
  by (auto simp: no_room_def reserve_iteration_def Let_def split: if_splits)

fun waiting :: "byte list \<Rightarrow> producer_pc \<Rightarrow> bool" where
  "waiting r (P_loop r') \<longleftrightarrow> r' = r"
| "waiting r (P_read r' c) \<longleftrightarrow> r' = r"
| "waiting r (P_wrap r' c) \<longleftrightarrow> r' = r"
| "waiting r _ \<longleftrightarrow> False"

fun waits :: "byte list \<Rightarrow> producer_pc \<Rightarrow> staging_buffer \<Rightarrow> bool" where
  "waits r (P_loop r') b \<longleftrightarrow> r' = r \<and> min_free_space b \<le> length r \<and> no_room (length r) b"
| "waits r (P_read r' c) b \<longleftrightarrow> r' = r \<and> c = consumer_pos b \<and> no_room (length r) b"
| "waits r (P_wrap r' c) b \<longleftrightarrow> r' = r \<and>
     (let b' = (if c = 0 then b else b\<lparr>producer_pos := 0, min_free_space := sub64 c 0\<rparr>)
      in min_free_space b' \<le> length r \<and> no_room (length r) b')"
| "waits r _ b \<longleftrightarrow> False"

lemma waits_step:
  assumes "producer_step s t" "waits r (ppc s) (buf s)"
  shows "waits r (ppc t) (buf t) \<and> logged t = logged s"
  using assms(1)
proof cases
  case (p_end r' c)
  with assms(2) have c: "r' = r" "c = consumer_pos (buf s)" "no_room (length r) (buf s)" by simp_all
  with p_end have "fst (reserve_iteration (length r) c (buf s)) =
      (if c = 0 then buf t else (buf t)\<lparr>producer_pos := 0, min_free_space := sub64 c 0\<rparr>)"
    by (simp add: reserve_iteration_def Let_def)
  with no_room_again [OF c(3)] c have "no_room (length r)
      (if c = 0 then buf t else (buf t)\<lparr>producer_pos := 0, min_free_space := sub64 c 0\<rparr>)" by simp
  moreover have "min_free_space (if c = 0 then buf t else (buf t)\<lparr>producer_pos := 0, min_free_space := sub64 c 0\<rparr>) \<le> length r"
    using c p_end by (auto simp: no_room_def reserve_iteration_def Let_def split: if_splits)
  ultimately have "waits r (P_wrap r c) (buf t)" by (simp only: waits.simps Let_def)
  then show ?thesis using p_end(1) c(1) by simp
next
  case (p_behind r' c)
  with assms(2) have c: "r' = r" "c = consumer_pos (buf s)" "no_room (length r) (buf s)" by simp_all
  with p_behind have it: "reserve_iteration (length r) c (buf s) = (buf t, False)"
    by (simp add: reserve_iteration_def)
  with no_room_again [OF c(3)] c show ?thesis using p_behind by (simp add: no_room_def)
qed (use assms(2) in \<open>auto simp: no_room_def reserve_iteration_def Let_def split: if_splits\<close>)

lemma waits_run: "producer_works\<^sup>*\<^sup>* s u \<Longrightarrow> waits r (ppc s) (buf s) \<Longrightarrow> waits r (ppc u) (buf u) \<and> logged u = logged s"
  by (induction rule: rtranclp_induct) (auto simp: producer_works_def dest: waits_step)

lemma waits_waiting: "waits r c b \<Longrightarrow> waiting r c"
  by (cases c) auto

lemma push_record_waits:
  assumes "sb_records (buf s) rs" "push_record r (buf s) = (False, b)"
  shows "waits r (ppc (begun r s)) (buf (begun r s))"
proof -
  let ?b = "(buf s)\<lparr>num_allocations := (num_allocations (buf s) + 1) mod 2 ^ 64\<rparr>"
  have h0: "sb_holds (buf s) rs" using assms(1) by (simp add: sb_records_def)
  have h: "sb_holds ?b rs"
    using h0 by (rule sb_holds_cong) (use h0 in \<open>auto simp: sb_holds_def sb_inv_def segment_defs\<close>)
  note inv = sb_holds_inv [OF h]
  have fin: "\<exists>b2. finishReservation (length r) (write_reserved r b1) = Inr b2"
    if "sb_inv b1" "length r < min_free_space b1" for b1
    using finishReservation_ok [of "write_reserved r b1" "length r"] that by (simp add: write_reserved_def sb_inv_def)
  have lt: "\<not> length r < min_free_space (buf s)"
    using assms(2) fin [OF inv] by (auto simp: push_record_def reserveProducerSpace_def)
  obtain b2 brk where it: "reserve_iteration (length r) (consumer_pos ?b) ?b = (b2, brk)" by fastforce
  note b2 = reserve_iteration_holds [OF h it]
  have "\<not> brk \<and> min_free_space b2 \<le> length r"
    using assms(2) lt it b2 fin [OF sb_holds_inv [OF conjunct1 [OF b2]]]
    by (auto simp: push_record_def reserveProducerSpace_def split: bool.splits if_splits)
  with it lt show ?thesis by (simp add: begun_def no_room_def)
qed

lemma take_record_works:
  assumes "cpc s = C_idle" "front_record_of (buf s) = (x, b)"
  shows "consumer_works\<^sup>*\<^sup>* (s\<lparr>cpc := C_cached (producer_pos (buf s))\<rparr>)
    (case x of None \<Rightarrow> s\<lparr>buf := b\<rparr>
     | Some r \<Rightarrow> s\<lparr>buf := drop_record r b, delivered := delivered s @ [r]\<rparr>)"
proof -
  obtain pos avail where pk: "peek (buf s) = ((pos, avail), b)"
    "x = (if 0 < avail then Some (mem_read (storage b) pos (entry_size (entry_at (storage b) pos))) else None)"
    using assms(2) by (auto simp: front_record_of_def split: prod.splits)
  let ?q = "producer_pos (buf s)" and ?c = "consumer_pos (buf s)"
  let ?s1 = "s\<lparr>cpc := C_cached ?q\<rparr>" and ?s2 = "s\<lparr>cpc := (if 0 < avail then C_run avail else C_idle), buf := b\<rparr>"
  have "consumer_works\<^sup>*\<^sup>* ?s1 ?s2"
  proof (cases "?q < ?c")
    case False
    with pk have "?s2 = ?s1\<lparr>cpc := (if 0 < sub64 ?q (consumer_pos (buf ?s1))
        then C_run (sub64 ?q (consumer_pos (buf ?s1))) else C_idle)\<rparr>" by (auto simp: peek_def)
    moreover have "consumer_step ?s1 \<dots>" using False by (intro consumer_step.c_straight) auto
    ultimately show ?thesis using works_step2 [of ?s1] by simp
  next
    case lt: True
    show ?thesis
    proof (cases "0 < sub64 (end_of_recorded_space (buf s)) ?c")
      case True
      with lt pk have "?s2 = ?s1\<lparr>cpc := C_run (sub64 (end_of_recorded_space (buf ?s1)) (consumer_pos (buf ?s1)))\<rparr>"
        by (auto simp: peek_def Let_def)
      moreover have "consumer_step ?s1 \<dots>"
        using lt True by (intro consumer_step.c_before_wrap) auto
      ultimately show ?thesis using works_step2 [of ?s1] by simp
    next
      case False
      let ?s3 = "?s1\<lparr>cpc := C_roll ?q\<rparr>"
      have "?s2 = ?s3\<lparr>cpc := (if 0 < sub64 ?q 0 then C_run (sub64 ?q 0) else C_idle),
          buf := (buf ?s3)\<lparr>consumer_pos := 0\<rparr>\<rparr>"
        using lt False pk by (auto simp: peek_def Let_def)
      moreover have "consumer_step ?s3 \<dots>" by (intro consumer_step.c_roll) auto
      ultimately have "consumer_step ?s3 ?s2" by simp
      then have "consumer_works\<^sup>*\<^sup>* ?s3 ?s2" by (intro works_step2) simp_all
      moreover have "consumer_step ?s1 ?s3"
        using lt False by (intro consumer_step.c_exhausted) auto
      then have "consumer_works\<^sup>*\<^sup>* ?s1 ?s3" by (intro works_step2) simp_all
      ultimately show ?thesis by (meson rtranclp_trans)
    qed
  qed
  moreover have "consumer_works\<^sup>*\<^sup>* ?s2 (case x of None \<Rightarrow> s\<lparr>buf := b\<rparr>
     | Some r \<Rightarrow> s\<lparr>buf := drop_record r b, delivered := delivered s @ [r]\<rparr>)"
  proof (cases "0 < avail")
    case True
    have "pos = consumer_pos b" using pk(1) True by (auto simp: peek_def Let_def split: if_splits)
    with consumer_step.c_consume [of ?s2 avail] pk(2) True assms(1) have
      "consumer_step ?s2 (case x of None \<Rightarrow> s\<lparr>buf := b\<rparr>
         | Some r \<Rightarrow> s\<lparr>buf := drop_record r b, delivered := delivered s @ [r]\<rparr>)"
      by (cases s) (simp add: drop_record_def)
    with True show ?thesis by (intro works_step2) simp_all
  next
    case False
    with pk(2) assms(1) show ?thesis by (cases s) simp
  qed
  ultimately show ?thesis by (rule rtranclp_trans)
qed

lemma consumer_begins: "cpc s = C_idle \<Longrightarrow> consumer_step s t \<longleftrightarrow> t = s\<lparr>cpc := C_cached (producer_pos (buf s))\<rparr>"
  by (auto intro: consumer_step.c_read elim: consumer_stepE)

lemma take_record_run:
  assumes "cpc s = C_idle" "front_record_of (buf s) = (Some r, b)"
  shows "spsc_step\<^sup>*\<^sup>* s (s\<lparr>cpc := C_idle, buf := drop_record r b, delivered := delivered s @ [r]\<rparr>)"
proof -
  have "consumer_step s (s\<lparr>cpc := C_cached (producer_pos (buf s))\<rparr>)" using consumer_begins [OF assms(1)] by blast
  from spsc_stepsI2 [OF this works_spsc_steps(2) [OF take_record_works [OF assms]]] assms(1)
  show ?thesis by (cases s) simp
qed

subsection \<open>Properties\<close>

text \<open>A record that is only a header, and the state after logging it, for the examples below.\<close>

definition sample_record :: "byte list" where
  "sample_record = entry_bytes \<lparr>timestamp = 7, entry_size = 32, static_info = 0, param_size = 0\<rparr>"

lemma length_sample_record [simp]: "length sample_record = 32"
  by (simp add: sample_record_def sizeof_LogEntry_def)

lemma framed_sample_record: "framed sample_record"
  by (simp add: framed_def sizeof_LogEntry_def) (simp add: sample_record_def entry_bytes_def)

lemma push_sample_record:
  obtains b where "push_record sample_record (new_StagingBuffer 0) = (True, b)"
    "producer_pos b = 32" "consumer_pos b = 0" "min_free_space b = kSTAGING_BUFFER_SIZE - 32"
proof
  show "push_record sample_record (new_StagingBuffer 0) = (True, (write_reserved sample_record
      (new_StagingBuffer 0))\<lparr>num_allocations := 1, min_free_space := kSTAGING_BUFFER_SIZE - 32, producer_pos := 32\<rparr>)"
    by (simp add: push_record_def reserveProducerSpace_def finishReservation_def write_reserved_def
        new_StagingBuffer_def kSTAGING_BUFFER_SIZE_def)
qed (simp_all add: write_reserved_def new_StagingBuffer_def)

lemma sample_logged:
  obtains s where "spsc_reachable 0 s" "ppc s = P_idle" "cpc s = C_idle" "logged s = [sample_record]"
    "delivered s = []" "producer_pos (buf s) = 32" "consumer_pos (buf s) = 0"
    "min_free_space (buf s) = kSTAGING_BUFFER_SIZE - 32"
proof -
  obtain b where b: "push_record sample_record (new_StagingBuffer 0) = (True, b)"
    "producer_pos b = 32" "consumer_pos b = 0" "min_free_space b = kSTAGING_BUFFER_SIZE - 32"
    by (rule push_sample_record)
  have "spsc_step\<^sup>*\<^sup>* (spsc_init 0) ((spsc_init 0)\<lparr>ppc := P_idle, buf := b, logged := [sample_record]\<rparr>)"
    using push_record_run [of "spsc_init 0" sample_record b] framed_sample_record b(1)
    by (simp add: spsc_init_def)
  from spsc_reachable_steps [OF this spsc_reachable.start] b(2-) show thesis
    by (intro that) (auto simp: spsc_init_def)
qed

text \<open>
  C17. Whatever the interleaving of the logging thread's and the backend's accesses, no record is
  lost, duplicated, reordered or torn: in every reachable state the records committed are those
  delivered followed by those in the buffer, byte for byte.
\<close>

theorem spsc_fifo:
  assumes "spsc_reachable i s"
  shows "\<exists>rs. logged s = delivered s @ rs \<and> sb_records (buf s) rs"
  using spsc_reachable_inv [OF assms] by (simp add: spsc_inv_def)

theorem spsc_fifo_witness:
  "\<exists>s :: spsc. logged s = [sample_record] \<and> delivered s = [sample_record]
     \<and> (\<exists>rs. logged s = delivered s @ rs \<and> sb_records (buf s) rs)"
proof -
  obtain s where s: "spsc_reachable 0 s" "cpc s = C_idle" "logged s = [sample_record]" "delivered s = []"
    by (rule sample_logged)
  from spsc_reachable_inv [OF s(1)] s(3,4) have R: "sb_records (buf s) [sample_record]"
    by (auto simp: spsc_inv_def)
  obtain x b where f: "front_record_of (buf s) = (x, b)" by fastforce
  with sbq.front_holds [OF R f] have "front_record_of (buf s) = (Some sample_record, b)" by simp
  from spsc_reachable_steps [OF take_record_run [OF s(2) this] s(1)]
  obtain u where u: "spsc_reachable 0 u" "logged u = [sample_record]" "delivered u = [sample_record]"
    using s(3,4) by (metis append_Nil spsc.select_convs(4,5) spsc.surjective spsc.update_convs(1,3,5))
  from spsc_fifo [OF u(1)] u(2,3) show ?thesis by blast
qed

text \<open>
  C33. Both assertions of \<^verbatim>\<open>finishReservation\<close> hold in every interleaving: once the producer has written
  its record it can commit it, and the committed state is reachable.
\<close>

theorem spsc_commit_never_asserts:
  assumes "spsc_reachable i s" "ppc s = P_write r (length r)"
  shows "\<exists>b. finishReservation (length r) (buf s) = Inr b
    \<and> spsc_reachable i (s\<lparr>ppc := P_idle, buf := b, logged := logged s @ [r]\<rparr>)"
proof -
  from spsc_reachable_inv [OF assms(1)] assms(2) have "sb_inv (buf s)" "length r < min_free_space (buf s)"
    by (auto simp: spsc_inv_def dest: sb_records_inv)
  from finishReservation_ok [OF this] obtain b where b: "finishReservation (length r) (buf s) = Inr b"
    by blast
  from producer_step.p_finish [OF assms(2) b] assms(1) b show ?thesis
    by (auto simp: spsc_step_def intro: spsc_reachable.step)
qed

theorem spsc_commit_never_asserts_witness:
  "\<exists>(s :: spsc) b. ppc s = P_write sample_record (length sample_record)
     \<and> finishReservation (length sample_record) (buf s) = Inr b
     \<and> spsc_reachable 0 (s\<lparr>ppc := P_idle, buf := b, logged := logged s @ [sample_record]\<rparr>)"
proof -
  let ?b = "(buf (spsc_init 0))\<lparr>num_allocations := (num_allocations (buf (spsc_init 0)) + 1) mod 2 ^ 64\<rparr>"
  let ?s = "(spsc_init 0)\<lparr>ppc := P_write sample_record 0, buf := ?b\<rparr>"
  have "producer_step (spsc_init 0) ?s"
    by (rule producer_step.p_fast)
       (use framed_sample_record in \<open>simp_all add: spsc_init_def new_StagingBuffer_def kSTAGING_BUFFER_SIZE_def\<close>)
  from spsc_reachable_steps [OF spsc_step_producer [OF this] spsc_reachable.start]
  have r: "spsc_reachable 0 ?s" .
  have "ppc ?s = P_write sample_record 0" by simp
  from spsc_reachable_steps [OF works_spsc_steps(1) [OF store_run [OF this]] r] obtain t where
    t: "spsc_reachable 0 t" "ppc t = P_write sample_record (length sample_record)" by fastforce
  from spsc_commit_never_asserts [OF t] t(2) show ?thesis by blast
qed

text \<open>
  C32. The two threads never touch the same byte of the storage: while the producer writes a byte of
  its reservation, that byte is inside the storage and outside the span \<^verbatim>\<open>peek\<close> has handed to the
  backend.
\<close>

theorem spsc_no_data_race:
  assumes "spsc_reachable i s" "ppc s = P_write r k" "k < length r" "cpc s = C_run a"
  shows "producer_pos (buf s) + k < kSTAGING_BUFFER_SIZE
    \<and> (producer_pos (buf s) + k < consumer_pos (buf s)
       \<or> consumer_pos (buf s) + a \<le> producer_pos (buf s) + k)"
proof -
  from spsc_reachable_inv [OF assms(1)] assms(2-) have inv: "sb_inv (buf s)"
    and "length r < min_free_space (buf s)" "consumer_pos (buf s) + a \<le> segment_end (buf s)"
    by (auto simp: spsc_inv_def dest: sb_records_inv)
  with assms(3) show ?thesis by (auto simp: sb_inv_def segment_end_def split: if_splits)
qed

theorem spsc_no_data_race_witness:
  "\<exists>s :: spsc. ppc s = P_write sample_record 0 \<and> cpc s = C_run 32
     \<and> producer_pos (buf s) + 0 < kSTAGING_BUFFER_SIZE
     \<and> (producer_pos (buf s) + 0 < consumer_pos (buf s)
        \<or> consumer_pos (buf s) + 32 \<le> producer_pos (buf s) + 0)"
proof -
  obtain s where s: "spsc_reachable 0 s" "ppc s = P_idle" "cpc s = C_idle"
    "producer_pos (buf s) = 32" "consumer_pos (buf s) = 0"
    "min_free_space (buf s) = kSTAGING_BUFFER_SIZE - 32"
    by (rule sample_logged)
  let ?s1 = "s\<lparr>cpc := C_cached (producer_pos (buf s))\<rparr>" and ?s2 = "s\<lparr>cpc := C_run 32\<rparr>"
  have "consumer_step s ?s1" using s(3) by (rule consumer_step.c_read)
  moreover have "consumer_step ?s1 ?s2" using consumer_step.c_straight [of ?s1 32] s by simp
  moreover obtain t where "producer_step ?s2 t" "ppc t = P_write sample_record 0" "cpc t = C_run 32"
    using producer_step.p_fast [of ?s2 sample_record] s framed_sample_record
    by (fastforce simp: kSTAGING_BUFFER_SIZE_def)
  ultimately have t: "spsc_step\<^sup>*\<^sup>* s t" "ppc t = P_write sample_record 0" "cpc t = C_run 32"
    using spsc_stepsI2 spsc_step_producer by blast+
  note r = spsc_reachable_steps [OF t(1) s(1)]
  from spsc_no_data_race [OF r t(2) _ t(3)] t(2,3) show ?thesis by auto
qed

text \<open>
  C34. A thread that is not interrupted performs the atomic operations, and nothing else. If
  \<open>push_record\<close> logs a record, then wherever the producer is in its execution, its own steps
  lead on to exactly the state of \<open>push_record\<close>; if there is no room, the producer stays in its
  loop and commits nothing. Wherever the consumer is in one execution, its own steps lead on to the state
  after \<open>peek\<close>, reading the header and \<open>consume\<close>, or after \<open>peek\<close>
  alone if the buffer is empty.
\<close>

theorem spsc_implements_atomic_operations:
  assumes "ppc s = P_idle" "framed r" "sb_records (buf s) rs" "push_record r (buf s) = (ok, b)"
    and "cpc t = C_idle" "front_record_of (buf t) = (x, b')"
  shows "(\<exists>u. producer_run r s u)
    \<and> (\<forall>u. producer_run r s u \<longrightarrow>
         (if ok then producer_works\<^sup>*\<^sup>* u (s\<lparr>ppc := P_idle, buf := b, logged := logged s @ [r]\<rparr>)
          else waiting r (ppc u) \<and> logged u = logged s))
    \<and> (\<exists>u. consumer_run t u)
    \<and> (\<forall>u. consumer_run t u \<longrightarrow> consumer_works\<^sup>*\<^sup>* u
         (case x of None \<Rightarrow> t\<lparr>buf := b'\<rparr>
          | Some r' \<Rightarrow> t\<lparr>buf := drop_record r' b', delivered := delivered t @ [r']\<rparr>))"
proof (intro conjI allI impI)
  have p: "producer_run r s u \<longleftrightarrow> producer_works\<^sup>*\<^sup>* (begun r s) u" for u
    using producer_begins [OF assms(1,2)] unfolding producer_run_def by metis
  then show "\<exists>u. producer_run r s u" by blast
  fix u
  assume "producer_run r s u"
  then have u: "producer_works\<^sup>*\<^sup>* (begun r s) u" using p by blast
  show "if ok then producer_works\<^sup>*\<^sup>* u (s\<lparr>ppc := P_idle, buf := b, logged := logged s @ [r]\<rparr>)
      else waiting r (ppc u) \<and> logged u = logged s"
  proof (cases ok)
    case True
    with assms(4) have "push_record r (buf s) = (True, b)" by simp
    note w = push_record_works [OF this]
    have "producer_works\<^sup>*\<^sup>* u (s\<lparr>ppc := P_idle, buf := b, logged := logged s @ [r]\<rparr>)"
      by (rule deterministic_run [OF _ u w]) (erule (1) producer_works_deterministic, simp add: producer_works_def)
    with True show ?thesis by simp
  next
    case False
    with assms(4) have "push_record r (buf s) = (False, b)" by simp
    from waits_run [OF u push_record_waits [OF assms(3) this]] False show ?thesis
      using waits_waiting by (auto simp: begun_def)
  qed
next
  have c: "consumer_run t u \<longleftrightarrow> consumer_works\<^sup>*\<^sup>* (t\<lparr>cpc := C_cached (producer_pos (buf t))\<rparr>) u" for u
    using consumer_begins [OF assms(5)] by (auto simp: consumer_run_def)
  then show "\<exists>u. consumer_run t u" by blast
  fix u
  assume "consumer_run t u"
  then have u: "consumer_works\<^sup>*\<^sup>* (t\<lparr>cpc := C_cached (producer_pos (buf t))\<rparr>) u" using c by blast
  note w = take_record_works [OF assms(5,6)]
  show "consumer_works\<^sup>*\<^sup>* u (case x of None \<Rightarrow> t\<lparr>buf := b'\<rparr>
      | Some r' \<Rightarrow> t\<lparr>buf := drop_record r' b', delivered := delivered t @ [r']\<rparr>)"
    by (rule deterministic_run [OF _ u w])
      (erule (1) consumer_works_deterministic, use assms(5) in \<open>simp add: consumer_works_def split: option.split\<close>)
qed

theorem spsc_implements_atomic_operations_witness:
  "\<exists>t b b' u v.
     producer_run sample_record (spsc_init 0) u
     \<and> producer_works\<^sup>*\<^sup>* u ((spsc_init 0)\<lparr>ppc := P_idle, buf := b, logged := logged (spsc_init 0) @ [sample_record]\<rparr>)
     \<and> consumer_run t v
     \<and> consumer_works\<^sup>*\<^sup>* v (t\<lparr>buf := drop_record sample_record b', delivered := delivered t @ [sample_record]\<rparr>)"
proof -
  obtain b where b: "push_record sample_record (buf (spsc_init 0)) = (True, b)"
    using push_sample_record by (auto simp: spsc_init_def)
  have i: "ppc (spsc_init 0) = P_idle" by (simp add: spsc_init_def)
  have e: "sb_records (buf (spsc_init 0)) []" using sbq.init_holds by (simp add: spsc_init_def)
  obtain t where t: "spsc_reachable 0 t" "cpc t = C_idle" "logged t = [sample_record]" "delivered t = []"
    by (rule sample_logged)
  from spsc_reachable_inv [OF t(1)] t(3,4) have R: "sb_records (buf t) [sample_record]"
    by (auto simp: spsc_inv_def)
  obtain x b' where f: "front_record_of (buf t) = (x, b')" by fastforce
  with sbq.front_holds [OF R f] have "front_record_of (buf t) = (Some sample_record, b')" by simp
  from spsc_implements_atomic_operations [OF i framed_sample_record e b t(2) this]
  show ?thesis by (simp only: if_True option.case) blast
qed

end
