(* ===== verification/Printf.thy ===== *)
theory Printf
  imports ArgStore
begin

section \<open>What the code uses of snprintf\<close>

text \<open>
  The backend formats one conversion specification at a time with the C library's \<^verbatim>\<open>snprintf\<close>. This is
  the standard's description of that function for one specification and one argument: the parse of
  the specification, the argument it requires, and the text for the integer, character and string
  conversions. The text of a floating-point conversion is a parameter. Where the standard leaves the
  behaviour undefined the result is an error.
\<close>

text \<open>The argument passed after the format, after the default promotions.\<close>

datatype vararg =
    VInt32 "32 word"
  | VInt64 "64 word"
  | VFloat "32 word" \<comment> \<open>a \<^verbatim>\<open>float\<close>, by its representation, promoted to \<^verbatim>\<open>double\<close>\<close>
  | VDouble "64 word"
  | VString string \<comment> \<open>a pointer to these characters and a NUL\<close>

datatype printf_error =
    Bad_specification \<comment> \<open>not one conversion specification, or an invalid length modifier\<close>
  | Missing_argument \<comment> \<open>a \<open>*\<close> takes the only argument\<close>
  | Argument_mismatch \<comment> \<open>the argument is not of the type the specification requires\<close>
  | Output_too_long \<comment> \<open>more than \<^verbatim>\<open>INT_MAX\<close> characters\<close>

subsection \<open>The specification\<close>

definition parse_width :: "string \<Rightarrow> width \<times> string" where
  "parse_width s =
     (if s \<noteq> [] \<and> hd s = CHR ''*'' then (WStar, tl s)
      else (WDigits (takeWhile isDigit s), dropWhile isDigit s))"

definition parse_precision :: "string \<Rightarrow> precision \<times> string" where
  "parse_precision s =
     (if s \<noteq> [] \<and> hd s = CHR ''.'' then
        (if tl s \<noteq> [] \<and> hd (tl s) = CHR ''*'' then (PStar, tl (tl s))
         else (PDigits (takeWhile isDigit (tl s)), dropWhile isDigit (tl s)))
      else (PNone, s))"

definition parse_spec :: "string \<Rightarrow> item option" where
  "parse_spec s =
     (if s = [] \<or> hd s \<noteq> CHR ''%'' then None
      else
        (let flags = takeWhile isFlag (tl s);
             (width, s) = parse_width (dropWhile isFlag (tl s));
             (precision, s) = parse_precision s
         in case dropWhile isLength s of
              [t] \<Rightarrow> Some (Specifier flags width precision (takeWhile isLength s) t)
            | _ \<Rightarrow> None))"

lemma dropWhile_stop [scan_simps]:
  "list_all P xs \<Longrightarrow> \<not> P c \<Longrightarrow> dropWhile P (xs @ c # ys) = c # ys"
  by (induction xs) auto

lemma parse_width_item:
  assumes "width_ok w" "\<not> isDigit c" "c \<noteq> CHR ''*''"
  shows "parse_width (width_text w @ c # rest) = (w, c # rest)"
proof (cases w)
  case (WDigits ds)
  with assms(1,3) have "hd (ds @ c # rest) \<noteq> CHR ''*''"
    by (cases ds) (auto dest: digit_other)
  with WDigits assms(1,2) show ?thesis by (simp add: parse_width_def scan_simps)
qed (simp add: parse_width_def)

lemma parse_precision_item:
  assumes "precision_ok pr" "\<not> isDigit c" "c \<noteq> CHR ''*''" "c \<noteq> CHR ''.''"
  shows "parse_precision (precision_text pr @ c # rest) = (pr, c # rest)"
proof (cases pr)
  case (PDigits ds)
  with assms(1,3) have "hd (ds @ c # rest) \<noteq> CHR ''*''"
    by (cases ds) (auto dest: digit_other)
  with PDigits assms(1,2) show ?thesis by (simp add: parse_precision_def scan_simps)
qed (use assms(4) in \<open>simp_all add: parse_precision_def\<close>)

text \<open>A specification of the grammar is parsed into its parts.\<close>

lemma parse_spec_item_text:
  assumes "item_ok (Specifier fl w pr ln t)"
  shows "parse_spec (item_text (Specifier fl w pr ln t)) = Some (Specifier fl w pr ln t)"
proof -
  from assms have ok: "list_all isFlag fl" "width_ok w" "precision_ok pr" "list_all isLength ln"
    "isTerminal t" by simp_all
  obtain c rest where c: "width_text w @ precision_text pr @ ln @ [t] = c # rest" "\<not> isFlag c"
    using width_head [OF ok(2,4,5)] by metis
  obtain d rest' where d: "precision_text pr @ ln @ [t] = d # rest'" "\<not> isDigit d" "d \<noteq> CHR ''*''"
    using precision_head [OF ok(4,5)] by metis
  obtain e rest'' where e: "ln @ [t] = e # rest''" "\<not> isDigit e" "e \<noteq> CHR ''*''" "e \<noteq> CHR ''.''"
    using terminal_head [OF ok(4,5)] by metis
  have "parse_width (c # rest) = (w, d # rest')"
    using parse_width_item [OF ok(2) d(2,3), of rest'] c(1) d(1) by simp
  moreover have "parse_precision (d # rest') = (pr, ln @ [t])"
    using parse_precision_item [OF ok(3) e(2-4), of rest''] d(1) e(1) by simp
  moreover have "takeWhile isLength (ln @ [t]) = ln" "dropWhile isLength (ln @ [t]) = [t]"
    using ok(4) terminal_other(3) [OF ok(5)] by (simp_all add: scan_simps)
  ultimately show ?thesis
    using ok(1) c by (simp add: parse_spec_def scan_simps)
qed

subsection \<open>The text of a conversion\<close>

text \<open>The integer an argument holds for a length modifier, as signed or as unsigned.\<close>

definition signed_value :: "string \<Rightarrow> vararg \<Rightarrow> printf_error + int" where
  "signed_value ln v =
     (case v of
        VInt32 w \<Rightarrow>
          (if ln = [] then Inr (sint w)
           else if ln = ''h'' then Inr (sint (ucast w :: 16 word))
           else if ln = ''hh'' then Inr (sint (ucast w :: 8 word))
           else Inl Argument_mismatch)
      | VInt64 w \<Rightarrow>
          (if ln \<in> {''l'', ''ll'', ''j'', ''z'', ''t'', ''L''} then Inr (sint w)
           else Inl Argument_mismatch)
      | _ \<Rightarrow> Inl Argument_mismatch)"

definition unsigned_value :: "string \<Rightarrow> vararg \<Rightarrow> printf_error + nat" where
  "unsigned_value ln v =
     (case v of
        VInt32 w \<Rightarrow>
          (if ln = [] then Inr (unat w)
           else if ln = ''h'' then Inr (unat (ucast w :: 16 word))
           else if ln = ''hh'' then Inr (unat (ucast w :: 8 word))
           else Inl Argument_mismatch)
      | VInt64 w \<Rightarrow>
          (if ln \<in> {''l'', ''ll'', ''j'', ''z'', ''t'', ''L''} then Inr (unat w)
           else Inl Argument_mismatch)
      | _ \<Rightarrow> Inl Argument_mismatch)"

fun digits_in :: "nat \<Rightarrow> (nat \<Rightarrow> char) \<Rightarrow> nat \<Rightarrow> string" where
  "digits_in b dc n =
     (if b < 2 \<or> n = 0 then [] else digits_in b dc (n div b) @ [dc (n mod b)])"

declare digits_in.simps [simp del]

definition hex_digit :: "bool \<Rightarrow> nat \<Rightarrow> char" where
  "hex_digit upper d =
     (if d < 10 then char_of (48 + d) else if upper then char_of (55 + d) else char_of (87 + d))"

text \<open>The digits of a value with the precision's leading zeros: none for 0 with precision 0.\<close>

definition precision_digits :: "precision \<Rightarrow> string \<Rightarrow> string" where
  "precision_digits pr ds =
     (let k = (case pr of PDigits p \<Rightarrow> nat (digits_value 0 p) | _ \<Rightarrow> 1)
      in replicate (k - length ds) CHR ''0'' @ ds)"

text \<open>The field: sign or prefix, digits, and the padding to the width.\<close>

definition field :: "string \<Rightarrow> width \<Rightarrow> bool \<Rightarrow> string \<Rightarrow> string \<Rightarrow> string" where
  "field flags w zero_pad prefix body =
     (let k = (case w of WDigits ds \<Rightarrow> nat (digits_value 0 ds) | WStar \<Rightarrow> 0) - length (prefix @ body)
      in if CHR ''-'' \<in> set flags then prefix @ body @ replicate k CHR '' ''
         else if zero_pad \<and> CHR ''0'' \<in> set flags then prefix @ replicate k CHR ''0'' @ body
         else replicate k CHR '' '' @ prefix @ body)"

definition signed_text :: "string \<Rightarrow> width \<Rightarrow> precision \<Rightarrow> int \<Rightarrow> string" where
  "signed_text flags w pr i =
     field flags w (pr = PNone)
       (if i < 0 then ''-'' else if CHR ''+'' \<in> set flags then ''+''
        else if CHR '' '' \<in> set flags then '' '' else [])
       (precision_digits pr (digits_in 10 digit_char (nat \<bar>i\<bar>)))"

definition unsigned_text :: "string \<Rightarrow> width \<Rightarrow> precision \<Rightarrow> char \<Rightarrow> nat \<Rightarrow> string" where
  "unsigned_text flags w pr t n =
     (let alt = CHR ''#'' \<in> set flags;
          ds = precision_digits pr
            (if t = CHR ''u'' then digits_in 10 digit_char n
             else if t = CHR ''o'' then digits_in 8 digit_char n
             else digits_in 16 (hex_digit (t = CHR ''X'')) n);
          ds = (if alt \<and> t = CHR ''o'' \<and> (ds = [] \<or> hd ds \<noteq> CHR ''0'') then CHR ''0'' # ds else ds);
          prefix = (if alt \<and> n \<noteq> 0 \<and> (t = CHR ''x'' \<or> t = CHR ''X'') then [CHR ''0'', t] else [])
      in field flags w (pr = PNone) prefix ds)"

definition is_float_conversion :: "char \<Rightarrow> bool" where
  "is_float_conversion t \<longleftrightarrow> t \<in> {CHR ''f'', CHR ''F'', CHR ''e'', CHR ''E'', CHR ''g'', CHR ''G'', CHR ''a'', CHR ''A''}"

text \<open>The text for one specification and one argument.\<close>

definition conversion_text ::
  "(item \<Rightarrow> vararg \<Rightarrow> string) \<Rightarrow> item \<Rightarrow> vararg \<Rightarrow> printf_error + string" where
  "conversion_text float_text it v =
     (case it of
        Specifier flags w pr ln t \<Rightarrow>
          (if w = WStar \<or> pr = PStar then Inl Missing_argument
           else if t = CHR ''d'' \<or> t = CHR ''i''
           then sum_bind (signed_value ln v) (\<lambda>i. Inr (signed_text flags w pr i))
           else if t \<in> {CHR ''u'', CHR ''o'', CHR ''x'', CHR ''X''}
           then sum_bind (unsigned_value ln v) (\<lambda>n. Inr (unsigned_text flags w pr t n))
           else if t = CHR ''c'' then
             (case v of
                VInt32 w' \<Rightarrow> (if ln = [] then Inr (field flags w False [] [char_of (unat w')])
                             else Inl Argument_mismatch)
              | _ \<Rightarrow> Inl Argument_mismatch)
           else if t = CHR ''s'' then
             (case v of
                VString s \<Rightarrow>
                  (if ln = []
                   then Inr (field flags w False []
                     (case pr of PDigits p \<Rightarrow> take (nat (digits_value 0 p)) s | _ \<Rightarrow> s))
                   else Inl Argument_mismatch)
              | _ \<Rightarrow> Inl Argument_mismatch)
           else if is_float_conversion t then
             (case v of
                VFloat w \<Rightarrow> (if ln \<in> {[], ''l''} then Inr (float_text it v) else Inl Argument_mismatch)
              | VDouble w \<Rightarrow> (if ln \<in> {[], ''l''} then Inr (float_text it v) else Inl Argument_mismatch)
              | _ \<Rightarrow> Inl Argument_mismatch)
           else Inl Argument_mismatch)
      | _ \<Rightarrow> Inl Bad_specification)"

definition printf_text ::
  "(item \<Rightarrow> vararg \<Rightarrow> string) \<Rightarrow> string \<Rightarrow> vararg \<Rightarrow> printf_error + string" where
  "printf_text float_text fmt v =
     (case parse_spec fmt of
        None \<Rightarrow> Inl Bad_specification
      | Some it \<Rightarrow> sum_bind (conversion_text float_text it v)
          (\<lambda>s. if INT_MAX < int (length s) then Inl Output_too_long else Inr s))"

text \<open>What \<^verbatim>\<open>snprintf(p, n, ...)\<close> stores for a text: at most \<open>n\<close> bytes with the NUL, none for 0.\<close>

definition snprintf_bytes :: "nat \<Rightarrow> string \<Rightarrow> byte list" where
  "snprintf_bytes n s = (if n = 0 then [] else take (n - 1) s @ [NUL])"

lemma length_snprintf_bytes: "length (snprintf_bytes n s) = min n (length s + 1)"
  by (auto simp: snprintf_bytes_def min_def)

lemma snprintf_bytes_fit: "length s < n \<Longrightarrow> snprintf_bytes n s = s @ [NUL]"
  by (simp add: snprintf_bytes_def)

end
