(* ===== verification/Decode.thy ===== *)
theory Decode
  imports Printf
begin

section \<open>Formatting a record\<close>

text \<open>
  \<^verbatim>\<open>resize_log_buffer\<close>, \<^verbatim>\<open>decodeNonStringFmt\<close>, \<^verbatim>\<open>decodeStringFmt\<close> and \<^verbatim>\<open>process_fmt\<close> of
  \<^verbatim>\<open>src/src/static_log_backend.cc\<close>. The log buffer is a heap block with its address, so that a pointer
  into it is a pair of a block and an offset, and a pointer kept across a reallocation is seen to
  dangle. Every write checks the size of the block. Reference parameters are returned.
\<close>

subsection \<open>The log buffer and its surroundings\<close>

text \<open>
  \<^verbatim>\<open>log_buffer_\<close> and \<^verbatim>\<open>bufflen_\<close>. The bytes of a fresh block are unspecified: \<open>content\<close> beyond what has
  been written is arbitrary.
\<close>

record log_buffer =
  addr :: nat
  content :: mem
  bufflen :: nat

text \<open>
  What the environment decides: the address \<^verbatim>\<open>malloc\<close> gives for a size while the log buffer lies at
  an address (0 for failure), whether assertions are compiled in, and the text of floating-point
  conversions.
\<close>

record environment =
  malloc :: "nat \<Rightarrow> nat \<Rightarrow> nat"
  asserts :: bool
  float_text :: "item \<Rightarrow> vararg \<Rightarrow> string"

datatype decode_error =
    Buffer_overflow \<comment> \<open>a write beyond the log buffer\<close>
  | Use_after_free \<comment> \<open>a write or difference with a pointer into a freed block\<close>
  | Pointer_underflow \<comment> \<open>a pointer moved before the block\<close>
  | Format_overread \<comment> \<open>the format is read beyond its NUL\<close>
  | Unterminated_format \<comment> \<open>a copied specification without a NUL is used as a string\<close>
  | Param_overread \<comment> \<open>the parameter arrays are read beyond their end\<close>
  | Decode_assertion
  | Snprintf printf_error
  | Retry_limit \<comment> \<open>the bound of the model on \<^verbatim>\<open>goto retry\<close>\<close>

definition lb_write :: "log_buffer \<Rightarrow> nat \<Rightarrow> byte list \<Rightarrow> decode_error + log_buffer" where
  "lb_write lb pos bs =
     (if bs \<noteq> [] \<and> bufflen lb < pos + length bs then Inl Buffer_overflow
      else Inr (lb\<lparr>content := mem_write (content lb) pos bs\<rparr>))"

text \<open>\<^verbatim>\<open>snprintf(log_buffer + pos, n, fmt, v)\<close>.\<close>

definition snprintf_at ::
  "environment \<Rightarrow> log_buffer \<Rightarrow> nat \<Rightarrow> nat \<Rightarrow> string \<Rightarrow> vararg \<Rightarrow> decode_error + (nat \<times> log_buffer)" where
  "snprintf_at env lb pos n fmt v =
     (case printf_text (float_text env) fmt v of
        Inl e \<Rightarrow> Inl (Snprintf e)
      | Inr s \<Rightarrow> sum_bind (lb_write lb pos (snprintf_bytes n s)) (\<lambda>lb. Inr (length s, lb)))"

definition resize_log_buffer ::
  "environment \<Rightarrow> log_buffer \<Rightarrow> nat \<Rightarrow> decode_error + (int \<times> log_buffer)" where
  "resize_log_buffer env lb new_size =
     (let buffer = malloc env (addr lb) new_size
      in if buffer = 0 then Inr (- 1, lb)
         else if new_size < bufflen lb then Inl Buffer_overflow
         else Inr (0, lb\<lparr>addr := buffer, bufflen := new_size\<rparr>))"

subsection \<open>decodeNonStringFmt\<close>

text \<open>
  The switch over the size and the conversion: the argument of the \<^verbatim>\<open>snprintf\<close> call and whether the
  call is bounded by \<^verbatim>\<open>reserved\<close> (only for \<open>%c\<close>) or by \<^verbatim>\<open>log_buffer_len\<close>; nothing for the branches
  that only report an error.
\<close>

definition is_signed_conversion :: "char \<Rightarrow> bool" where
  "is_signed_conversion t \<longleftrightarrow> t = CHR ''d'' \<or> t = CHR ''i''"

definition is_unsigned_conversion :: "char \<Rightarrow> bool" where
  "is_unsigned_conversion t \<longleftrightarrow> t = CHR ''u'' \<or> t = CHR ''o'' \<or> t = CHR ''x'' \<or> t = CHR ''X''"

definition passed_argument :: "nat \<Rightarrow> char \<Rightarrow> mem \<Rightarrow> nat \<Rightarrow> (bool \<times> vararg) option" where
  "passed_argument param_size t pm param =
     (let v = le_nat (mem_read pm param param_size)
      in if param_size = 1 then
           (if t = CHR ''c'' then Some (True, VInt32 (scast (of_nat v :: 8 word)))
            else if is_signed_conversion t then Some (False, VInt32 (scast (of_nat v :: 8 word)))
            else if is_unsigned_conversion t then Some (False, VInt32 (ucast (of_nat v :: 8 word)))
            else None)
         else if param_size = 2 then
           (if is_signed_conversion t then Some (False, VInt32 (scast (of_nat v :: 16 word)))
            else if is_unsigned_conversion t then Some (False, VInt32 (ucast (of_nat v :: 16 word)))
            else None)
         else if param_size = 4 then
           (if is_signed_conversion t \<or> is_unsigned_conversion t then Some (False, VInt32 (of_nat v))
            else if is_float_conversion t then Some (False, VFloat (of_nat v))
            else None)
         else if param_size = 8 then
           (if is_signed_conversion t \<or> is_unsigned_conversion t then Some (False, VInt64 (of_nat v))
            else if is_float_conversion t then Some (False, VDouble (of_nat v))
            else None)
         else None)"

text \<open>
  The attempts: after a resize the code starts over. The result is the return value, the log buffer
  and \<^verbatim>\<open>reserved\<close>.
\<close>

fun decodeNonStringFmt ::
  "environment \<Rightarrow> nat \<Rightarrow> log_buffer \<Rightarrow> nat \<Rightarrow> nat \<Rightarrow> string \<Rightarrow> mem \<Rightarrow> nat \<Rightarrow> nat
     \<Rightarrow> decode_error + (int \<times> log_buffer \<times> nat)" where
  "decodeNonStringFmt env 0 lb reserved start_pos fmt pm param param_size = Inl Retry_limit"
| "decodeNonStringFmt env (Suc retries) lb reserved start_pos fmt pm param param_size =
     (case passed_argument param_size (last fmt) pm param of
        None \<Rightarrow> Inr (0, lb, reserved)
      | Some (bounded, v) \<Rightarrow>
          sum_bind (snprintf_at env lb start_pos (if bounded then reserved else bufflen lb) fmt v)
            (\<lambda>(fmt_len, lb).
               if reserved \<le> fmt_len then
                 sum_bind (resize_log_buffer env lb (sub64 (2 * fmt_len + bufflen lb) reserved))
                   (\<lambda>(ret, lb).
                      if ret < 0 then Inr (- 1, lb, reserved)
                      else decodeNonStringFmt env retries lb (sub64 (bufflen lb) start_pos) start_pos
                             fmt pm param param_size)
               else Inr (int fmt_len, lb, reserved)))"

subsection \<open>decodeStringFmt\<close>

definition DEFAULT_PARAM_CACHE_SIZE :: nat where
  "DEFAULT_PARAM_CACHE_SIZE = 1024"

text \<open>The string in \<^verbatim>\<open>param_buffer\<close>: the characters stored, up to a NUL among them or the one appended.\<close>

definition c_string_at :: "mem \<Rightarrow> nat \<Rightarrow> nat \<Rightarrow> string" where
  "c_string_at pm param param_size = takeWhile (\<lambda>c. c \<noteq> NUL) (mem_read pm param param_size)"

definition decodeStringFmt ::
  "environment \<Rightarrow> log_buffer \<Rightarrow> nat \<Rightarrow> nat \<Rightarrow> mem \<Rightarrow> nat \<Rightarrow> nat \<Rightarrow> string
     \<Rightarrow> decode_error + (int \<times> log_buffer \<times> nat)" where
  "decodeStringFmt env lb reserved start_pos pm param param_size fmt =
     (if asserts env \<and> sub64 (addr lb) start_pos \<noteq> sub64 (bufflen lb) reserved
      then Inl Decode_assertion
      else if DEFAULT_PARAM_CACHE_SIZE \<le> param_size \<and> malloc env (addr lb) (param_size + 1) = 0
      then Inr (- 1, lb, reserved)
      else
        (let v = VString (c_string_at pm param param_size)
         in sum_bind (snprintf_at env lb start_pos reserved fmt v)
              (\<lambda>(needed_fmt_len, lb).
                 if reserved < needed_fmt_len then
                   (let new_log_buflen = sub64 (needed_fmt_len + 1 + bufflen lb) reserved;
                        tmp = malloc env (addr lb) new_log_buflen
                    in if tmp = 0 then Inr (- 1, lb, reserved)
                       else
                         (let reserved = sub64 (new_log_buflen + reserved) (bufflen lb)
                          in if bufflen lb < start_pos \<or> new_log_buflen < start_pos then Inl Buffer_overflow
                             else sum_bind
                               (snprintf_at env (lb\<lparr>addr := tmp, bufflen := new_log_buflen\<rparr>)
                                  start_pos (needed_fmt_len + 1) fmt v)
                               (\<lambda>(_, lb). Inr (int needed_fmt_len, lb, reserved))))
                 else Inr (int needed_fmt_len, lb, reserved))))"

subsection \<open>process_fmt\<close>

text \<open>\<^verbatim>\<open>log_pos\<close>: the block it points into and the offset.\<close>

type_synonym log_pointer = "nat \<times> nat"

definition lb_put :: "log_buffer \<Rightarrow> log_pointer \<Rightarrow> char \<Rightarrow> decode_error + log_buffer" where
  "lb_put lb log_pos c =
     (if fst log_pos \<noteq> addr lb then Inl Use_after_free else lb_write lb (snd log_pos) [c])"

definition advance :: "log_pointer \<Rightarrow> int \<Rightarrow> decode_error + log_pointer" where
  "advance log_pos d =
     (if int (snd log_pos) + d < 0 then Inl Pointer_underflow
      else Inr (fst log_pos, nat (int (snd log_pos) + d)))"

text \<open>The position of the first conversion character; none if the scan passes the NUL.\<close>

definition scan_terminal :: "string \<Rightarrow> nat \<Rightarrow> nat option" where
  "scan_terminal fmt pos =
     (let n = length (takeWhile (\<lambda>c. \<not> isTerminal c) (drop pos fmt))
      in if pos + n < length fmt then Some (pos + n) else None)"

definition retry_bound :: nat where
  "retry_bound = 3"

text \<open>
  One specification, copied into \<^verbatim>\<open>fmt_single\<close>: the parameter is fetched and formatted. The result is
  whether the loop goes on, with \<^verbatim>\<open>param_list\<close>, \<^verbatim>\<open>log_pos\<close>, \<^verbatim>\<open>reserved\<close> and the log buffer.
\<close>

definition process_param ::
  "environment \<Rightarrow> ParamType list \<Rightarrow> nat list \<Rightarrow> mem \<Rightarrow> string \<Rightarrow> nat \<Rightarrow> nat \<Rightarrow> log_pointer \<Rightarrow> nat
     \<Rightarrow> log_buffer \<Rightarrow> decode_error + (bool \<times> nat \<times> log_pointer \<times> nat \<times> log_buffer)" where
  "process_param env types param_size_list pm fmt_single param_idx param_list log_pos reserved lb =
     (if length types \<le> param_idx then Inl Param_overread
      else if 100 \<le> length fmt_single then Inl Unterminated_format
      else if fst log_pos \<noteq> addr lb then Inl Use_after_free
      else if kNON_STRING < types ! param_idx then
        (let string_size = le_nat (mem_read pm param_list 4);
             param_list = param_list + 4
         in sum_bind (decodeStringFmt env lb reserved (snd log_pos) pm param_list string_size fmt_single)
              (\<lambda>(log_fmt_len, lb, reserved).
                 sum_bind (advance log_pos log_fmt_len) (\<lambda>log_pos.
                   Inr (True, param_list + string_size, log_pos,
                        nat ((int reserved - log_fmt_len) mod 2 ^ 64), lb))))
      else if length param_size_list \<le> param_idx then Inl Param_overread
      else
        sum_bind (decodeNonStringFmt env retry_bound lb reserved (snd log_pos) fmt_single pm param_list
                    (param_size_list ! param_idx))
          (\<lambda>(log_fmt_len, lb, reserved).
             if log_fmt_len = - 1 then Inr (False, param_list, log_pos, reserved, lb)
             else
               sum_bind (advance log_pos log_fmt_len) (\<lambda>log_pos.
                 Inr (True, param_list + param_size_list ! param_idx, log_pos,
                      nat ((int reserved - log_fmt_len) mod 2 ^ 64), lb))))"

text \<open>The loop: its result is \<^verbatim>\<open>success\<close>, the log buffer and \<^verbatim>\<open>reserved\<close>.\<close>

function process_fmt_loop ::
  "environment \<Rightarrow> string \<Rightarrow> nat \<Rightarrow> ParamType list \<Rightarrow> nat list \<Rightarrow> mem \<Rightarrow> nat \<Rightarrow> nat \<Rightarrow> nat
     \<Rightarrow> log_pointer \<Rightarrow> nat \<Rightarrow> log_buffer \<Rightarrow> decode_error + (bool \<times> log_buffer \<times> nat)" where
  "process_fmt_loop env fmt num_params types param_size_list pm pos param_idx param_list log_pos
       reserved lb =
     (if \<not> pos < length fmt then Inr (True, lb, reserved)
      else if fmt ! pos \<noteq> CHR ''%'' then
        sum_bind (lb_put lb log_pos (fmt ! pos)) (\<lambda>lb.
          process_fmt_loop env fmt num_params types param_size_list pm (pos + 1) param_idx param_list
            (fst log_pos, snd log_pos + 1) (sub64 reserved 1) lb)
      else if pos + 1 < length fmt \<and> fmt ! (pos + 1) = CHR ''%'' then
        sum_bind (lb_put lb log_pos CHR ''%'') (\<lambda>lb.
          process_fmt_loop env fmt num_params types param_size_list pm (pos + 2) param_idx param_list
            (fst log_pos, snd log_pos + 1) (sub64 reserved 1) lb)
      else
        (case scan_terminal fmt (pos + 1) of
           None \<Rightarrow> Inl Format_overread
         | Some e \<Rightarrow>
             (let fmt_single = take (e + 1 - pos) (drop pos fmt)
              in if \<not> param_idx < num_params then Inr (False, lb, reserved)
                 else sum_bind
                   (process_param env types param_size_list pm fmt_single param_idx param_list log_pos
                      reserved lb)
                   (\<lambda>(continue, param_list, log_pos, reserved, lb).
                      if \<not> continue then Inr (False, lb, reserved)
                      else process_fmt_loop env fmt num_params types param_size_list pm (e + 1)
                             (param_idx + 1) param_list log_pos reserved lb))))"
  by pat_completeness auto

termination
  by (relation "measure (\<lambda>(env, fmt, n, types, sizes, pm, pos, rest). length fmt - pos)")
     (auto simp: scan_terminal_def Let_def split: if_splits)

definition process_fmt ::
  "environment \<Rightarrow> string \<Rightarrow> nat \<Rightarrow> ParamType list \<Rightarrow> nat list \<Rightarrow> mem \<Rightarrow> nat \<Rightarrow> log_buffer \<Rightarrow> nat
     \<Rightarrow> decode_error + (int \<times> log_buffer)" where
  "process_fmt env fmt num_params types param_size_list pm param_list lb start_pos =
     sum_bind (process_fmt_loop env fmt num_params types param_size_list pm 0 0 param_list
                 (addr lb, start_pos) (sub64 (bufflen lb) start_pos) lb)
       (\<lambda>(success, lb, reserved).
          Inr (if success then sint (of_nat (sub64 (bufflen lb) reserved) :: 32 word) else - 1, lb))"

declare process_fmt_loop.simps [simp del]

subsection \<open>Reference: what printf prints\<close>

text \<open>The default promotions of an argument.\<close>

primrec promote :: "arg \<Rightarrow> vararg" where
  "promote (AI8 w) = VInt32 (scast w)" | "promote (AU8 w) = VInt32 (ucast w)"
| "promote (AI16 w) = VInt32 (scast w)" | "promote (AU16 w) = VInt32 (ucast w)"
| "promote (AI32 w) = VInt32 w" | "promote (AU32 w) = VInt32 w"
| "promote (AI64 w) = VInt64 w" | "promote (AU64 w) = VInt64 w"
| "promote (AF32 w) = VFloat w" | "promote (AF64 w) = VDouble w"
| "promote (APtr w) = VInt64 w"
| "promote (AStr a s) = VString s"
| "promote (AWStr a c) = VInt64 a"

text \<open>The text of a format applied to its arguments, item after item.\<close>

fun format_args :: "(item \<Rightarrow> vararg \<Rightarrow> string) \<Rightarrow> item list \<Rightarrow> arg list \<Rightarrow> printf_error + string" where
  "format_args ff [] as = Inr []"
| "format_args ff (Literal c # its) as = sum_bind (format_args ff its as) (\<lambda>s. Inr (c # s))"
| "format_args ff (Escape # its) as = sum_bind (format_args ff its as) (\<lambda>s. Inr (CHR ''%'' # s))"
| "format_args ff (Specifier fl w pr ln t # its) [] = Inl Missing_argument"
| "format_args ff (Specifier fl w pr ln t # its) (a # as) =
     sum_bind (conversion_text ff (Specifier fl w pr ln t) (promote a)) (\<lambda>s.
     sum_bind (format_args ff its as) (\<lambda>s'. Inr (s @ s')))"

text \<open>
  The pairs of conversion and argument the backend handles: integers of 8 and 16 bits of the
  conversion's signedness, wider ones and floating-point values, bytes as characters, strings.
\<close>

fun convertible :: "char \<Rightarrow> arg \<Rightarrow> bool" where
  "convertible t (AI8 w) \<longleftrightarrow> is_signed_conversion t \<or> t = CHR ''c''"
| "convertible t (AU8 w) \<longleftrightarrow> is_unsigned_conversion t \<or> t = CHR ''c''"
| "convertible t (AI16 w) \<longleftrightarrow> is_signed_conversion t"
| "convertible t (AU16 w) \<longleftrightarrow> is_unsigned_conversion t"
| "convertible t (AI32 w) \<longleftrightarrow> is_signed_conversion t \<or> is_unsigned_conversion t"
| "convertible t (AU32 w) \<longleftrightarrow> is_signed_conversion t \<or> is_unsigned_conversion t"
| "convertible t (AI64 w) \<longleftrightarrow> is_signed_conversion t \<or> is_unsigned_conversion t"
| "convertible t (AU64 w) \<longleftrightarrow> is_signed_conversion t \<or> is_unsigned_conversion t"
| "convertible t (AF32 w) \<longleftrightarrow> is_float_conversion t"
| "convertible t (AF64 w) \<longleftrightarrow> is_float_conversion t"
| "convertible t (AStr a s) \<longleftrightarrow> t = CHR ''s'' \<and> NUL \<notin> set s \<and> length s < 2 ^ 32"
| "convertible t _ \<longleftrightarrow> False"

text \<open>Formats whose specifications take one parameter each and fit the 100-byte cache.\<close>

fun plain_item :: "item \<Rightarrow> bool" where
  "plain_item (Specifier fl w pr ln t) \<longleftrightarrow>
     w \<noteq> WStar \<and> pr \<noteq> PStar \<and> length (item_text (Specifier fl w pr ln t)) < 100"
| "plain_item _ \<longleftrightarrow> True"

fun args_fit :: "item list \<Rightarrow> arg list \<Rightarrow> bool" where
  "args_fit [] as \<longleftrightarrow> as = []"
| "args_fit (Literal c # its) as \<longleftrightarrow> args_fit its as"
| "args_fit (Escape # its) as \<longleftrightarrow> args_fit its as"
| "args_fit (Specifier fl w pr ln t # its) [] \<longleftrightarrow> False"
| "args_fit (Specifier fl w pr ln t # its) (a # as) \<longleftrightarrow> convertible t a \<and> args_fit its as"

subsection \<open>The parameter read back\<close>

lemmas conversion_defs = is_signed_conversion_def is_unsigned_conversion_def is_float_conversion_def

lemma of_nat_unat_mod:
  "(of_nat (unat w8 mod 256) :: 8 word) = w8"
  "(of_nat (unat w16 mod 65536) :: 16 word) = w16"
  "(of_nat (unat w32 mod 4294967296) :: 32 word) = w32"
  "(of_nat (unat w64 mod 18446744073709551616) :: 64 word) = w64"
proof -
  have "unat w8 < 256" "unat w16 < 65536" "unat w32 < 4294967296" "unat w64 < 18446744073709551616"
    using unsigned_less [of w8, where ?'a = nat] unsigned_less [of w16, where ?'a = nat]
      unsigned_less [of w32, where ?'a = nat] unsigned_less [of w64, where ?'a = nat] by simp_all
  then show "(of_nat (unat w8 mod 256) :: 8 word) = w8" "(of_nat (unat w16 mod 65536) :: 16 word) = w16"
    "(of_nat (unat w32 mod 4294967296) :: 32 word) = w32"
    "(of_nat (unat w64 mod 18446744073709551616) :: 64 word) = w64" by simp_all
qed

lemma char_of_sign_extended:
  "(char_of (unat (scast (w :: 8 word) :: 32 word)) :: char) = char_of (unat (ucast w :: 32 word))"
proof -
  have "unat (scast w :: 32 word) mod 256 = unat (ucast w :: 32 word) mod 256"
  proof -
    have "ucast (scast w :: 32 word) = w" "ucast (ucast w :: 32 word) = w"
      by (rule bit_word_eqI; simp add: bit_simps)+
    then have "unat (ucast (scast w :: 32 word) :: 8 word) = unat (ucast (ucast w :: 32 word) :: 8 word)"
      by simp
    moreover have "unat (ucast x :: 8 word) = unat x mod 256" for x :: "32 word"
      by (simp add: unsigned_ucast_eq take_bit_eq_mod)
    ultimately show ?thesis by metis
  qed
  then show ?thesis by (metis char_of_mod_256)
qed

lemma conversions_disjoint:
  "is_unsigned_conversion t \<Longrightarrow> \<not> is_signed_conversion t \<and> t \<noteq> CHR ''c''"
  "is_float_conversion t \<Longrightarrow> \<not> is_signed_conversion t \<and> \<not> is_unsigned_conversion t"
  by (auto simp: conversion_defs)

text \<open>
  A stored argument is read back as the value its promotion has; for a byte converted with \<open>%c\<close> the
  sign may differ, which the conversion does not see.
\<close>

lemma passed_argument_stored:
  assumes "convertible t a" "t \<noteq> CHR ''s''" "mem_read pm p (sizeof_arg a) = arg_bytes a"
  shows "\<exists>bounded v. passed_argument (sizeof_arg a) t pm p = Some (bounded, v)
    \<and> conversion_text ff (Specifier fl w pr ln t) v = conversion_text ff (Specifier fl w pr ln t) (promote a)"
proof (cases "t = CHR ''c'' \<and> (\<exists>w. a = AU8 w)")
  case True
  with assms(3) show ?thesis
    by (auto simp: passed_argument_def Let_def of_nat_unat_mod conversion_text_def char_of_sign_extended)
next
  case False
  from False assms conversions_disjoint [of t] show ?thesis
    by (cases a) (auto simp add: passed_argument_def Let_def of_nat_unat_mod)
qed

subsection \<open>One parameter\<close>

lemma snprintf_at_fit:
  assumes "parse_spec fmt = Some it" "conversion_text (float_text env) it v = Inr s"
    "length s < n" "pos + length s < bufflen lb" "bufflen lb < 2 ^ 31"
  shows "snprintf_at env lb pos n fmt v =
    Inr (length s, lb\<lparr>content := mem_write (content lb) pos (s @ [NUL])\<rparr>)"
  using assms
  by (simp add: snprintf_at_def printf_text_def INT_MAX_def snprintf_bytes_fit lb_write_def)

text \<open>The specification, the argument and its text, and the state the parameter is formatted in.\<close>

lemma decodeNonStringFmt_fit:
  assumes "item_ok (Specifier fl w pr ln t)" "convertible t a" "t \<noteq> CHR ''s''"
    "conversion_text (float_text env) (Specifier fl w pr ln t) (promote a) = Inr s"
    "mem_read pm p (sizeof_arg a) = arg_bytes a"
    "pos + length s < bufflen lb" "bufflen lb < 2 ^ 31" "0 < retries"
  shows "decodeNonStringFmt env retries lb (bufflen lb - pos) pos
      (item_text (Specifier fl w pr ln t)) pm p (sizeof_arg a) =
    Inr (int (length s), lb\<lparr>content := mem_write (content lb) pos (s @ [NUL])\<rparr>, bufflen lb - pos)"
proof -
  let ?it = "Specifier fl w pr ln t"
  obtain bounded v where pa: "passed_argument (sizeof_arg a) t pm p = Some (bounded, v)"
    and v: "conversion_text (float_text env) ?it v = Inr s"
    using passed_argument_stored [OF assms(2,3,5)] assms(4) by metis
  have sn: "snprintf_at env lb pos (if bounded then bufflen lb - pos else bufflen lb) (item_text ?it) v =
      Inr (length s, lb\<lparr>content := mem_write (content lb) pos (s @ [NUL])\<rparr>)"
    by (rule snprintf_at_fit [OF parse_spec_item_text [OF assms(1)] v _ assms(6,7)])
       (use assms(6) in auto)
  obtain r where r: "retries = Suc r" using assms(8) by (cases retries) auto
  have "last (item_text ?it) = t" by simp
  moreover have "\<not> bufflen lb - pos \<le> length s" using assms(6) by simp
  ultimately show ?thesis using pa sn r by (simp del: item_text.simps)
qed

lemma c_string_at_read: "mem_read pm p n = s \<Longrightarrow> NUL \<notin> set s \<Longrightarrow> c_string_at pm p n = s"
  by (auto simp: c_string_at_def takeWhile_eq_all_conv)

lemma decodeStringFmt_fit:
  assumes "item_ok (Specifier fl w pr ln t)" "NUL \<notin> set str"
    "conversion_text (float_text env) (Specifier fl w pr ln t) (VString str) = Inr s"
    "mem_read pm p (length str) = str" "\<not> asserts env" "\<And>k. malloc env (addr lb) k \<noteq> 0"
    "pos + length s < bufflen lb" "bufflen lb < 2 ^ 31"
  shows "decodeStringFmt env lb (bufflen lb - pos) pos pm p (length str)
      (item_text (Specifier fl w pr ln t)) =
    Inr (int (length s), lb\<lparr>content := mem_write (content lb) pos (s @ [NUL])\<rparr>, bufflen lb - pos)"
proof -
  let ?it = "Specifier fl w pr ln t"
  have sn: "snprintf_at env lb pos (bufflen lb - pos) (item_text ?it) (VString str) =
      Inr (length s, lb\<lparr>content := mem_write (content lb) pos (s @ [NUL])\<rparr>)"
    by (rule snprintf_at_fit [OF parse_spec_item_text [OF assms(1)] assms(3) _ assms(7,8)])
       (use assms(7) in auto)
  moreover have "c_string_at pm p (length str) = str" using assms(2,4) by (rule c_string_at_read [rotated])
  moreover have "\<not> bufflen lb - pos < length s" using assms(7) by simp
  ultimately show ?thesis
    using assms(5,6) by (simp add: decodeStringFmt_def del: item_text.simps)
qed

lemma nat_mod_64: "0 \<le> i \<Longrightarrow> i < 2 ^ 64 \<Longrightarrow> nat (i mod 2 ^ 64) = nat i"
  by simp

lemma process_param_fit:
  assumes it: "item_ok (Specifier fl w pr ln t)" "plain_item (Specifier fl w pr ln t)" "convertible t a"
    and ct: "conversion_text (float_text env) (Specifier fl w pr ln t) (promote a) = Inr s"
    and ty: "idx < length types" "types ! idx = (if t = CHR ''s'' then string_param pr else kNON_STRING)"
    and sz: "idx < length sizes" "\<not> is_str a \<Longrightarrow> sizes ! idx = sizeof_arg a"
    and pm: "mem_read pm p (length (arg_image (types ! idx) pp a)) = arg_image (types ! idx) pp a"
    and env: "\<not> asserts env" "\<And>k. malloc env (addr lb) k \<noteq> 0"
    and fit: "off + length s < bufflen lb" "bufflen lb < 2 ^ 31"
  shows "process_param env types sizes pm (item_text (Specifier fl w pr ln t)) idx p (addr lb, off)
      (bufflen lb - off) lb =
    Inr (True, p + length (arg_image (types ! idx) pp a), (addr lb, off + length s),
      bufflen lb - (off + length s), lb\<lparr>content := mem_write (content lb) off (s @ [NUL])\<rparr>)"
proof -
  let ?it = "Specifier fl w pr ln t"
  have res: "nat ((int (bufflen lb - off) - int (length s)) mod 2 ^ 64) = bufflen lb - (off + length s)"
  proof -
    have "int (bufflen lb - off) - int (length s) = int (bufflen lb - (off + length s))"
      using fit(1) by simp
    then show ?thesis using fit by (subst nat_mod_64) simp_all
  qed
  have adv: "advance (addr lb, off) (int (length s)) = Inr (addr lb, off + length s)"
    by (simp add: advance_def)
  have len: "length (item_text ?it) < 100" using it(2) by simp
  show ?thesis
  proof (cases "t = CHR ''s''")
    case False
    with it(3) have a: "\<not> is_str a" "arg_image (types ! idx) pp a = arg_bytes a" by (cases a; simp)+
    have "\<not> kNON_STRING < types ! idx" using ty(2) False by simp
    moreover have "mem_read pm p (sizeof_arg a) = arg_bytes a" using pm a(2) by simp
    note d = decodeNonStringFmt_fit [OF it(1,3) False ct this fit, of retry_bound]
    ultimately show ?thesis
      using ty(1) sz a len adv res d
      by (simp add: process_param_def retry_bound_def del: item_text.simps)
  next
    case True
    then obtain ad str where a: "a = AStr ad str" "NUL \<notin> set str" "length str < 2 ^ 32"
      using it(3) by (cases a) (auto simp: conversion_defs)
    have pr: "string_param pr \<noteq> kSTRING_WITH_DYNAMIC_PRECISION" "kNON_STRING < string_param pr"
      using it(2) by (cases pr; simp add: param_order)+
    then have np: "\<not> string_param pr \<le> kNON_STRING" by (meson leD)
    have im: "arg_image (types ! idx) pp a = le_bytes 4 (length str) @ str"
      using ty(2) True a(1) np pr(1) by (simp add: stored_length_def)
    have r: "mem_read pm p (4 + length str) = le_bytes 4 (length str) @ str" using pm im by simp
    then have sz4: "le_nat (mem_read pm p 4) = length str" and rs: "mem_read pm (p + 4) (length str) = str"
      using a(3) by (simp_all add: mem_read_append)
    from decodeStringFmt_fit [OF it(1) a(2) _ rs env fit] ct a(1)
    have d: "decodeStringFmt env lb (bufflen lb - off) off pm (p + 4) (length str) (item_text ?it) =
        Inr (int (length s), lb\<lparr>content := mem_write (content lb) off (s @ [NUL])\<rparr>, bufflen lb - off)"
      by simp
    from True ty pr(2) have "kNON_STRING < types ! idx" by simp
    with ty(1) len adv res d sz4 im show ?thesis
      by (simp add: process_param_def del: item_text.simps)
  qed
qed

subsection \<open>The whole format\<close>

text \<open>What the loop leaves behind: the text at its place and everything outside it unchanged.\<close>

definition printed :: "log_buffer \<Rightarrow> nat \<Rightarrow> string \<Rightarrow> log_buffer \<Rightarrow> bool" where
  "printed lb off s lb' \<longleftrightarrow>
     (\<exists>m. lb' = lb\<lparr>content := m\<rparr> \<and> mem_read m off (length s) = s
        \<and> (\<forall>i. i < off \<or> off + length s < i \<longrightarrow> m i = content lb i))"

lemma printed_Nil: "printed lb off [] lb"
  by (auto simp: printed_def intro!: exI [of _ "content lb"])

lemma printed_append:
  assumes "printed (lb\<lparr>content := mem_write (content lb) off (s @ e)\<rparr>) (off + length s) s' lb'"
    "length e \<le> 1"
  shows "printed lb off (s @ s') lb'"
proof -
  let ?m = "mem_write (content lb) off (s @ e)"
  from assms(1) obtain m where m: "lb' = lb\<lparr>content := m\<rparr>" "mem_read m (off + length s) (length s') = s'"
    "\<And>i. i < off + length s \<or> off + length s + length s' < i \<Longrightarrow> m i = ?m i"
    by (auto simp: printed_def)
  have "mem_read m off (length s) = mem_read ?m off (length s)"
    using m(3) by (intro mem_read_cong) simp
  also have "\<dots> = s" using mem_read_write_part [of 0 "length s" "s @ e" "content lb" off] by simp
  finally have "mem_read m off (length (s @ s')) = s @ s'" using m(2) by (simp add: mem_read_append)
  moreover have "m i = content lb i" if "i < off \<or> off + length (s @ s') < i" for i
  proof -
    have "?m i = content lb i" using that assms(2) by (intro mem_write_outside) auto
    with that m(3) [of i] show ?thesis by auto
  qed
  ultimately show ?thesis using m(1) unfolding printed_def by blast
qed

lemma scan_terminal_body:
  assumes "drop pos fmt = body @ t # rest" "list_all (\<lambda>c. \<not> isTerminal c) body" "isTerminal t"
  shows "scan_terminal fmt pos = Some (pos + length body)"
proof -
  have "pos + length body < length fmt" using arg_cong [OF assms(1), of length] by simp
  with assms show ?thesis by (simp add: scan_terminal_def scan_simps)
qed

lemma specifier_body:
  assumes "item_ok (Specifier fl w pr ln t)"
  shows "list_all (\<lambda>c. \<not> isTerminal c) (fl @ width_text w @ precision_text pr @ ln)"
proof -
  have "list_all (\<lambda>c. \<not> isTerminal c) xs" if "list_all P xs" "\<And>c. P c \<Longrightarrow> \<not> isTerminal c" for P xs
    using that by (simp add: list_all_iff)
  with assms flag_other(1) digit_other(1) length_other(3) show ?thesis
    by (cases w; cases pr) auto
qed

lemma args_fit_length:
  "list_all plain_item its \<Longrightarrow> args_fit its as \<Longrightarrow> length as = length (format_params its)"
proof (induction its as rule: args_fit.induct)
  case (5 fl w pr ln t its a as)
  then show ?case by (cases w; cases pr) auto
qed auto

lemma process_fmt_loop_fit:
  assumes "list_all item_ok its" "list_all plain_item its" "args_fit its args"
    and "format_args (float_text env) its args = Inr s"
    and "drop pos fmt = format_text its" "drop idx types = format_params its"
    and "length types \<le> length sizes"
    and "\<And>k. k < length args \<Longrightarrow> \<not> is_str (args ! k) \<Longrightarrow> sizes ! (idx + k) = sizeof_arg (args ! k)"
    and "mem_read pm p (length (args_image idx types pp args)) = args_image idx types pp args"
    and "\<not> asserts env" "\<And>k. malloc env (addr lb) k \<noteq> 0"
    and "off + length s < bufflen lb" "bufflen lb < 2 ^ 31"
  shows "\<exists>lb'. process_fmt_loop env fmt (length types) types sizes pm pos idx p (addr lb, off)
      (bufflen lb - off) lb = Inr (True, lb', bufflen lb - (off + length s)) \<and> printed lb off s lb'"
  using assms
proof (induction its args arbitrary: s pos idx pp p off lb rule: args_fit.induct)
  case (1 as)
  then have "\<not> pos < length fmt" by (metis drop_eq_Nil format_simps(1) not_le)
  with 1 show ?case by (subst process_fmt_loop.simps) (simp add: printed_Nil)
next
  case (4 fl w pr ln t its)
  then show ?case by simp
next
  case (5 fl w pr ln t its a as)
  let ?it = "Specifier fl w pr ln t"
  from 5 obtain s1 s2 where s: "s = s1 @ s2" "conversion_text (float_text env) ?it (promote a) = Inr s1"
    "format_args (float_text env) its as = Inr s2"
    by (auto simp: sum_bind_Inr_iff)
  have it: "item_ok ?it" "plain_item ?it" "convertible t a" using 5 by simp_all
  have ps: "item_params ?it = [if t = CHR ''s'' then string_param pr else kNON_STRING]"
    using it(2) by (cases w; cases pr) simp_all
  with 5(7) have dt: "drop idx types = (if t = CHR ''s'' then string_param pr else kNON_STRING) # format_params its"
    by simp
  have ty: "idx < length types" "types ! idx = (if t = CHR ''s'' then string_param pr else kNON_STRING)"
    "drop (idx + 1) types = format_params its"
    using dt nth_via_drop [OF dt] pos_less_of_drop [OF dt] drop_Suc_of_drop [OF dt] by simp_all
  let ?im = "arg_image (types ! idx) pp a" and ?pp = "next_precision (types ! idx) pp a"
  have rd: "mem_read pm p (length ?im) = ?im"
    "mem_read pm (p + length ?im) (length (args_image (idx + 1) types ?pp as)) = args_image (idx + 1) types ?pp as"
    using 5(10) by (simp_all add: mem_read_append)
  let ?lb = "lb\<lparr>content := mem_write (content lb) off (s1 @ [NUL])\<rparr>"
  have IH: "\<exists>lb'. process_fmt_loop env fmt (length types) types sizes pm pos' (idx + 1) (p + length ?im)
      (addr ?lb, off + length s1) (bufflen ?lb - (off + length s1)) ?lb =
      Inr (True, lb', bufflen ?lb - (off + length s1 + length s2)) \<and> printed ?lb (off + length s1) s2 lb'"
    if "drop pos' fmt = format_text its" for pos'
  proof (rule 5(1) [OF _ _ _ s(3) that ty(3) 5(8) _ rd(2) 5(11)])
    show "sizes ! (idx + 1 + k) = sizeof_arg (as ! k)" if "k < length as" "\<not> is_str (as ! k)" for k
      using 5(9) [of "Suc k"] that by simp
  qed (use 5 s(1) in simp_all)
  let ?body = "fl @ width_text w @ precision_text pr @ ln" and ?rest = "format_text its"
  have d: "drop pos fmt = item_text ?it @ ?rest" using 5 by simp
  then have d': "drop (Suc pos) fmt = ?body @ t # ?rest" by (intro drop_Suc_of_drop) simp
  have pos: "pos < length fmt" "fmt ! pos = CHR ''%''"
    using d nth_via_drop [of pos fmt] pos_less_of_drop [of pos fmt] by simp_all
  have "\<not> (pos + 1 < length fmt \<and> fmt ! (pos + 1) = CHR ''%'')"
  proof -
    obtain c r where "?body @ t # ?rest = c # r" "c \<noteq> CHR ''%''"
      using it(1) by (cases "?body @ [t]") (auto simp: append_eq_Cons_conv)
    with d' nth_via_drop [of "Suc pos" fmt c r] show ?thesis by simp
  qed
  moreover have "scan_terminal fmt (pos + 1) = Some (pos + 1 + length ?body)"
    using scan_terminal_body [OF d' specifier_body [OF it(1)]] it(1) by simp
  moreover have "take (pos + 1 + length ?body + 1 - pos) (drop pos fmt) = item_text ?it"
    unfolding d by simp
  moreover have dr: "drop (pos + 1 + length ?body + 1) fmt = ?rest"
    using drop_append_length [OF d] by (simp add: ac_simps)
  moreover have "\<exists>lb'. process_fmt_loop env fmt (length types) types sizes pm (pos + 1 + length ?body + 1)
      (idx + 1) (p + length (arg_image (types ! idx) pp a)) (addr lb, off + length s1)
      (bufflen lb - (off + length s1)) (lb\<lparr>content := mem_write (content lb) off (s1 @ [NUL])\<rparr>) =
      Inr (True, lb', bufflen lb - (off + length s)) \<and> printed lb off s lb'"
    using IH [OF dr] printed_append [of lb off s1 "[NUL]" s2] s(1) by (auto simp: add.assoc)
  moreover have "process_param env types sizes pm (item_text ?it) idx p (addr lb, off)
      (bufflen lb - off) lb =
    Inr (True, p + length (arg_image (types ! idx) pp a), (addr lb, off + length s1),
      bufflen lb - (off + length s1), lb\<lparr>content := mem_write (content lb) off (s1 @ [NUL])\<rparr>)"
    using process_param_fit [OF it s(2) ty(1,2) _ _ rd(1) 5(11,12) _ 5(14)] ty(1) 5(8) 5(9) [of 0] s(1) 5(13)
    by simp
  moreover note ty(1)
  ultimately show ?case
    by (subst process_fmt_loop.simps) (auto simp: pos Let_def simp del: item_text.simps)
next
  case (2 c its as)
  then obtain s' where s: "s = c # s'" "format_args (float_text env) its as = Inr s'"
    by (auto simp: sum_bind_Inr_iff)
  have pos: "pos < length fmt" "fmt ! pos = c" "c \<noteq> CHR ''%''" "drop (pos + 1) fmt = format_text its"
    using 2 nth_via_drop [of pos fmt] pos_less_of_drop [of pos fmt] drop_Suc_of_drop [of pos fmt] by simp_all
  let ?lb = "lb\<lparr>content := mem_write (content lb) off ([c] @ [])\<rparr>"
  have "\<exists>lb'. process_fmt_loop env fmt (length types) types sizes pm (pos + 1) idx p
      (addr ?lb, off + length [c]) (bufflen ?lb - (off + length [c])) ?lb =
      Inr (True, lb', bufflen ?lb - (off + length [c] + length s')) \<and> printed ?lb (off + length [c]) s' lb'"
    by (rule 2(1) [OF _ _ _ s(2) pos(4) _ _ _ 2(10)]) (use 2 s(1) in simp_all)
  then have "\<exists>lb'. process_fmt_loop env fmt (length types) types sizes pm (pos + 1) idx p (addr lb, off + 1)
      (bufflen lb - (off + 1)) (lb\<lparr>content := mem_write (content lb) off [c]\<rparr>) =
      Inr (True, lb', bufflen lb - (off + length s)) \<and> printed lb off s lb'"
    using printed_append [of lb off "[c]" "[]" s'] s(1) by (auto simp: add.assoc)
  with pos s 2 show ?case
    by (subst process_fmt_loop.simps) (simp add: lb_put_def lb_write_def)
next
  case (3 its as)
  then obtain s' where s: "s = CHR ''%'' # s'" "format_args (float_text env) its as = Inr s'"
    by (auto simp: sum_bind_Inr_iff)
  have d: "drop pos fmt = CHR ''%'' # CHR ''%'' # format_text its" using 3 by simp
  have pos: "pos < length fmt" "fmt ! pos = CHR ''%''" "pos + 1 < length fmt" "fmt ! (pos + 1) = CHR ''%''"
    "drop (pos + 2) fmt = format_text its"
    using d drop_Suc_of_drop [OF d] nth_via_drop [OF d] nth_via_drop [OF drop_Suc_of_drop [OF d]]
      pos_less_of_drop [OF d] pos_less_of_drop [OF drop_Suc_of_drop [OF d]]
      drop_Suc_of_drop [OF drop_Suc_of_drop [OF d]] by simp_all
  let ?lb = "lb\<lparr>content := mem_write (content lb) off ([CHR ''%''] @ [])\<rparr>"
  have "\<exists>lb'. process_fmt_loop env fmt (length types) types sizes pm (pos + 2) idx p
      (addr ?lb, off + length [CHR ''%'']) (bufflen ?lb - (off + length [CHR ''%''])) ?lb =
      Inr (True, lb', bufflen ?lb - (off + length [CHR ''%''] + length s'))
      \<and> printed ?lb (off + length [CHR ''%'']) s' lb'"
    by (rule 3(1) [OF _ _ _ s(2) pos(5) _ _ _ 3(10)]) (use 3 s(1) in simp_all)
  then have "\<exists>lb'. process_fmt_loop env fmt (length types) types sizes pm (pos + 2) idx p (addr lb, off + 1)
      (bufflen lb - (off + 1)) (lb\<lparr>content := mem_write (content lb) off [CHR ''%'']\<rparr>) =
      Inr (True, lb', bufflen lb - (off + length s)) \<and> printed lb off s lb'"
    using printed_append [of lb off "[CHR ''%'']" "[]" s'] s(1) by (auto simp: add.assoc)
  with pos s 3 show ?case
    by (subst process_fmt_loop.simps) (simp add: lb_put_def lb_write_def)
qed

lemma sint_of_nat_small: "n < 2 ^ 31 \<Longrightarrow> sint (of_nat n :: 32 word) = int n"
  by (simp add: signed_of_nat signed_take_bit_int_eq_self)

text \<open>A byte seen as signed, extended in either way.\<close>

lemma byte_cases:
  fixes w :: "8 word"
  obtains k where "uint w = k" "unat w = nat k" "0 \<le> k" "k < 256"
  using unsigned_less [of w, where ?'a = int] by (simp add: unat_eq_nat_uint)

lemma sint_8: "sint w = (if unat w < 128 then int (unat w) else int (unat w) - 256)" for w :: "8 word"
proof -
  obtain k where k: "uint w = k" "unat w = nat k" "0 \<le> k" "k < 256" by (rule byte_cases)
  have s: "sint w = signed_take_bit 7 k" by (simp add: sint_uint k(1))
  show ?thesis
  proof (cases "k < 128")
    case True
    with s k show ?thesis by (simp add: signed_take_bit_int_eq_self nat_less_iff)
  next
    case False
    have "take_bit (Suc 7) k = take_bit (Suc 7) (k - 256)" by (simp add: take_bit_eq_mod)
    then have "signed_take_bit 7 k = signed_take_bit 7 (k - 256)"
      by (simp only: signed_take_bit_eq_iff_take_bit_eq)
    also have "\<dots> = k - 256" using False k(4) by (intro signed_take_bit_int_eq_self) simp_all
    finally show ?thesis using s k False by (simp add: nat_less_iff)
  qed
qed

lemma sint_scast_8: "sint (scast w :: 32 word) = sint w" for w :: "8 word"
proof -
  obtain k where k: "unat w = nat k" "0 \<le> k" "k < 256" using byte_cases [of w] by metis
  have "- 256 \<le> sint w" "sint w < 256"
    unfolding sint_8 k(1) using k(2,3) by (auto split: if_splits)
  then show ?thesis by (simp add: signed_scast_eq signed_take_bit_int_eq_self)
qed

lemma sint_ucast_8: "sint (ucast w :: 32 word) = int (unat w)" for w :: "8 word"
proof -
  obtain k where k: "uint w = k" "unat w = nat k" "0 \<le> k" "k < 256" by (rule byte_cases)
  then have "uint (ucast w :: 32 word) = k"
    by (simp add: unsigned_ucast_eq take_bit_int_eq_self)
  with k show ?thesis by (simp add: sint_uint signed_take_bit_int_eq_self)
qed

subsection \<open>The scan of the format\<close>

lemma lb_write_not_overread: "lb_write lb pos bs \<noteq> Inl Format_overread"
  by (simp add: lb_write_def)

lemma snprintf_at_not_overread: "snprintf_at env lb pos n fmt v \<noteq> Inl Format_overread"
  by (auto simp: snprintf_at_def sum_bind_Inl_iff lb_write_not_overread split: sum.splits)

lemma decodeNonStringFmt_not_overread:
  "decodeNonStringFmt env retries lb reserved pos fmt pm p n \<noteq> Inl Format_overread"
proof (induction retries arbitrary: lb reserved)
  case 0
  then show ?case by simp
next
  case (Suc retries)
  have "resize_log_buffer env lb' k \<noteq> Inl Format_overread" for lb' k
    by (simp add: resize_log_buffer_def Let_def)
  with Suc snprintf_at_not_overread show ?case
    by (auto simp: sum_bind_Inl_iff split: option.splits prod.splits if_splits)
qed

lemma process_param_not_overread:
  "process_param env types sizes pm fmt idx p log_pos reserved lb \<noteq> Inl Format_overread"
proof -
  have "advance q d \<noteq> Inl Format_overread" for q d by (simp add: advance_def)
  moreover have "decodeStringFmt env lb r pos pm p' n fmt \<noteq> Inl Format_overread" for r pos p' n
    using snprintf_at_not_overread
    by (auto simp: decodeStringFmt_def Let_def sum_bind_Inl_iff split: if_splits)
  ultimately show ?thesis
    using decodeNonStringFmt_not_overread
    by (auto simp: process_param_def Let_def sum_bind_Inl_iff split: if_splits)
qed

lemma process_fmt_loop_not_overread:
  "list_all item_ok its \<Longrightarrow> drop pos fmt = format_text its \<Longrightarrow>
     process_fmt_loop env fmt n types sizes pm pos idx p log_pos reserved lb \<noteq> Inl Format_overread"
proof (induction its arbitrary: pos idx p log_pos reserved lb)
  case Nil
  then have "\<not> pos < length fmt" by (metis drop_eq_Nil format_simps(1) not_le)
  then show ?case by (subst process_fmt_loop.simps) simp
next
  case (Cons it its)
  note put = lb_write_not_overread
  show ?case
  proof (cases it)
    case (Literal c)
    with Cons.prems have d: "drop pos fmt = c # format_text its" and c: "c \<noteq> CHR ''%''" by simp_all
    from Cons.IH [OF _ drop_Suc_of_drop [OF d]] Cons.prems(1) nth_via_drop [OF d] pos_less_of_drop [OF d] c put
    show ?thesis
      by (subst process_fmt_loop.simps) (auto simp: lb_put_def sum_bind_Inl_iff)
  next
    case Escape
    with Cons.prems have d: "drop pos fmt = CHR ''%'' # CHR ''%'' # format_text its" by simp
    note d' = drop_Suc_of_drop [OF d]
    from Cons.IH [OF _ drop_Suc_of_drop [OF d']] Cons.prems(1) nth_via_drop [OF d] nth_via_drop [OF d']
      pos_less_of_drop [OF d] pos_less_of_drop [OF d'] put
    show ?thesis
      by (subst process_fmt_loop.simps) (auto simp: lb_put_def sum_bind_Inl_iff)
  next
    case (Specifier fl w pr ln t)
    let ?body = "fl @ width_text w @ precision_text pr @ ln"
    have ok: "item_ok (Specifier fl w pr ln t)" using Cons.prems(1) Specifier by simp
    have d: "drop pos fmt = item_text (Specifier fl w pr ln t) @ format_text its"
      using Cons.prems(2) Specifier by simp
    then have d0: "drop pos fmt = CHR ''%'' # ?body @ t # format_text its" by simp
    note d' = drop_Suc_of_drop [OF d0]
    obtain c r where cr: "?body @ t # format_text its = c # r" "c \<noteq> CHR ''%''"
      using ok by (cases "?body @ [t]") (auto simp: append_eq_Cons_conv)
    with d' have "fmt ! Suc pos = c" using nth_via_drop [of "Suc pos" fmt c r] by simp
    moreover have "scan_terminal fmt (Suc pos) = Some (Suc pos + length ?body)"
      using scan_terminal_body [OF d' specifier_body [OF ok]] ok by simp
    moreover have "drop (Suc pos + length ?body + 1) fmt = format_text its"
      using drop_append_length [OF d] by (simp add: ac_simps)
    note IH = Cons.IH [OF _ this]
    ultimately show ?thesis
      using Cons.prems(1) nth_via_drop [OF d0] pos_less_of_drop [OF d0] cr(2) process_param_not_overread
      by (subst process_fmt_loop.simps) (auto simp: Let_def sum_bind_Inl_iff dest: IH)
  qed
qed

lemma process_fmt_fit:
  assumes "list_all item_ok its" "list_all plain_item its" "args_fit its args"
    and "format_args (float_text env) its args = Inr s"
    and "length args \<le> length sizes"
    and "\<And>k. k < length args \<Longrightarrow> \<not> is_str (args ! k) \<Longrightarrow> sizes ! k = sizeof_arg (args ! k)"
    and "mem_read pm p (length (args_image 0 (format_params its) pp args)) =
      args_image 0 (format_params its) pp args"
    and "\<not> asserts env" "\<And>k. malloc env (addr lb) k \<noteq> 0"
    and "start_pos + length s < bufflen lb" "bufflen lb < 2 ^ 31"
  shows "\<exists>lb'. process_fmt env (format_text its) (length (format_params its)) (format_params its) sizes
      pm p lb start_pos = Inr (int (start_pos + length s), lb') \<and> printed lb start_pos s lb'"
proof -
  from assms args_fit_length [OF assms(2,3)] obtain lb' where
    lb': "process_fmt_loop env (format_text its) (length (format_params its)) (format_params its) sizes pm
        0 0 p (addr lb, start_pos) (bufflen lb - start_pos) lb =
      Inr (True, lb', bufflen lb - (start_pos + length s))" "printed lb start_pos s lb'"
    using process_fmt_loop_fit [of its args env s 0 "format_text its" 0 "format_params its" sizes pm p pp lb
        start_pos] by auto
  have "bufflen lb' = bufflen lb" using lb'(2) by (auto simp: printed_def)
  moreover have "sint (of_nat (start_pos + length s) :: 32 word) = int (start_pos + length s)"
    using assms(10,11) by (subst sint_of_nat_small) simp_all
  ultimately show ?thesis
    using lb' assms(10) by (auto simp: process_fmt_def)
qed

text \<open>The surroundings used in the examples: assertions off, a block at 4096 and then at 8192.\<close>

definition sample_env :: environment where
  "sample_env = \<lparr>malloc = (\<lambda>a n. 8192), asserts = False, float_text = (\<lambda>it v. [])\<rparr>"

definition sample_buffer :: "nat \<Rightarrow> log_buffer" where
  "sample_buffer n = \<lparr>addr = 4096, content = (\<lambda>_. NUL), bufflen = n\<rparr>"

lemmas sample_defs = sample_env_def sample_buffer_def

subsection \<open>Properties\<close>

text \<open>
  C18. In a build without assertions and with allocations that succeed,
  \<^verbatim>\<open>process_fmt\<close> prints what \<^verbatim>\<open>printf\<close> prints: for a format
  of the grammar without \<open>*\<close>, arguments the backend handles and their stored image, when the
  text fits the log buffer of less than 2 147 483 648 bytes, the text of the format applied to the arguments
  stands at the start position, nothing outside it and one NUL changes, and the position after the text is
  returned. (With assertions every string parameter fails that of
  \<^verbatim>\<open>decodeStringFmt\<close>.)
\<close>

theorem process_fmt_prints:
  assumes "list_all item_ok its" "list_all plain_item its" "args_fit its args"
    and "format_args (float_text env) its args = Inr s"
    and "length args \<le> length sizes"
    and "\<forall>k < length args. \<not> is_str (args ! k) \<longrightarrow> sizes ! k = sizeof_arg (args ! k)"
    and "mem_read pm p (length (args_image 0 (format_params its) pp args)) =
      args_image 0 (format_params its) pp args"
    and "\<not> asserts env" "\<forall>k. malloc env (addr lb) k \<noteq> 0"
    and "start_pos + length s < bufflen lb" "bufflen lb < 2 ^ 31"
  shows "\<exists>lb'. process_fmt env (format_text its) (length (format_params its)) (format_params its) sizes
      pm p lb start_pos = Inr (int (start_pos + length s), lb') \<and> printed lb start_pos s lb'"
  using assms by (intro process_fmt_fit) auto

theorem process_fmt_prints_witness:
  "\<exists>lb'. process_fmt sample_env ''n=%03d %s'' 2 [kNON_STRING, kSTRING_WITH_NO_PRECISION] [4, 0]
      (mem_write (\<lambda>_. NUL) 9 (le_bytes 4 7 @ le_bytes 4 2 @ ''ok'')) 9 (sample_buffer 64) 31 =
      Inr (int (31 + length ''n=007 ok''), lb')
    \<and> printed (sample_buffer 64) 31 ''n=007 ok'' lb'"
proof -
  let ?its = "[Literal CHR ''n'', Literal CHR ''='', Specifier ''0'' (WDigits ''3'') PNone [] CHR ''d'',
    Literal CHR '' '', Specifier [] (WDigits []) PNone [] CHR ''s'']"
  let ?args = "[AI32 7, AStr 0 ''ok'']"
  let ?img = "le_bytes 4 7 @ le_bytes 4 2 @ ''ok''"
  have f: "format_text ?its = ''n=%03d %s''" "format_params ?its = [kNON_STRING, kSTRING_WITH_NO_PRECISION]"
    by simp_all
  have ok: "list_all item_ok ?its" by (simp add: char_class_defs)
  have s: "format_args (float_text sample_env) ?its ?args = Inr ''n=007 ok''"
    by code_simp
  have im: "args_image 0 (format_params ?its) 0 ?args = ?img"
    by (simp add: param_order stored_length_def flip: numeral_2_eq_2)
  have r: "mem_read (mem_write (\<lambda>_. NUL) 9 ?img) 9 (length ?img) = ?img"
    by (rule mem_read_write_same)
  have rd: "mem_read (mem_write (\<lambda>_. NUL) 9 ?img) 9 (length (args_image 0 (format_params ?its) 0 ?args)) =
      args_image 0 (format_params ?its) 0 ?args"
    unfolding im by (rule r)
  have "\<exists>lb'. process_fmt sample_env (format_text ?its) (length (format_params ?its)) (format_params ?its)
      [4, 0] (mem_write (\<lambda>_. NUL) 9 ?img) 9 (sample_buffer 64) 31 = Inr (int (31 + length ''n=007 ok''), lb')
    \<and> printed (sample_buffer 64) 31 ''n=007 ok'' lb'"
    by (rule process_fmt_prints [OF ok _ _ s _ _ rd])
       (simp_all add: less_Suc_eq sample_defs conversion_defs)
  then show ?thesis by (simp add: numeral_2_eq_2)
qed

text \<open>
  The scan for the end of a specification stops inside every format the compile-time parser
  accepts, whatever the arguments, the memory and the state of the log buffer.
\<close>

theorem process_fmt_scan_in_bounds:
  assumes "countFmtParams fmt = Inr n"
  shows "process_fmt env fmt k types sizes pm p lb start_pos \<noteq> Inl Format_overread"
proof -
  obtain its where its: "list_all item_ok its" "fmt = format_text its"
    using assms by (rule countFmtParams_Inr)
  from process_fmt_loop_not_overread [OF its(1), of 0] its(2) show ?thesis
    by (simp add: process_fmt_def sum_bind_Inl_iff)
qed

theorem process_fmt_scan_in_bounds_witness:
  "process_fmt sample_env ''%d'' 1 [kNON_STRING] [4] (\<lambda>_. NUL) 0 (sample_buffer 9) 5 \<noteq> Inl Format_overread"
proof -
  have "format_text [Specifier [] (WDigits []) PNone [] CHR ''d''] = ''%d''" by simp
  moreover have "list_all item_ok [Specifier [] (WDigits []) PNone [] CHR ''d'']"
    by (simp add: char_class_defs)
  ultimately have "countFmtParams ''%d'' = Inr 1"
    using countFmtParams_format_text [of "[Specifier [] (WDigits []) PNone [] CHR ''d'']"] by simp
  then show ?thesis by (rule process_fmt_scan_in_bounds)
qed

text \<open>
  C35. The bound given to \<^verbatim>\<open>snprintf\<close> for a number is the size of the whole log buffer, not what is left
  of it: a number whose text does not fit behind a non-empty prefix is written beyond the end of the
  buffer, before any attempt to enlarge it.
\<close>

theorem number_overflows_log_buffer:
  assumes "parse_spec fmt = Some it" "passed_argument n (last fmt) pm p = Some (False, v)"
    and "conversion_text (float_text env) it v = Inr s" "length s < 2 ^ 31"
    and "0 < start_pos" "start_pos \<le> bufflen lb" "bufflen lb - start_pos \<le> length s"
  shows "decodeNonStringFmt env (Suc retries) lb (bufflen lb - start_pos) start_pos fmt pm p n =
    Inl Buffer_overflow"
proof -
  have "snprintf_bytes (bufflen lb) s \<noteq> []" "bufflen lb < start_pos + length (snprintf_bytes (bufflen lb) s)"
    using assms(5-7) length_snprintf_bytes [of "bufflen lb" s] by (auto simp: snprintf_bytes_def)
  then show ?thesis
    using assms(1-4) by (simp add: snprintf_at_def printf_text_def INT_MAX_def lb_write_def)
qed

theorem number_overflows_log_buffer_witness:
  "decodeNonStringFmt sample_env (Suc 2) (sample_buffer 34) (bufflen (sample_buffer 34) - 31) 31 ''%d''
     (mem_write (\<lambda>_. NUL) 0 (le_bytes 4 1000)) 0 4 = Inl Buffer_overflow"
proof (rule number_overflows_log_buffer)
  show "parse_spec ''%d'' = Some (Specifier [] (WDigits []) PNone [] CHR ''d'')" by code_simp
  have "mem_read (mem_write (\<lambda>_. NUL) 0 (le_bytes 4 1000)) 0 4 = le_bytes 4 1000"
    using mem_read_write_same [of _ 0 "le_bytes 4 1000"] by simp
  then show "passed_argument 4 (last ''%d'') (mem_write (\<lambda>_. NUL) 0 (le_bytes 4 1000)) 0 =
      Some (False, VInt32 1000)"
    by (simp add: passed_argument_def Let_def conversion_defs)
  show "conversion_text (float_text sample_env) (Specifier [] (WDigits []) PNone [] CHR ''d'') (VInt32 1000)
      = Inr ''1000''" by code_simp
qed (simp_all add: sample_defs)

text \<open>
  A character is bounded correctly: \<open>%c\<close> at the end of the buffer enlarges it once, and then the
  whole text stands in the new block with everything before it kept.
\<close>

theorem character_enlarges_log_buffer:
  assumes "parse_spec fmt = Some it" "last fmt = CHR ''c''"
    and "conversion_text (float_text env) it (VInt32 (scast (of_nat (le_nat (mem_read pm p 1)) :: 8 word))) = Inr s"
    and "length s < 2 ^ 31" "s \<noteq> []"
    and "start_pos \<le> bufflen lb" "bufflen lb - start_pos \<le> length s" "bufflen lb < 2 ^ 31"
    and "malloc env (addr lb) (2 * length s + start_pos) = a" "a \<noteq> 0"
  shows "\<exists>lb'. decodeNonStringFmt env 2 lb (bufflen lb - start_pos) start_pos fmt pm p 1 =
      Inr (int (length s), lb', 2 * length s)
    \<and> addr lb' = a \<and> bufflen lb' = 2 * length s + start_pos
    \<and> mem_read (content lb') start_pos (length s) = s
    \<and> (\<forall>i < start_pos. content lb' i = content lb i)"
proof -
  let ?v = "VInt32 (scast (of_nat (le_nat (mem_read pm p 1)) :: 8 word))"
  let ?m = "mem_write (content lb) start_pos (snprintf_bytes (bufflen lb - start_pos) s)"
  let ?lb = "lb\<lparr>content := ?m, addr := a, bufflen := 2 * length s + start_pos\<rparr>"
  have pa: "passed_argument 1 (last fmt) pm p = Some (True, ?v)"
    using assms(2) by (simp add: passed_argument_def Let_def)
  have "start_pos + length (snprintf_bytes (bufflen lb - start_pos) s) \<le> bufflen lb"
    using assms(6) length_snprintf_bytes [of "bufflen lb - start_pos" s] by simp
  then have sn: "snprintf_at env lb start_pos (bufflen lb - start_pos) fmt ?v =
      Inr (length s, lb\<lparr>content := ?m\<rparr>)"
    using assms(1,3,4) by (simp add: snprintf_at_def printf_text_def INT_MAX_def lb_write_def)
  have "2 * length s + bufflen lb - (bufflen lb - start_pos) = 2 * length s + start_pos"
    using assms(6) by simp
  then have rs: "resize_log_buffer env (lb\<lparr>content := ?m\<rparr>)
      (sub64 (2 * length s + bufflen lb) (bufflen lb - start_pos)) = Inr (0, ?lb)"
    using assms(6,7,9,10) by (simp add: resize_log_buffer_def Let_def)
  have "snprintf_bytes (2 * length s) s = s @ [NUL]" using assms(5) by (simp add: snprintf_bytes_fit)
  then have sn2: "snprintf_at env ?lb start_pos (2 * length s) fmt ?v =
      Inr (length s, ?lb\<lparr>content := mem_write ?m start_pos (s @ [NUL])\<rparr>)"
    using assms(1,3,4,5)
    by (simp add: snprintf_at_def printf_text_def INT_MAX_def lb_write_def Suc_le_eq)
  let ?lb' = "?lb\<lparr>content := mem_write ?m start_pos (s @ [NUL])\<rparr>"
  have "sub64 (bufflen ?lb) start_pos = 2 * length s" by simp
  moreover have "\<not> 2 * length s \<le> length s" using assms(5) by simp
  ultimately have "decodeNonStringFmt env 2 lb (bufflen lb - start_pos) start_pos fmt pm p 1 =
      Inr (int (length s), ?lb', 2 * length s)"
    using pa sn rs sn2 assms(7) by (simp add: numeral_2_eq_2 del: One_nat_def)
  moreover have "mem_read (content ?lb') start_pos (length s) = s"
    using mem_read_write_part [of 0 "length s" "s @ [NUL]" ?m start_pos] by simp
  moreover have "\<forall>i < start_pos. content ?lb' i = content lb i"
    by (simp add: mem_write_outside)
  ultimately show ?thesis by (intro exI [of _ ?lb']) simp
qed

theorem character_enlarges_log_buffer_witness:
  "\<exists>lb'. decodeNonStringFmt sample_env 2 (sample_buffer 32) (bufflen (sample_buffer 32) - 31) 31 ''%c''
      (\<lambda>_. CHR ''x'') 0 1 = Inr (int (length ''x''), lb', 2 * length ''x'')
    \<and> addr lb' = 8192 \<and> bufflen lb' = 2 * length ''x'' + 31
    \<and> mem_read (content lb') 31 (length ''x'') = ''x''
    \<and> (\<forall>i < 31. content lb' i = content (sample_buffer 32) i)"
proof (rule character_enlarges_log_buffer)
  show "parse_spec ''%c'' = Some (Specifier [] (WDigits []) PNone [] CHR ''c'')" by code_simp
  have "mem_read (\<lambda>_. CHR ''x'') 0 1 = ''x''" by (simp add: mem_read_def)
  then show "conversion_text (float_text sample_env) (Specifier [] (WDigits []) PNone [] CHR ''c'')
      (VInt32 (scast (of_nat (le_nat (mem_read (\<lambda>_. CHR ''x'') 0 1)) :: 8 word))) = Inr ''x''"
  proof -
    have "(char_of (120 :: nat) :: char) = CHR ''x''" by code_simp
    then show ?thesis using \<open>mem_read _ 0 1 = ''x''\<close> by (simp add: conversion_text_def field_def)
  qed
qed (simp_all add: sample_defs)

text \<open>
  C36. After such a move \<^verbatim>\<open>process_fmt\<close> goes on with a pointer into the freed block: a format that
  starts with a string too long for the space left and continues with a literal character writes
  through it.
\<close>

theorem moved_log_buffer_dangles:
  assumes "list_all item_ok its" "its = Specifier [] (WDigits []) PNone [] CHR ''s'' # Literal c # its'"
    and "kNON_STRING < types ! 0" "0 < n" "types \<noteq> []"
    and "mem_read pm p (4 + length str) = le_bytes 4 (length str) @ str" "NUL \<notin> set str"
    and "bufflen lb - start_pos < length str" "length str < 2 ^ 31"
    and "start_pos \<le> bufflen lb" "bufflen lb < 2 ^ 31" "\<not> asserts env"
    and "\<forall>k. malloc env (addr lb) k \<noteq> 0" "malloc env (addr lb) (length str + start_pos + 1) \<noteq> addr lb"
  shows "process_fmt env (format_text its) n types sizes pm p lb start_pos = Inl Use_after_free"
proof -
  let ?it = "Specifier [] (WDigits []) PNone [] CHR ''s''" and ?fmt = "format_text its"
  have fmt: "?fmt = CHR ''%'' # CHR ''s'' # c # format_text its'" and c: "c \<noteq> CHR ''%''"
    using assms(1,2) by simp_all
  have ps: "parse_spec ''%s'' = Some ?it" by code_simp
  have ct: "conversion_text (float_text env) ?it (VString str) = Inr str"
    by (simp add: conversion_text_def field_def)
  have rd: "le_nat (mem_read pm p 4) = length str" "c_string_at pm (p + 4) (length str) = str"
    using assms(6,7,9) by (simp_all add: mem_read_append c_string_at_read)
  let ?r = "bufflen lb - start_pos" and ?new = "length str + start_pos + 1"
  let ?m = "mem_write (content lb) start_pos (snprintf_bytes ?r str)"
  let ?lb = "lb\<lparr>content := ?m, addr := malloc env (addr lb) ?new, bufflen := ?new\<rparr>"
  have "start_pos + length (snprintf_bytes ?r str) \<le> bufflen lb"
    using assms(10) length_snprintf_bytes [of ?r str] by simp
  then have s1: "snprintf_at env lb start_pos ?r ''%s'' (VString str) = Inr (length str, lb\<lparr>content := ?m\<rparr>)"
    using assms(9) ps ct by (simp add: snprintf_at_def printf_text_def INT_MAX_def lb_write_def)
  obtain lb' where s2: "snprintf_at env ?lb start_pos (length str + 1) ''%s'' (VString str) = Inr (length str, lb')"
    "addr lb' = addr ?lb"
    using assms(9) ps ct
    by (simp add: snprintf_at_def printf_text_def INT_MAX_def lb_write_def snprintf_bytes_fit)
  have "sub64 (length str + 1 + bufflen lb) ?r = ?new" using assms(10) by simp
  then obtain r where d: "decodeStringFmt env lb ?r start_pos pm (p + 4) (length str) ''%s'' =
      Inr (int (length str), lb', r)"
    using assms(8,10,12,13) rd(2) s1 s2(1) by (simp add: decodeStringFmt_def Let_def)
  have ad: "addr lb' \<noteq> addr lb" using s2(2) assms(14) by simp
  have "fst (addr lb, start_pos) = addr lb" by simp
  have sc: "scan_terminal ?fmt 1 = Some 1"
    using scan_terminal_body [of 1 ?fmt "[]" "CHR ''s''"] fmt by (simp add: isTerminal_def)
  have pp: "process_param env types sizes pm ''%s'' 0 p (addr lb, start_pos) (bufflen lb - start_pos) lb =
      Inr (True, p + 4 + length str, (addr lb, start_pos + length str),
        nat ((int r - int (length str)) mod 2 ^ 64), lb')"
    using assms(3,5) rd(1) d by (simp add: Let_def process_param_def advance_def nat_add_distrib)
  have "process_fmt_loop env ?fmt n types sizes pm (Suc (Suc 0)) (Suc 0) q (addr lb, k) r' lb' = Inl Use_after_free"
    for q k r'
    using fmt c ad by (subst process_fmt_loop.simps) (simp add: lb_put_def)
  moreover have "take (1 + 1 - 0) (drop 0 ?fmt) = ''%s''" by (simp add: fmt)
  ultimately have "process_fmt_loop env ?fmt n types sizes pm 0 0 p (addr lb, start_pos)
      (bufflen lb - start_pos) lb = Inl Use_after_free"
    using sc pp assms(4) by (subst process_fmt_loop.simps) (simp add: fmt Let_def)
  then show ?thesis using assms(10) by (simp add: process_fmt_def)
qed

theorem moved_log_buffer_dangles_witness:
  "process_fmt sample_env (format_text [Specifier [] (WDigits []) PNone [] CHR ''s'', Literal CHR ''!''])
     1 [kSTRING_WITH_NO_PRECISION] [0] (mem_write (\<lambda>_. NUL) 0 (le_bytes 4 5 @ ''hello'')) 0
     (sample_buffer 34) 31 = Inl Use_after_free"
proof (rule moved_log_buffer_dangles [OF _ refl])
  show "mem_read (mem_write (\<lambda>_. NUL) 0 (le_bytes 4 5 @ ''hello'')) 0 (4 + length ''hello'') =
      le_bytes 4 (length ''hello'') @ ''hello''"
  proof -
    have "length ''hello'' = 5" by simp
    with mem_read_write_same [of "\<lambda>_. NUL" 0 "le_bytes 4 5 @ ''hello''"] show ?thesis by (simp only: length_append length_le_bytes)
  qed
qed (simp_all add: sample_defs char_class_defs param_order)

text \<open>
  A string whose text fills the space left exactly loses its last character: the code enlarges
  the buffer only if the text is longer than the space, and \<^verbatim>\<open>snprintf\<close> ends it with a NUL.
\<close>

theorem exactly_full_string_truncated:
  assumes "parse_spec fmt = Some it" "conversion_text (float_text env) it (VString str) = Inr s"
    and "mem_read pm p (length str) = str" "NUL \<notin> set str" "length str < DEFAULT_PARAM_CACHE_SIZE"
    and "s \<noteq> []" "bufflen lb = start_pos + length s" "length s < 2 ^ 31" "\<not> asserts env"
  shows "\<exists>lb'. decodeStringFmt env lb (length s) start_pos pm p (length str) fmt =
      Inr (int (length s), lb', length s)
    \<and> mem_read (content lb') start_pos (length s) = butlast s @ [NUL]"
proof -
  let ?b = "butlast s @ [NUL]"
  let ?lb = "lb\<lparr>content := mem_write (content lb) start_pos ?b\<rparr>"
  have "snprintf_bytes (length s) s = ?b" using assms(6) by (simp add: snprintf_bytes_def butlast_conv_take)
  moreover have "length ?b = length s" using assms(6) by simp
  ultimately have "snprintf_at env lb start_pos (length s) fmt (VString str) = Inr (length s, ?lb)"
    using assms(1,2,7,8) by (simp add: snprintf_at_def printf_text_def INT_MAX_def lb_write_def)
  moreover have "c_string_at pm p (length str) = str" using assms(3,4) by (rule c_string_at_read)
  ultimately have "decodeStringFmt env lb (length s) start_pos pm p (length str) fmt =
      Inr (int (length s), ?lb, length s)"
    using assms(5,9) by (simp add: decodeStringFmt_def)
  moreover have "mem_read (content ?lb) start_pos (length s) = ?b"
    using mem_read_write_same [of "content lb" start_pos ?b] \<open>length ?b = length s\<close> by simp
  ultimately show ?thesis by (intro exI [of _ ?lb]) simp
qed

theorem exactly_full_string_truncated_witness:
  "\<exists>lb'. decodeStringFmt sample_env (sample_buffer 36) (length ''hello'') 31
      (mem_write (\<lambda>_. NUL) 0 ''hello'') 0 (length ''hello'') ''%s'' =
      Inr (int (length ''hello''), lb', length ''hello'')
    \<and> mem_read (content lb') 31 (length ''hello'') = butlast ''hello'' @ [NUL]"
proof (rule exactly_full_string_truncated)
  show "parse_spec ''%s'' = Some (Specifier [] (WDigits []) PNone [] CHR ''s'')" by code_simp
  show "conversion_text (float_text sample_env) (Specifier [] (WDigits []) PNone [] CHR ''s'') (VString ''hello'')
      = Inr ''hello''" by (simp add: conversion_text_def field_def)
  show "mem_read (mem_write (\<lambda>_. NUL) 0 ''hello'') 0 (length ''hello'') = ''hello''"
    by (rule mem_read_write_same)
qed (simp_all add: sample_defs DEFAULT_PARAM_CACHE_SIZE_def)

text \<open>
  With assertions compiled in, which is the default build, every string parameter ends the
  program: the assertion compares an address with an offset.
\<close>

theorem string_parameter_asserts:
  assumes "asserts env" "start_pos \<le> bufflen lb" "start_pos \<le> addr lb" "addr lb \<noteq> 2 * start_pos"
  shows "decodeStringFmt env lb (bufflen lb - start_pos) start_pos pm p n fmt = Inl Decode_assertion"
proof -
  have "sub64 (bufflen lb) (bufflen lb - start_pos) = start_pos" "addr lb - start_pos \<noteq> start_pos"
    using assms(2-4) by simp_all
  with assms(1,3) show ?thesis by (simp add: decodeStringFmt_def)
qed

theorem string_parameter_asserts_witness:
  "decodeStringFmt (sample_env\<lparr>asserts := True\<rparr>) (sample_buffer 100) (bufflen (sample_buffer 100) - 31) 31
     (\<lambda>_. NUL) 0 5 ''%s'' = Inl Decode_assertion"
  by (rule string_parameter_asserts) (simp_all add: sample_defs)

text \<open>
  An unsigned byte converted with \<open>%d\<close> is printed as a signed one: from 128 on the text is that of
  the value minus 256, not of the promoted value.
\<close>

theorem unsigned_byte_printed_signed:
  assumes "mem_read pm p 1 = arg_bytes (AU8 w)"
  shows "passed_argument 1 CHR ''d'' pm p = Some (False, VInt32 (scast w))
    \<and> conversion_text ff (Specifier fl (WDigits ds) PNone [] CHR ''d'') (VInt32 (scast w)) =
        Inr (signed_text fl (WDigits ds) PNone (if unat w < 128 then int (unat w) else int (unat w) - 256))
    \<and> conversion_text ff (Specifier fl (WDigits ds) PNone [] CHR ''d'') (promote (AU8 w)) =
        Inr (signed_text fl (WDigits ds) PNone (int (unat w)))"
proof -
  have "passed_argument 1 CHR ''d'' pm p = Some (False, VInt32 (scast w))"
    using assms by (simp add: passed_argument_def Let_def of_nat_unat_mod conversion_defs)
  moreover have "sint (scast w :: 32 word) = (if unat w < 128 then int (unat w) else int (unat w) - 256)"
    using sint_8 [of w] by (simp add: sint_scast_8)
  moreover have "sint (ucast w :: 32 word) = int (unat w)" by (rule sint_ucast_8)
  ultimately show ?thesis
    by (simp add: conversion_text_def signed_value_def)
qed

theorem unsigned_byte_printed_signed_witness:
  "passed_argument 1 CHR ''d'' (mem_write (\<lambda>_. NUL) 0 (arg_bytes (AU8 200))) 0 = Some (False, VInt32 (scast (200 :: 8 word)))
    \<and> conversion_text (float_text sample_env) (Specifier [] (WDigits []) PNone [] CHR ''d'') (VInt32 (scast (200 :: 8 word))) =
        Inr ''-56''
    \<and> conversion_text (float_text sample_env) (Specifier [] (WDigits []) PNone [] CHR ''d'') (promote (AU8 200)) =
        Inr ''200''"
proof -
  have m: "mem_read (mem_write (\<lambda>_. NUL) 0 (arg_bytes (AU8 200))) 0 1 = arg_bytes (AU8 200)"
    using mem_read_write_same [of "\<lambda>_. NUL" 0 "arg_bytes (AU8 200)"] by simp
  have "signed_text [] (WDigits []) PNone (- 56) = ''-56''" "signed_text [] (WDigits []) PNone 200 = ''200''"
    by code_simp+
  with unsigned_byte_printed_signed [OF m, of "float_text sample_env" "[]" "[]"] show ?thesis by simp
qed

end
