(* ===== verification/FormatTermination.thy ===== *)
theory FormatTermination
  imports Decode "HOL-Library.Sublist"
begin

section \<open>Formatting ends\<close>

text \<open>
  \<^verbatim>\<open>decodeNonStringFmt\<close> starts over after every enlargement of the log buffer, without a bound; the model
  allows \<open>retry_bound\<close> attempts. Two suffice: the new buffer leaves twice the length of the text, which
  does not depend on the buffer. The model's bound is never met, so every result of \<open>process_fmt\<close> is one
  of the code's.
\<close>

text \<open>The text of a specification is the same at every attempt, and not empty for \<^verbatim>\<open>%c\<close>.\<close>

lemma suffix_last: "suffix xs ys \<Longrightarrow> xs \<noteq> [] \<Longrightarrow> last ys = last xs"
  by (auto simp: suffix_def)

lemma parse_width_suffix: "suffix (snd (parse_width s)) s"
  by (simp add: parse_width_def suffix_tl suffix_dropWhile)

lemma parse_precision_suffix: "suffix (snd (parse_precision s)) s"
proof -
  have "suffix (tl (tl s)) s" by (rule suffix_order.trans [OF suffix_tl suffix_tl])
  moreover have "suffix (dropWhile isDigit (tl s)) s" by (rule suffix_order.trans [OF suffix_dropWhile suffix_tl])
  ultimately show ?thesis by (simp add: parse_precision_def)
qed

lemma parse_spec_last:
  assumes "parse_spec s = Some it"
  obtains fl w pr ln where "it = Specifier fl w pr ln (last s)"
proof -
  let ?s1 = "dropWhile isFlag (tl s)"
  obtain w s2 where w: "parse_width ?s1 = (w, s2)" by fastforce
  obtain pr s3 where pr: "parse_precision s2 = (pr, s3)" by fastforce
  from assms w pr obtain t where t: "dropWhile isLength s3 = [t]"
    "it = Specifier (takeWhile isFlag (tl s)) w pr (takeWhile isLength s3) t"
    by (auto simp: parse_spec_def Let_def split: if_splits list.splits)
  have "suffix [t] s3" using t(1) suffix_dropWhile [of isLength s3] by simp
  also have "suffix s3 s2" using parse_precision_suffix [of s2] pr by simp
  also have "suffix s2 ?s1" using parse_width_suffix [of ?s1] w by simp
  also have "suffix ?s1 (tl s)" by (rule suffix_dropWhile)
  also have "suffix (tl s) s" by (rule suffix_tl)
  finally have "last s = t" by (auto dest: suffix_last)
  with t(2) that show thesis by blast
qed

lemma printf_char_not_Nil:
  assumes "printf_text ff fmt v = Inr s" "last fmt = CHR ''c''"
  shows "s \<noteq> []"
proof -
  from assms(1) obtain it where it: "parse_spec fmt = Some it" "conversion_text ff it v = Inr s"
    by (auto simp: printf_text_def sum_bind_Inr_iff split: option.splits if_splits)
  obtain fl w pr ln where "it = Specifier fl w pr ln CHR ''c''"
    using parse_spec_last [OF it(1)] assms(2) by metis
  with it(2) show ?thesis
    by (auto simp: conversion_text_def field_def Let_def split: vararg.splits if_splits)
qed

lemma printf_text_bound: "printf_text ff fmt v = Inr s \<Longrightarrow> length s < 2 ^ 31"
  by (auto simp: printf_text_def INT_MAX_def sum_bind_Inr_iff split: option.splits if_splits)

lemma snprintf_at_Inr:
  assumes "snprintf_at env lb pos n fmt v = Inr (l, lb')"
  obtains s where "printf_text (float_text env) fmt v = Inr s" "l = length s"
    "addr lb' = addr lb" "bufflen lb' = bufflen lb"
    "n = 0 \<or> pos + min n (length s + 1) \<le> bufflen lb"
  using assms length_snprintf_bytes [of n]
  by (auto simp: snprintf_at_def lb_write_def sum_bind_Inr_iff snprintf_bytes_def split: sum.splits if_splits)

lemma snprintf_at_retry: "snprintf_at env lb pos n fmt v \<noteq> Inl Retry_limit"
  by (auto simp: snprintf_at_def lb_write_def split: sum.splits)

subsection \<open>Numbers and characters\<close>

text \<open>
  What an attempt returns: the write position and \<^verbatim>\<open>reserved\<close> add up to the size of the buffer again, and
  the text is shorter than \<^verbatim>\<open>reserved\<close>.
\<close>

definition attempt_ok :: "nat \<Rightarrow> nat \<Rightarrow> decode_error + (int \<times> log_buffer \<times> nat) \<Rightarrow> bool" where
  "attempt_ok off reserved res \<longleftrightarrow>
     (case res of
        Inl e \<Rightarrow> e \<noteq> Retry_limit
      | Inr (len, lb, r) \<Rightarrow> off + r = bufflen lb \<and> 0 < bufflen lb \<and> - 1 \<le> len \<and> len \<le> int r
          \<and> (r = reserved \<or> r < 2 ^ 33))"

lemma decodeNonStringFmt_attempt:
  assumes pa: "passed_argument n (last fmt) pm p = Some (bounded, v)"
    and s: "printf_text (float_text env) fmt v = Inr s"
    and inv: "off + reserved = bufflen lb" "0 < bufflen lb"
    and room: "length s < reserved \<or> (\<forall>lb'. off + 2 * length s = bufflen lb' \<longrightarrow> 0 < bufflen lb' \<longrightarrow> s \<noteq> [] \<longrightarrow>
      attempt_ok off (2 * length s) (decodeNonStringFmt env k lb' (2 * length s) off fmt pm p n))"
  shows "attempt_ok off reserved (decodeNonStringFmt env (Suc k) lb reserved off fmt pm p n)"
proof (cases "snprintf_at env lb off (if bounded then reserved else bufflen lb) fmt v")
  case (Inl e)
  moreover have "e \<noteq> Retry_limit" using Inl snprintf_at_retry by metis
  ultimately show ?thesis using pa by (simp add: attempt_ok_def)
next
  case (Inr r)
  obtain l lb1 where sn: "snprintf_at env lb off (if bounded then reserved else bufflen lb) fmt v = Inr (l, lb1)"
    using Inr by (cases r) auto
  have lb1: "l = length s" "addr lb1 = addr lb" "bufflen lb1 = bufflen lb"
    "(if bounded then reserved else bufflen lb) = 0
      \<or> off + min (if bounded then reserved else bufflen lb) (length s + 1) \<le> bufflen lb"
    by (rule snprintf_at_Inr [OF sn]; use s in simp)+
  show ?thesis
  proof (cases "reserved \<le> length s")
    case False
    with pa sn lb1 inv show ?thesis by (simp add: attempt_ok_def)
  next
    case True
    let ?new = "2 * length s + off"
    have new: "sub64 (2 * length s + bufflen lb1) reserved = ?new" using inv(1) lb1(3) by simp
    have ne: "s \<noteq> []"
    proof
      assume "s = []"
      with True inv have "reserved = 0" "off = bufflen lb" by auto
      moreover have "bounded"
        using lb1(4) inv(2) \<open>s = []\<close> \<open>off = bufflen lb\<close> by (auto simp: min_def split: if_splits)
      then have "last fmt = CHR ''c''" using pa by (auto simp: passed_argument_def Let_def split: if_splits)
      with printf_char_not_Nil [OF s] \<open>s = []\<close> show False by simp
    qed
    show ?thesis
    proof (cases "malloc env (addr lb1) ?new = 0")
      case m: True
      have "decodeNonStringFmt env (Suc k) lb reserved off fmt pm p n = Inr (- 1, lb1, reserved)"
        using pa sn lb1(1) True new m by (simp add: resize_log_buffer_def Let_def)
      with inv lb1(3) show ?thesis by (simp add: attempt_ok_def)
    next
      case m: False
      let ?lb = "lb1\<lparr>addr := malloc env (addr lb1) ?new, bufflen := ?new\<rparr>"
      have "\<not> ?new < bufflen lb1" using True inv(1) lb1(3) by simp
      then have "decodeNonStringFmt env (Suc k) lb reserved off fmt pm p n =
          decodeNonStringFmt env k ?lb (2 * length s) off fmt pm p n"
        using pa sn lb1(1) True new m by (simp add: resize_log_buffer_def Let_def)
      moreover have "attempt_ok off (2 * length s) (decodeNonStringFmt env k ?lb (2 * length s) off fmt pm p n)"
        using room True ne by auto
      moreover have "2 * length s < 2 ^ 33" using printf_text_bound [OF s] by simp
      ultimately show ?thesis by (auto simp: attempt_ok_def split: sum.splits)
    qed
  qed
qed

lemma decodeNonStringFmt_ok:
  assumes "off + reserved = bufflen lb" "0 < bufflen lb"
  shows "attempt_ok off reserved (decodeNonStringFmt env (Suc (Suc k)) lb reserved off fmt pm p n)"
proof (cases "passed_argument n (last fmt) pm p")
  case None
  with assms show ?thesis by (simp add: attempt_ok_def)
next
  case (Some bv)
  then obtain bounded v where pa: "passed_argument n (last fmt) pm p = Some (bounded, v)" by (cases bv) auto
  show ?thesis
  proof (cases "printf_text (float_text env) fmt v")
    case (Inl e)
    with pa show ?thesis by (simp add: attempt_ok_def snprintf_at_def)
  next
    case s: (Inr s)
    show ?thesis
    proof (rule decodeNonStringFmt_attempt [OF pa s assms], intro disjI2 allI impI)
      fix lb' :: log_buffer
      assume "off + 2 * length s = bufflen lb'" "0 < bufflen lb'" "s \<noteq> []"
      then show "attempt_ok off (2 * length s) (decodeNonStringFmt env (Suc k) lb' (2 * length s) off fmt pm p n)"
        by (intro decodeNonStringFmt_attempt [OF pa s]) auto
    qed
  qed
qed

subsection \<open>Strings\<close>

lemma decodeStringFmt_ok:
  assumes "off + reserved = bufflen lb" "0 < bufflen lb"
  shows "attempt_ok off reserved (decodeStringFmt env lb reserved off pm p n fmt)"
proof -
  let ?v = "VString (c_string_at pm p n)"
  show ?thesis
  proof (cases "asserts env \<and> sub64 (addr lb) off \<noteq> sub64 (bufflen lb) reserved
      \<or> DEFAULT_PARAM_CACHE_SIZE \<le> n \<and> malloc env (addr lb) (n + 1) = 0")
    case True
    with assms show ?thesis by (auto simp: decodeStringFmt_def attempt_ok_def)
  next
    case False
    show ?thesis
    proof (cases "snprintf_at env lb off reserved fmt ?v")
      case (Inl e)
      moreover have "e \<noteq> Retry_limit" using Inl snprintf_at_retry by metis
      ultimately show ?thesis using False by (auto simp: decodeStringFmt_def attempt_ok_def)
    next
      case (Inr r)
      then obtain l lb1 where sn: "snprintf_at env lb off reserved fmt ?v = Inr (l, lb1)" by (cases r) auto
      obtain s where s: "printf_text (float_text env) fmt ?v = Inr s" "l = length s" "bufflen lb1 = bufflen lb"
        "addr lb1 = addr lb" by (rule snprintf_at_Inr [OF sn])
      let ?new = "l + 1 + off"
      have new: "sub64 (l + 1 + bufflen lb1) reserved = ?new" "sub64 (?new + reserved) (bufflen lb1) = l + 1"
        using assms(1) s(3) by auto
      let ?lb = "lb1\<lparr>addr := malloc env (addr lb1) ?new, bufflen := ?new\<rparr>"
      show ?thesis
      proof (cases "snprintf_at env ?lb off (l + 1) fmt ?v")
        case (Inl e)
        moreover have "e \<noteq> Retry_limit" using Inl snprintf_at_retry by metis
        ultimately show ?thesis
          using False sn new assms s(3) by (auto simp: decodeStringFmt_def attempt_ok_def Let_def)
      next
        case (Inr r)
        then obtain l' lb2 where sn2: "snprintf_at env ?lb off (l + 1) fmt ?v = Inr (l', lb2)" by (cases r) auto
        have "bufflen lb2 = ?new" by (rule snprintf_at_Inr [OF sn2]) simp
        with sn2 False sn new assms s(3) printf_text_bound [OF s(1)] s(2) show ?thesis
          by (auto simp: decodeStringFmt_def attempt_ok_def Let_def)
      qed
    qed
  qed
qed

subsection \<open>The loop over the format\<close>

lemma process_param_ok:
  assumes inv: "snd log_pos + reserved = bufflen lb" "0 < bufflen lb" "reserved < 2 ^ 63"
  shows "case process_param env types sizes pm fmt idx p log_pos reserved lb of
      Inl e \<Rightarrow> e \<noteq> Retry_limit
    | Inr (continue, p', log_pos', reserved', lb') \<Rightarrow> continue \<longrightarrow>
        snd log_pos' + reserved' = bufflen lb' \<and> 0 < bufflen lb' \<and> (reserved' \<le> reserved + 1 \<or> reserved' \<le> 2 ^ 33)"
proof -
  have step: "case sum_bind (advance log_pos len) (\<lambda>log_pos. Inr (True, q, log_pos,
        nat ((int r - len) mod 2 ^ 64), lb')) of
      Inl e \<Rightarrow> e \<noteq> Retry_limit
    | Inr (continue, p', log_pos', reserved', lb') \<Rightarrow> continue \<longrightarrow>
        snd log_pos' + reserved' = bufflen lb' \<and> 0 < bufflen lb' \<and> (reserved' \<le> reserved + 1 \<or> reserved' \<le> 2 ^ 33)"
    if "attempt_ok (snd log_pos) reserved (Inr (len, lb', r))" for len lb' r and q :: nat
  proof -
    have a: "snd log_pos + r = bufflen lb'" "0 < bufflen lb'" "- 1 \<le> len" "len \<le> int r"
      "r = reserved \<or> r < 2 ^ 33"
      using that by (auto simp: attempt_ok_def)
    have "r < 2 ^ 63" using a(5) inv(3) by auto
    then have "nat ((int r - len) mod 2 ^ 64) = nat (int r - len)" using a(3,4) by (intro nat_mod_64) auto
    with a show ?thesis by (auto simp: advance_def)
  qed
  note s = decodeStringFmt_ok [OF inv(1,2)] and n = decodeNonStringFmt_ok [OF inv(1,2)]
  have rb: "retry_bound = Suc (Suc 1)" by (simp add: retry_bound_def)
  show ?thesis
  proof (cases "kNON_STRING < types ! idx")
    case True
    show ?thesis
    proof (cases "decodeStringFmt env lb reserved (snd log_pos) pm (p + 4) (le_nat (mem_read pm p 4)) fmt")
      case (Inl e)
      with True s [of env pm "p + 4" "le_nat (mem_read pm p 4)" fmt] show ?thesis
        by (simp add: process_param_def Let_def attempt_ok_def)
    next
      case (Inr res)
      then obtain len lb' r where d: "decodeStringFmt env lb reserved (snd log_pos) pm (p + 4)
          (le_nat (mem_read pm p 4)) fmt = Inr (len, lb', r)" by (cases res) auto
      with s [of env pm "p + 4" "le_nat (mem_read pm p 4)" fmt]
      have "attempt_ok (snd log_pos) reserved (Inr (len, lb', r))" by simp
      from step [OF this, of "p + 4 + le_nat (mem_read pm p 4)"] d True show ?thesis
        by (simp add: process_param_def Let_def)
    qed
  next
    case False
    show ?thesis
    proof (cases "decodeNonStringFmt env retry_bound lb reserved (snd log_pos) fmt pm p (sizes ! idx)")
      case (Inl e)
      with False n [of env 1 fmt pm p "sizes ! idx"] show ?thesis
        by (simp add: process_param_def attempt_ok_def rb del: decodeNonStringFmt.simps)
    next
      case (Inr res)
      then obtain len lb' r where d: "decodeNonStringFmt env retry_bound lb reserved (snd log_pos) fmt pm p
          (sizes ! idx) = Inr (len, lb', r)" by (cases res) auto
      with n [of env 1 fmt pm p "sizes ! idx"]
      have "attempt_ok (snd log_pos) reserved (Inr (len, lb', r))"
        by (simp add: rb del: decodeNonStringFmt.simps)
      from step [OF this, of "p + sizes ! idx"] d False show ?thesis
        by (simp add: process_param_def)
    qed
  qed
qed

lemma lb_put_Inr:
  assumes "lb_put lb log_pos c = Inr lb'" "snd log_pos + reserved = bufflen lb" "0 < bufflen lb"
  shows "snd log_pos + 1 + sub64 reserved 1 = bufflen lb' \<and> 0 < bufflen lb' \<and> sub64 reserved 1 < reserved"
proof -
  have "1 \<le> reserved" using assms by (auto simp: lb_put_def lb_write_def split: if_splits)
  with assms show ?thesis by (auto simp: lb_put_def lb_write_def split: if_splits)
qed

lemma lb_put_retry: "lb_put lb log_pos c \<noteq> Inl Retry_limit"
  by (simp add: lb_put_def lb_write_def)

lemma process_fmt_loop_retry:
  assumes "snd log_pos + reserved = bufflen lb" "0 < bufflen lb"
    and "reserved + (length fmt - pos) < 2 ^ 63" "length fmt < 2 ^ 62"
  shows "process_fmt_loop env fmt n types sizes pm pos idx p log_pos reserved lb \<noteq> Inl Retry_limit"
  using assms
proof (induction "length fmt - pos" arbitrary: pos idx p log_pos reserved lb rule: less_induct)
  case less
  let ?loop = "process_fmt_loop env fmt n types sizes pm"
  have literal: "sum_bind (lb_put lb log_pos c) (\<lambda>lb.
      ?loop pos' idx p (fst log_pos, snd log_pos + 1) (sub64 reserved 1) lb) \<noteq> Inl Retry_limit"
    if "pos < pos'" "pos < length fmt" for c pos'
  proof (cases "lb_put lb log_pos c")
    case (Inl e)
    with lb_put_retry [of lb log_pos c] show ?thesis by simp
  next
    case (Inr lb')
    note l = lb_put_Inr [OF this less.prems(1,2)]
    have "?loop pos' idx p (fst log_pos, snd log_pos + 1) (sub64 reserved 1) lb' \<noteq> Inl Retry_limit"
      using that l less.prems(3,4) by (intro less.hyps) auto
    with Inr show ?thesis by simp
  qed
  have param: "sum_bind (process_param env types sizes pm f idx p log_pos reserved lb)
      (\<lambda>(continue, p, log_pos, reserved, lb).
         if \<not> continue then Inr (False, lb, reserved)
         else ?loop (e + 1) (idx + 1) p log_pos reserved lb) \<noteq> Inl Retry_limit"
    if e: "pos \<le> e" "pos < length fmt" for f e
  proof -
    have "reserved < 2 ^ 63" using less.prems(3) by simp
    note p = process_param_ok [OF less.prems(1,2) this, of env types sizes pm f idx p]
    show ?thesis
    proof (cases "process_param env types sizes pm f idx p log_pos reserved lb")
      case (Inl err)
      with p show ?thesis by simp
    next
      case (Inr r)
      obtain c q lp' res' lb' where r: "r = (c, q, lp', res', lb')" by (cases r) auto
      show ?thesis
      proof (cases c)
        case True
        with p Inr r have v: "snd lp' + res' = bufflen lb'" "0 < bufflen lb'" "res' \<le> reserved + 1 \<or> res' \<le> 2 ^ 33"
          by auto
        have "res' + (length fmt - (e + 1)) < 2 ^ 63" using v(3) e less.prems(3,4) by auto
        then have "?loop (e + 1) (idx + 1) q lp' res' lb' \<noteq> Inl Retry_limit"
          using e v(1,2) less.prems(4) by (intro less.hyps) auto
        with Inr r True show ?thesis by simp
      qed (use Inr r in simp)
    qed
  qed
  show ?case
  proof (cases "pos < length fmt")
    case pos: True
    have e: "pos \<le> e" if "scan_terminal fmt (pos + 1) = Some e" for e
      using that by (auto simp: scan_terminal_def Let_def split: if_splits)
    show ?thesis
      by (subst process_fmt_loop.simps)
         (use pos literal [of "pos + 1"] literal [of "pos + 2"] param e in \<open>simp add: Let_def split: option.split\<close>)
  qed (subst process_fmt_loop.simps, simp)
qed

text \<open>More attempts change nothing once there were enough.\<close>

lemma decodeNonStringFmt_mono:
  "decodeNonStringFmt env k lb reserved off fmt pm p n \<noteq> Inl Retry_limit \<Longrightarrow>
     decodeNonStringFmt env (k + j) lb reserved off fmt pm p n = decodeNonStringFmt env k lb reserved off fmt pm p n"
proof (induction k arbitrary: lb reserved)
  case 0
  then show ?case by simp
next
  case (Suc k)
  show ?case
  proof (cases "passed_argument n (last fmt) pm p")
    case (Some bv)
    then obtain bounded v where pa: "passed_argument n (last fmt) pm p = Some (bounded, v)" by (cases bv) auto
    show ?thesis
    proof (cases "snprintf_at env lb off (if bounded then reserved else bufflen lb) fmt v")
      case (Inr r)
      obtain l lb1 where sn: "snprintf_at env lb off (if bounded then reserved else bufflen lb) fmt v = Inr (l, lb1)"
        using Inr by (cases r) auto
      show ?thesis
      proof (cases "resize_log_buffer env lb1 (sub64 (2 * l + bufflen lb1) reserved)")
        case (Inl e)
        with pa sn show ?thesis by (simp del: sub64_le)
      next
        case (Inr r)
        then obtain ret lb2 where "resize_log_buffer env lb1 (sub64 (2 * l + bufflen lb1) reserved) = Inr (ret, lb2)"
          by (cases r) auto
        with pa sn Suc show ?thesis by (auto simp del: sub64_le)
      qed
    qed (use pa in simp)
  qed simp
qed

subsection \<open>Properties\<close>

text \<open>
  C40. Formatting a record ends: with a non-empty log buffer and a start position inside it, the bound of
  the model on starting over is never met, for any format, memory and environment; at the start position
  two attempts at a number give the result of any larger number of attempts.
\<close>

theorem process_fmt_terminates:
  assumes "start_pos \<le> bufflen lb" "0 < bufflen lb" "bufflen lb < 2 ^ 62" "length fmt < 2 ^ 62"
  shows "process_fmt env fmt n types sizes pm p lb start_pos \<noteq> Inl Retry_limit
    \<and> decodeNonStringFmt env (2 + k) lb (bufflen lb - start_pos) start_pos spec pm p k0 =
        decodeNonStringFmt env 2 lb (bufflen lb - start_pos) start_pos spec pm p k0"
proof -
  have "process_fmt_loop env fmt n types sizes pm 0 0 p (addr lb, start_pos) (bufflen lb - start_pos) lb
      \<noteq> Inl Retry_limit"
    using assms by (intro process_fmt_loop_retry) auto
  then have "process_fmt env fmt n types sizes pm p lb start_pos \<noteq> Inl Retry_limit"
    using assms(1) by (auto simp: process_fmt_def sum_bind_Inl_iff split: sum.splits)
  moreover have "decodeNonStringFmt env 2 lb (bufflen lb - start_pos) start_pos spec pm p k0 \<noteq> Inl Retry_limit"
    using decodeNonStringFmt_ok [of start_pos "bufflen lb - start_pos" lb env 0 spec pm p k0] assms(1,2)
    by (auto simp: attempt_ok_def numeral_2_eq_2 simp del: decodeNonStringFmt.simps)
  ultimately show ?thesis using decodeNonStringFmt_mono by blast
qed

theorem process_fmt_terminates_witness:
  "process_fmt sample_env ''%d%c'' 2 [kNON_STRING, kNON_STRING] [4, 1] (\<lambda>_. CHR ''x'') 0 (sample_buffer 34) 31
     \<noteq> Inl Retry_limit
   \<and> decodeNonStringFmt sample_env (2 + 7) (sample_buffer 34) (bufflen (sample_buffer 34) - 31) 31 ''%c'' (\<lambda>_. CHR ''x'') 0 1 =
       decodeNonStringFmt sample_env 2 (sample_buffer 34) (bufflen (sample_buffer 34) - 31) 31 ''%c'' (\<lambda>_. CHR ''x'') 0 1"
  by (rule process_fmt_terminates) (simp_all add: sample_buffer_def)

end
