(* ===== verification/LogLevels.thy ===== *)
theory LogLevels
  imports FormatParser
begin

section \<open>Log levels and the static information of a log statement\<close>

text \<open>
  \<^verbatim>\<open>enum LogLevel\<close> of \<^verbatim>\<open>src/src/static_log.h\<close> and \<^verbatim>\<open>struct StaticInfo\<close> of
  \<^verbatim>\<open>src/src/static_log_internal.h\<close>. The enumeration has no fixed underlying type; its values are kept
  in 32 unsigned bits, the type the platform's ABI chooses, because \<^verbatim>\<open>setLogLevel\<close> compares values that
  are not enumerators.
\<close>

type_synonym log_level = "32 word"

definition kSILENT_LOG_LEVEL :: log_level where "kSILENT_LOG_LEVEL = 0"
definition kERROR :: log_level where "kERROR = 1"
definition kWARNING :: log_level where "kWARNING = 2"
definition kNOTICE :: log_level where "kNOTICE = 3"
definition kDEBUG :: log_level where "kDEBUG = 4"
definition kNUM_LOG_LEVELS :: log_level where "kNUM_LOG_LEVELS = 5"

lemmas log_level_defs = kSILENT_LOG_LEVEL_def kERROR_def kWARNING_def kNOTICE_def kDEBUG_def
  kNUM_LOG_LEVELS_def

record StaticInfo =
  num_params :: nat
  param_types :: "ParamType list"
  format :: string
  log_level :: log_level
  function_name :: string
  line :: nat

text \<open>The names printed, indexed by the level.\<close>

definition log_level_str :: "string list" where
  "log_level_str = [''non'', ''error'', ''warn'', ''notice'', ''debug'']"

lemma log_level_names:
  "length log_level_str = unat kNUM_LOG_LEVELS"
  "log_level_str ! unat kERROR = ''error''" "log_level_str ! unat kWARNING = ''warn''"
  "log_level_str ! unat kNOTICE = ''notice''" "log_level_str ! unat kDEBUG = ''debug''"
  by (simp_all add: log_level_str_def log_level_defs)

end
