(* ===== verification/Backend.thy ===== *)
theory Backend
  imports StagingBuffer LogLevels Decode
begin

section \<open>The backend object\<close>

text \<open>
  \<^verbatim>\<open>class StaticLogBackend\<close> of \<^verbatim>\<open>src/src/static_log_backend.h\<close>, of which there is one object, and the
  functions of \<^verbatim>\<open>src/src/static_log.cc\<close> that delegate to it. The state holds the members of the
  object, the thread-local \<^verbatim>\<open>staging_buffer_\<close> pointers, the heap objects they point to, the static
  \<^verbatim>\<open>param_size\<close> arrays of the log statements and the part of the file system the backend uses. Threads
  are numbers; so are the addresses of staging buffers and of static data. Each operation is atomic
  here: the buffer operations are interleaved in \<open>SpscSteps\<close>.
\<close>

datatype worker = Running | Waiting | Finished

record backend =
  current_log_level :: log_level
  next_buffer_id :: "32 word"
  thread_buffers :: "nat list"
  is_stop :: bool
  is_exit :: bool
  fdflush_joinable :: bool
  fdflush :: worker
  outfd :: "(string \<times> nat) option" \<comment> \<open>the open file and its offset; none for \<^verbatim>\<open>-1\<close>\<close>
  log_buf :: log_buffer
  staging_ptr :: "nat \<Rightarrow> nat option" \<comment> \<open>\<^verbatim>\<open>staging_buffer_\<close> of each thread\<close>
  heap :: "nat \<Rightarrow> staging_buffer option"
  param_sizes :: "nat \<Rightarrow> 64 word list"
  files :: "string \<Rightarrow> byte list option"

datatype backend_error =
    Start_failed \<comment> \<open>\<^verbatim>\<open>exit(-1)\<close> in the constructor\<close>
  | Not_joinable \<comment> \<open>\<^verbatim>\<open>std::thread::join\<close> throws\<close>
  | Null_dereference
  | Buffer_assertion assertion

subsection \<open>Files\<close>

text \<open>
  \<^verbatim>\<open>open(name, O_RDWR|O_CREAT, 0666)\<close>, given whether the system allows it: an existing file keeps its
  contents, a new one is empty, and the offset is 0 in both cases.
\<close>

definition open_log :: "(string \<Rightarrow> bool) \<Rightarrow> string \<Rightarrow> backend \<Rightarrow> backend" where
  "open_log can_open name s =
     (if can_open name
      then s\<lparr>outfd := Some (name, 0),
             files := (files s)(name := (case files s name of None \<Rightarrow> Some [] | Some c \<Rightarrow> Some c))\<rparr>
      else s\<lparr>outfd := None\<rparr>)"

text \<open>\<^verbatim>\<open>write\<close>, which replaces the bytes at the offset and advances it.\<close>

definition overwrite :: "byte list \<Rightarrow> nat \<Rightarrow> byte list \<Rightarrow> byte list" where
  "overwrite c off bs =
     take off c @ replicate (off - length c) NUL @ bs @ drop (off + length bs) c"

definition write_log :: "byte list \<Rightarrow> backend \<Rightarrow> backend" where
  "write_log bs s =
     (case outfd s of
        None \<Rightarrow> s
      | Some (name, off) \<Rightarrow>
          s\<lparr>outfd := Some (name, off + length bs),
            files := (files s)(name := map_option (\<lambda>c. overwrite c off bs) (files s name))\<rparr>)"

subsection \<open>Construction and destruction\<close>

definition DEFALT_CACHE_SIZE :: nat where
  "DEFALT_CACHE_SIZE = 1024 * 1024"

definition DEFAULT_LOGFILE :: string where
  "DEFAULT_LOGFILE = ''log.txt''"

text \<open>
  The constructor, over the state before it, of which the heap, the static data and the files are
  kept; \<open>buffer\<close> is the address \<^verbatim>\<open>malloc\<close> returns (0 for failure).
\<close>

definition StaticLogBackend :: "(string \<Rightarrow> bool) \<Rightarrow> nat \<Rightarrow> backend \<Rightarrow> backend_error + backend" where
  "StaticLogBackend can_open buffer s =
     (let s = open_log can_open DEFAULT_LOGFILE
          (s\<lparr>current_log_level := kDEBUG, next_buffer_id := 0, thread_buffers := [],
             is_stop := False, is_exit := False, outfd := None\<rparr>)
      in if outfd s = None then Inl Start_failed
         else if buffer = 0 then Inl Start_failed
         else Inr (s\<lparr>log_buf := \<lparr>addr = buffer, content = content (log_buf s), bufflen = DEFALT_CACHE_SIZE\<rparr>,
                     fdflush_joinable := True, fdflush := Running\<rparr>))"

text \<open>The destructor, after the worker it waits for has ended.\<close>

definition destroy_StaticLogBackend :: "backend \<Rightarrow> backend" where
  "destroy_StaticLogBackend s =
     s\<lparr>is_stop := True, fdflush := Finished, fdflush_joinable := False, outfd := None,
       log_buf := (log_buf s)\<lparr>bufflen := 0\<rparr>\<rparr>"

subsection \<open>Log levels\<close>

definition getLogLevel :: "backend \<Rightarrow> log_level" where
  "getLogLevel s = current_log_level s"

definition setLogLevel :: "log_level \<Rightarrow> backend \<Rightarrow> backend" where
  "setLogLevel l s =
     (let l = (if l < 0 then 0 else if kNUM_LOG_LEVELS \<le> l then kNUM_LOG_LEVELS - 1 else l)
      in s\<lparr>current_log_level := l\<rparr>)"

subsection \<open>The log file and the worker thread\<close>

text \<open>
  \<^verbatim>\<open>setLogFile\<close>: the worker is told to leave and joined, then restarted unless the file cannot be
  opened.
\<close>

definition setLogFile :: "(string \<Rightarrow> bool) \<Rightarrow> string \<Rightarrow> backend \<Rightarrow> backend_error + backend" where
  "setLogFile can_open log_file s =
     (let s = s\<lparr>is_stop := True, is_exit := True\<rparr>
      in if \<not> fdflush_joinable s then Inl Not_joinable
         else
           (let s = s\<lparr>fdflush_joinable := False, fdflush := Finished, is_exit := False\<rparr>;
                s = open_log can_open log_file (s\<lparr>outfd := None\<rparr>)
            in if outfd s = None then Inr s
               else Inr (s\<lparr>fdflush_joinable := True, fdflush := Running\<rparr>)))"

text \<open>\<^verbatim>\<open>sync\<close>: wakes the worker if it waits.\<close>

definition sync :: "backend \<Rightarrow> backend" where
  "sync s = (if fdflush s = Waiting then s\<lparr>fdflush := Running\<rparr> else s)"

subsection \<open>The staging buffer of a thread\<close>

text \<open>\<open>p\<close> is the address \<^verbatim>\<open>new\<close> returns.\<close>

definition ensureStagingBufferAllocated :: "nat \<Rightarrow> nat \<Rightarrow> backend \<Rightarrow> backend" where
  "ensureStagingBufferAllocated t p s =
     (if staging_ptr s t = None then
        (let bufferId = next_buffer_id s
         in s\<lparr>next_buffer_id := bufferId + 1,
              heap := (heap s)(p \<mapsto> new_StagingBuffer (unat bufferId)),
              staging_ptr := (staging_ptr s)(t \<mapsto> p),
              thread_buffers := thread_buffers s @ [p]\<rparr>)
      else s)"

definition preallocate :: "nat \<Rightarrow> nat \<Rightarrow> backend \<Rightarrow> backend" where
  "preallocate t p s = ensureStagingBufferAllocated t p s"

text \<open>
  \<^verbatim>\<open>reserveAlloc\<close>; if it has to wait, the producer reads the consumer's position that many times, and
  meets the same value because the operation is atomic here.
\<close>

definition reserveAlloc ::
  "nat \<Rightarrow> nat \<Rightarrow> nat \<Rightarrow> nat \<Rightarrow> backend \<Rightarrow> backend_error + (reservation \<times> backend)" where
  "reserveAlloc t p nbytes reads s =
     (let s = (if staging_ptr s t = None then ensureStagingBufferAllocated t p s else s)
      in case staging_ptr s t of
           None \<Rightarrow> Inl Null_dereference
         | Some q \<Rightarrow>
             (case heap s q of
                None \<Rightarrow> Inl Null_dereference
              | Some b \<Rightarrow>
                  (case reserveProducerSpace nbytes (replicate reads (consumer_pos b)) b of
                     (r, b') \<Rightarrow> Inr (r, s\<lparr>heap := (heap s)(q \<mapsto> b')\<rparr>))))"

definition finishAlloc :: "nat \<Rightarrow> nat \<Rightarrow> backend \<Rightarrow> backend_error + backend" where
  "finishAlloc t nbytes s =
     (case staging_ptr s t of
        None \<Rightarrow> Inl Null_dereference
      | Some q \<Rightarrow>
          (case heap s q of
             None \<Rightarrow> Inl Null_dereference
           | Some b \<Rightarrow>
               (case finishReservation nbytes b of
                  Inl e \<Rightarrow> Inl (Buffer_assertion e)
                | Inr b' \<Rightarrow> Inr (s\<lparr>heap := (heap s)(q \<mapsto> b')\<rparr>))))"

text \<open>
  The end of a thread: the destructor of the thread-local \<^verbatim>\<open>StagingBufferDestroyer\<close> sets the flag, and
  the thread's \<^verbatim>\<open>staging_buffer_\<close> ceases to exist.
\<close>

definition thread_exit :: "nat \<Rightarrow> backend \<Rightarrow> backend" where
  "thread_exit t s =
     (case staging_ptr s t of
        None \<Rightarrow> s
      | Some q \<Rightarrow> s\<lparr>heap := (heap s)(q := map_option (\<lambda>b. b\<lparr>should_deallocate := True\<rparr>) (heap s q)),
                   staging_ptr := (staging_ptr s)(t := None)\<rparr>)"

subsection \<open>What a log statement relies on\<close>

text \<open>The stores of thread \<open>t\<close> through the pointer \<open>q\<close> it was given.\<close>

definition store_at :: "nat \<Rightarrow> nat \<Rightarrow> byte list \<Rightarrow> backend \<Rightarrow> backend" where
  "store_at t q r s =
     (case staging_ptr s t of
        None \<Rightarrow> s
      | Some p \<Rightarrow> s\<lparr>heap := (heap s)(p := map_option (\<lambda>b. b\<lparr>storage := mem_write (storage b) q r\<rparr>) (heap s p))\<rparr>)"

text \<open>The records of a thread: none before it has a buffer.\<close>

definition thread_records :: "backend \<Rightarrow> nat \<Rightarrow> byte list list \<Rightarrow> bool" where
  "thread_records s t rs \<longleftrightarrow>
     (case staging_ptr s t of
        None \<Rightarrow> rs = []
      | Some p \<Rightarrow> (case heap s p of None \<Rightarrow> False | Some b \<Rightarrow> sb_records b rs))"

text \<open>
  The contract of \<open>reserve\<close>, \<open>store\<close> and \<open>finish\<close>: a reservation changes no record, and filling it with
  a record and finishing it appends the record to those of the thread.
\<close>

locale record_space =
  fixes holds :: "'s \<Rightarrow> 't \<Rightarrow> byte list list \<Rightarrow> bool"
    and valid :: "byte list \<Rightarrow> bool"
    and reserve :: "'t \<Rightarrow> nat \<Rightarrow> 's \<Rightarrow> 'e + (reservation \<times> 's)"
    and store :: "'t \<Rightarrow> nat \<Rightarrow> byte list \<Rightarrow> 's \<Rightarrow> 's"
    and finish :: "'t \<Rightarrow> nat \<Rightarrow> 's \<Rightarrow> 'e + 's"
  assumes reserve_total: "holds s t rs \<Longrightarrow> \<exists>x s'. reserve t n s = Inr (x, s') \<and> holds s' t rs"
    and finish_appends: "holds s t rs \<Longrightarrow> valid r \<Longrightarrow> reserve t (length r) s = Inr (Reserved q, s') \<Longrightarrow>
      \<exists>s''. finish t (length r) (store t q r s') = Inr s'' \<and> holds s'' t (rs @ [r])"

text \<open>Logging a list of records one after the other; the flag says which were accepted.\<close>

fun log_records ::
  "('t \<Rightarrow> nat \<Rightarrow> 's \<Rightarrow> 'e + (reservation \<times> 's)) \<Rightarrow> ('t \<Rightarrow> nat \<Rightarrow> byte list \<Rightarrow> 's \<Rightarrow> 's)
     \<Rightarrow> ('t \<Rightarrow> nat \<Rightarrow> 's \<Rightarrow> 'e + 's) \<Rightarrow> 't \<Rightarrow> byte list list \<Rightarrow> 's \<Rightarrow> 'e + (byte list list \<times> 's)" where
  "log_records reserve store finish t [] s = Inr ([], s)"
| "log_records reserve store finish t (r # rs) s =
     sum_bind (reserve t (length r) s) (\<lambda>(x, s).
       case x of
         Reserved q \<Rightarrow>
           sum_bind (finish t (length r) (store t q r s)) (\<lambda>s.
           sum_bind (log_records reserve store finish t rs s) (\<lambda>(acc, s). Inr (r # acc, s)))
       | _ \<Rightarrow> log_records reserve store finish t rs s)"

context record_space
begin

text \<open>No assertion fails, and exactly the accepted records are appended, in order.\<close>

lemma log_records_appends:
  assumes "holds s t hs" "\<forall>r \<in> set rs. valid r"
  shows "\<exists>acc s'. log_records reserve store finish t rs s = Inr (acc, s') \<and> holds s' t (hs @ acc)"
  using assms
proof (induction rs arbitrary: s hs)
  case Nil
  then show ?case by simp
next
  case (Cons r rs)
  obtain x s1 where res: "reserve t (length r) s = Inr (x, s1)" "holds s1 t hs"
    using reserve_total Cons.prems(1) by blast
  show ?case
  proof (cases x)
    case (Reserved q)
    then obtain s2 where s2: "finish t (length r) (store t q r s1) = Inr s2" "holds s2 t (hs @ [r])"
      using finish_appends [OF Cons.prems(1), of r q s1] res Cons.prems(2) by auto
    from Cons.IH [OF s2(2)] Cons.prems(2) res Reserved s2(1) show ?thesis by auto
  qed (use Cons.IH [OF res(2)] Cons.prems(2) res in auto)
qed

end

lemma ensure_staged:
  "\<exists>q. staging_ptr (ensureStagingBufferAllocated t p s) t = Some q
     \<and> (staging_ptr s t = None \<longrightarrow> q = p \<and> heap (ensureStagingBufferAllocated t p s) q =
          Some (new_StagingBuffer (unat (next_buffer_id s))))
     \<and> (staging_ptr s t \<noteq> None \<longrightarrow> ensureStagingBufferAllocated t p s = s)"
  by (cases "staging_ptr s t") (simp_all add: ensureStagingBufferAllocated_def Let_def)

lemma thread_records_ensure:
  "thread_records s t rs \<Longrightarrow> thread_records (ensureStagingBufferAllocated t p s) t rs"
  using ensure_staged [of t p s] sbq.init_holds
  by (auto simp: thread_records_def split: option.splits)

text \<open>What a reservation does to the thread's buffer.\<close>

lemma reserveAlloc_cases:
  assumes "thread_records s t rs"
  obtains q b x b' where
    "staging_ptr (ensureStagingBufferAllocated t p s) t = Some q"
    "heap (ensureStagingBufferAllocated t p s) q = Some b" "sb_records b rs"
    "reserveProducerSpace n (replicate k (consumer_pos b)) b = (x, b')"
    "reserveAlloc t p n k s = Inr (x, (ensureStagingBufferAllocated t p s)
       \<lparr>heap := (heap (ensureStagingBufferAllocated t p s))(q \<mapsto> b')\<rparr>)"
    "sb_records b' rs" "\<And>q'. x = Reserved q' \<Longrightarrow> q' = producer_pos b' \<and> n < min_free_space b'"
proof -
  let ?s = "ensureStagingBufferAllocated t p s"
  obtain q b where q: "staging_ptr ?s t = Some q" "heap ?s q = Some b" "sb_records b rs"
    using thread_records_ensure [OF assms, of p] ensure_staged [of t p s]
    by (auto simp: thread_records_def split: option.splits)
  obtain x b' where x: "reserveProducerSpace n (replicate k (consumer_pos b)) b = (x, b')" by fastforce
  note h = reserveProducerSpace_holds [OF _ _ x, of rs]
  have "reserveAlloc t p n k s = Inr (x, ?s\<lparr>heap := (heap ?s)(q \<mapsto> b')\<rparr>)"
  proof -
    have "(if staging_ptr s t = None then ?s else s) = ?s"
      by (simp add: ensureStagingBufferAllocated_def)
    then show ?thesis using q x unfolding reserveAlloc_def by (simp only: Let_def) simp
  qed
  moreover have "sb_records b' rs" "\<And>q'. x = Reserved q' \<Longrightarrow> q' = producer_pos b' \<and> n < min_free_space b'"
    using h q(3) by (auto simp: sb_records_def)
  ultimately show thesis using that q x by blast
qed

interpretation log_space: record_space thread_records framed "\<lambda>t n. reserveAlloc t p n k" store_at finishAlloc
  for p k
proof
  fix s t rs n
  assume "thread_records s t rs"
  then show "\<exists>x s'. reserveAlloc t p n k s = Inr (x, s') \<and> thread_records s' t rs"
    by (rule reserveAlloc_cases [where p = p and n = n and k = k]) (auto simp: thread_records_def)
next
  fix s t rs r q s'
  assume h: "thread_records s t rs" "framed r" "reserveAlloc t p (length r) k s = Inr (Reserved q, s')"
  from h(1) obtain a b x b' where b: "staging_ptr (ensureStagingBufferAllocated t p s) t = Some a"
    "reserveAlloc t p (length r) k s = Inr (x, (ensureStagingBufferAllocated t p s)
       \<lparr>heap := (heap (ensureStagingBufferAllocated t p s))(a \<mapsto> b')\<rparr>)"
    "sb_records b' rs" "\<And>q'. x = Reserved q' \<Longrightarrow> q' = producer_pos b' \<and> length r < min_free_space b'"
    by (rule reserveAlloc_cases [where p = p and n = "length r" and k = k]) blast
  with h(3) have s': "staging_ptr s' t = Some a" "heap s' a = Some b'" "q = producer_pos b'"
    "length r < min_free_space b'" by auto
  obtain b2 where b2: "finishReservation (length r) (write_reserved r b') = Inr b2" "sb_holds b2 (rs @ [r])"
    using commit_holds [of b' rs r] b(3) s'(4) by (auto simp: sb_records_def)
  with s' b(3) h(2) show "\<exists>s''. finishAlloc t (length r) (store_at t q r s') = Inr s'' \<and>
      thread_records s'' t (rs @ [r])"
    by (auto simp: finishAlloc_def store_at_def write_reserved_def thread_records_def sb_records_def)
qed

subsection \<open>Invariant\<close>

text \<open>
  The registered buffers are exactly the heap objects, each registered once and holding whole
  records; a thread's pointer leads to a registered buffer that is not marked for deletion, and no
  two threads share one.
\<close>

definition registered :: "(nat \<Rightarrow> staging_buffer option) \<Rightarrow> nat list \<Rightarrow> bool" where
  "registered h ps \<longleftrightarrow> distinct ps \<and> (\<forall>p. h p \<noteq> None \<longleftrightarrow> p \<in> set ps)
     \<and> (\<forall>p b. h p = Some b \<longrightarrow> (\<exists>rs. sb_records b rs))"

definition staged :: "(nat \<Rightarrow> nat option) \<Rightarrow> (nat \<Rightarrow> staging_buffer option) \<Rightarrow> bool" where
  "staged ptr h \<longleftrightarrow>
     (\<forall>t p. ptr t = Some p \<longrightarrow> (\<exists>b. h p = Some b \<and> \<not> should_deallocate b))
     \<and> (\<forall>t t' p. ptr t = Some p \<longrightarrow> ptr t' = Some p \<longrightarrow> t = t')"

definition backend_inv :: "backend \<Rightarrow> bool" where
  "backend_inv s \<longleftrightarrow> registered (heap s) (thread_buffers s) \<and> staged (staging_ptr s) (heap s)"

lemma registered_iff: "registered h ps \<Longrightarrow> p \<in> set ps \<longleftrightarrow> (\<exists>b. h p = Some b)"
  by (simp add: registered_def)

lemma registered_records: "registered h ps \<Longrightarrow> h p = Some b \<Longrightarrow> \<exists>rs. sb_records b rs"
  by (simp add: registered_def)

lemma stagedD: "staged ptr h \<Longrightarrow> ptr t = Some p \<Longrightarrow> \<exists>b. h p = Some b \<and> \<not> should_deallocate b"
  by (simp add: staged_def)

lemma staged_inj: "staged ptr h \<Longrightarrow> ptr t = Some p \<Longrightarrow> ptr t' = Some p \<Longrightarrow> t = t'"
  unfolding staged_def by blast

lemma stagedI:
  assumes "\<And>t p. ptr t = Some p \<Longrightarrow> \<exists>b. h p = Some b \<and> \<not> should_deallocate b"
    and "\<And>t t' p. ptr t = Some p \<Longrightarrow> ptr t' = Some p \<Longrightarrow> t = t'"
  shows "staged ptr h"
  unfolding staged_def using assms by blast

lemma backend_invD: "backend_inv s \<Longrightarrow> registered (heap s) (thread_buffers s)"
  "backend_inv s \<Longrightarrow> staged (staging_ptr s) (heap s)"
  by (simp_all add: backend_inv_def)

lemma registered_upd:
  "registered h ps \<Longrightarrow> p \<in> set ps \<Longrightarrow> sb_records b rs \<Longrightarrow> registered (h(p \<mapsto> b)) ps"
  by (auto simp: registered_def)

lemma registered_new:
  assumes "registered h ps" "h p = None" "sb_records b rs"
  shows "registered (h(p \<mapsto> b)) (ps @ [p])"
proof -
  have "p \<notin> set ps" using registered_iff [OF assms(1), of p] assms(2) by simp
  with assms show ?thesis by (auto simp: registered_def)
qed

lemma staged_upd:
  assumes "staged ptr h" "\<And>a. h p = Some a \<Longrightarrow> should_deallocate b = should_deallocate a"
  shows "staged ptr (h(p \<mapsto> b))"
proof (rule stagedI)
  fix t q
  assume "ptr t = Some q"
  with stagedD [OF assms(1) this] assms(2) show "\<exists>a. (h(p \<mapsto> b)) q = Some a \<and> \<not> should_deallocate a"
    by (cases "q = p") auto
qed (rule staged_inj [OF assms(1)])

lemma reserveSpaceInternal_frame:
  "reserveSpaceInternal n bl cs b = (x, b') \<Longrightarrow>
     should_deallocate b' = should_deallocate b \<and> buffer_id b' = buffer_id b"
proof (induction n bl cs b rule: reserveSpaceInternal.induct)
  case (1 n bl b)
  then show ?case by (auto split: if_splits)
next
  case (2 n bl c cs b)
  obtain b1 brk where it: "reserve_iteration n c b = (b1, brk)" by fastforce
  from 2 it reserve_iteration_frame [OF it] show ?case
    by (cases brk) (auto split: if_splits)
qed

lemma reserveProducerSpace_frame:
  "reserveProducerSpace n cs b = (x, b') \<Longrightarrow>
     should_deallocate b' = should_deallocate b \<and> buffer_id b' = buffer_id b"
  by (auto simp: reserveProducerSpace_def Let_def dest: reserveSpaceInternal_frame split: if_splits)

lemma fresh_address:
  assumes "backend_inv s"
  obtains p where "heap s p = None"
proof -
  obtain p where "p \<notin> set (thread_buffers s)" using ex_new_if_finite [OF infinite_UNIV_nat] by blast
  with registered_iff [OF backend_invD(1) [OF assms], of p] that show thesis by auto
qed

lemma thread_records_ex:
  assumes "backend_inv s"
  obtains rs where "thread_records s t rs"
proof (cases "staging_ptr s t")
  case None
  then show ?thesis using that [of "[]"] by (simp add: thread_records_def)
next
  case (Some q)
  then obtain b where b: "heap s q = Some b" using stagedD [OF backend_invD(2) [OF assms]] by blast
  then obtain rs where "sb_records b rs" using registered_records [OF backend_invD(1) [OF assms]] by blast
  with Some b that [of rs] show ?thesis by (simp add: thread_records_def)
qed

lemma ensure_inv:
  assumes "backend_inv s" "heap s p = None"
  shows "backend_inv (ensureStagingBufferAllocated t p s)"
proof (cases "staging_ptr s t")
  case None
  let ?b = "new_StagingBuffer (unat (next_buffer_id s))"
  let ?h = "(heap s)(p \<mapsto> ?b)"
  note st = backend_invD(2) [OF assms(1)]
  have "registered ?h (thread_buffers s @ [p])"
    using backend_invD(1) [OF assms(1)] assms(2) sbq.init_holds by (rule registered_new)
  moreover have "staged ((staging_ptr s)(t \<mapsto> p)) ?h"
  proof (rule stagedI)
    have np: "staging_ptr s t' \<noteq> Some p" for t' using stagedD [OF st, of t' p] assms(2) by auto
    fix t' q
    assume q: "((staging_ptr s)(t \<mapsto> p)) t' = Some q"
    show "\<exists>b. ?h q = Some b \<and> \<not> should_deallocate b"
      using stagedD [OF st, of t' q] q by (cases "t' = t"; cases "q = p") (auto simp: new_StagingBuffer_def)
    fix t''
    assume "((staging_ptr s)(t \<mapsto> p)) t'' = Some q"
    then show "t' = t''" using q np staged_inj [OF st, of t' q t''] by (auto split: if_splits)
  qed
  ultimately show ?thesis
    using None by (simp add: ensureStagingBufferAllocated_def Let_def backend_inv_def)
qed (use assms in \<open>simp add: ensureStagingBufferAllocated_def\<close>)

lemma reserveAlloc_inv:
  assumes "backend_inv s" "heap s p = None" "reserveAlloc t p n k s = Inr (x, s')"
  shows "backend_inv s'"
proof -
  let ?s = "ensureStagingBufferAllocated t p s"
  obtain rs where "thread_records s t rs" using assms(1) by (rule thread_records_ex)
  then obtain q b y b' where q: "staging_ptr ?s t = Some q" "heap ?s q = Some b"
    "reserveProducerSpace n (replicate k (consumer_pos b)) b = (y, b')"
    "reserveAlloc t p n k s = Inr (y, ?s\<lparr>heap := (heap ?s)(q \<mapsto> b')\<rparr>)" "sb_records b' rs"
    by (rule reserveAlloc_cases [where p = p and n = n and k = k]) blast
  have inv: "backend_inv ?s" using assms(1,2) by (rule ensure_inv)
  have "q \<in> set (thread_buffers ?s)" using registered_iff [OF backend_invD(1) [OF inv]] q(2) by blast
  then have "registered ((heap ?s)(q \<mapsto> b')) (thread_buffers ?s)"
    using backend_invD(1) [OF inv] q(5) by (intro registered_upd)
  moreover have "staged (staging_ptr ?s) ((heap ?s)(q \<mapsto> b'))"
    using backend_invD(2) [OF inv] q(2) reserveProducerSpace_frame [OF q(3)] by (intro staged_upd) auto
  ultimately show ?thesis using q(4) assms(3) by (auto simp: backend_inv_def)
qed

lemma sb_records_ended:
  assumes "sb_records b rs"
  shows "sb_records (b\<lparr>should_deallocate := True\<rparr>) rs"
  using assms by (rule sb_records_cong) (use sb_records_inv [OF assms] in \<open>auto simp: sb_inv_def segment_defs\<close>)

lemma thread_exit_inv:
  assumes "backend_inv s"
  shows "backend_inv (thread_exit t s)"
proof (cases "staging_ptr s t")
  case None
  with assms show ?thesis by (simp add: thread_exit_def)
next
  case (Some q)
  note st = backend_invD(2) [OF assms]
  obtain b where b: "heap s q = Some b" using stagedD [OF st Some] by blast
  let ?b = "b\<lparr>should_deallocate := True\<rparr>"
  obtain rs where "sb_records b rs" using registered_records [OF backend_invD(1) [OF assms] b] by blast
  then have rec: "sb_records ?b rs" by (rule sb_records_ended)
  have "q \<in> set (thread_buffers s)" using registered_iff [OF backend_invD(1) [OF assms]] b by blast
  then have "registered ((heap s)(q \<mapsto> ?b)) (thread_buffers s)"
    using backend_invD(1) [OF assms] rec by (intro registered_upd)
  moreover have "staged ((staging_ptr s)(t := None)) ((heap s)(q \<mapsto> ?b))"
  proof (rule stagedI)
    fix t' q'
    assume q': "((staging_ptr s)(t := None)) t' = Some q'"
    then have "q' \<noteq> q" using staged_inj [OF st Some] by (auto split: if_splits)
    with q' stagedD [OF st, of t' q'] show "\<exists>b. ((heap s)(q \<mapsto> ?b)) q' = Some b \<and> \<not> should_deallocate b"
      by (auto split: if_splits)
    fix t''
    assume "((staging_ptr s)(t := None)) t'' = Some q'"
    with q' staged_inj [OF st, of t' q' t''] show "t' = t''" by (auto split: if_splits)
  qed
  ultimately show ?thesis using Some b by (simp add: thread_exit_def backend_inv_def)
qed

text \<open>Filling a reservation and finishing it.\<close>

lemma finish_inv:
  assumes "backend_inv s" "staging_ptr s t = Some q" "heap s q = Some b" "sb_records b rs"
    and "length r < min_free_space b" "framed r"
    and "finishAlloc t (length r) (store_at t (producer_pos b) r s) = Inr s'"
  shows "backend_inv s'"
proof -
  have hb: "sb_holds b rs" using assms(4) by (simp add: sb_records_def)
  obtain b2 where b2: "finishReservation (length r) (write_reserved r b) = Inr b2" "sb_holds b2 (rs @ [r])"
    using commit_holds [OF hb assms(5)] by blast
  have "store_at t (producer_pos b) r s = s\<lparr>heap := (heap s)(q \<mapsto> write_reserved r b)\<rparr>"
    using assms(2,3) by (simp add: store_at_def write_reserved_def)
  with b2(1) assms(2,7) have s': "s' = s\<lparr>heap := (heap s)(q \<mapsto> b2)\<rparr>"
    by (simp add: finishAlloc_def)
  have "sb_records b2 (rs @ [r])" using b2(2) assms(4,6) by (simp add: sb_records_def)
  moreover have "q \<in> set (thread_buffers s)"
    using registered_iff [OF backend_invD(1) [OF assms(1)]] assms(3) by blast
  ultimately have "registered (heap s') (thread_buffers s')"
    using backend_invD(1) [OF assms(1)] unfolding s' by (simp add: registered_upd)
  moreover have "should_deallocate b2 = should_deallocate b"
    using b2(1) by (auto simp: finishReservation_def write_reserved_def split: if_splits)
  then have "staged (staging_ptr s) ((heap s)(q \<mapsto> b2))"
    using backend_invD(2) [OF assms(1)] assms(3) by (intro staged_upd) auto
  ultimately show ?thesis unfolding s' by (simp add: backend_inv_def)
qed

end
