(* ===== verification/Frontend.thy ===== *)
theory Frontend
  imports Backend
begin

section \<open>The log statement\<close>

text \<open>
  The macro \<^verbatim>\<open>STATIC_LOG\<close> of \<^verbatim>\<open>src/src/static_log.h\<close>. A call site is the constant part of one use of the
  macro, with the addresses of its two static objects \<^verbatim>\<open>static_info\<close> and \<^verbatim>\<open>param_size\<close>. The steps of
  the macro are functions of their own, because other threads at the same call site share the
  \<^verbatim>\<open>param_size\<close> array.
\<close>

record call_site =
  site_format :: string
  severity :: log_level
  site_function :: string
  site_line :: nat
  static_info_addr :: nat
  param_size_addr :: nat

datatype log_error =
    Format_error fmt_error \<comment> \<open>the statement does not compile\<close>
  | Store_error store_error
  | Backend_error backend_error

datatype log_result =
    Dropped \<comment> \<open>below the current level\<close>
  | Logged
  | Blocked \<comment> \<open>waiting for space after the reads of the consumer's position given\<close>

fun lift_error :: "('e \<Rightarrow> log_error) \<Rightarrow> 'e + 'a \<Rightarrow> log_error + 'a" where
  "lift_error h (Inl e) = Inl (h e)"
| "lift_error h (Inr x) = Inr x"

lemma lift_error_Inr_iff: "lift_error h m = Inr x \<longleftrightarrow> m = Inr x"
  by (cases m) auto

text \<open>The static data the compiler computes.\<close>

definition static_info_of :: "call_site \<Rightarrow> fmt_error + StaticInfo" where
  "static_info_of site =
     sum_bind (countFmtParams (site_format site)) (\<lambda>n_params.
     sum_bind (analyzeFormatString n_params (site_format site)) (\<lambda>types.
       Inr \<lparr>num_params = n_params, param_types = types, format = site_format site,
            log_level = severity site, function_name = site_function site, line = site_line site\<rparr>))"

text \<open>\<^verbatim>\<open>static size_t param_size[n_params + 1]{}\<close>: zeros until the statement is executed first.\<close>

definition param_size_array :: "call_site \<Rightarrow> nat \<Rightarrow> backend \<Rightarrow> 64 word list" where
  "param_size_array site n_params s =
     (if param_sizes s (param_size_addr site) = [] then replicate (n_params + 1) 0
      else param_sizes s (param_size_addr site))"

text \<open>The first step: \<^verbatim>\<open>alloc_size\<close>, and the array filled.\<close>

definition size_arguments ::
  "call_site \<Rightarrow> StaticInfo \<Rightarrow> arg list \<Rightarrow> backend \<Rightarrow> log_error + (64 word \<times> backend)" where
  "size_arguments site info args s =
     sum_bind (lift_error Store_error
         (getArgSizes 0 (param_types info) (- 1) (param_size_array site (num_params info) s) args))
       (\<lambda>(tot, _, sizes).
          Inr (tot + of_nat sizeof_LogEntry,
               s\<lparr>param_sizes := (param_sizes s)(param_size_addr site := sizes)\<rparr>))"

text \<open>
  The writes through \<^verbatim>\<open>write_pos\<close>: the constructor of \<^verbatim>\<open>LogEntry\<close>, the arguments, and the two members
  assigned last.
\<close>

definition write_record ::
  "call_site \<Rightarrow> StaticInfo \<Rightarrow> arg list \<Rightarrow> 64 word \<Rightarrow> 64 word list \<Rightarrow> nat \<Rightarrow> nat \<Rightarrow> mem \<Rightarrow> log_error + mem" where
  "write_record site info args alloc_size sizes rdtsc write_pos m =
     (let m = mem_write m (write_pos + 16) (le_bytes 8 (static_info_addr site));
          m = mem_write m (write_pos + 24) (le_bytes 8 (param_size_addr site))
      in sum_bind (lift_error Store_error
             (storeArguments 0 (param_types info) sizes (m, write_pos + sizeof_LogEntry) args))
           (\<lambda>(m, _).
              sum_bind (lift_error Store_error (downCast alloc_size)) (\<lambda>entry_size.
                let m = mem_write m (write_pos + 8) (le_bytes 8 (unat entry_size))
                in Inr (mem_write m write_pos (le_bytes 8 rdtsc)))))"

text \<open>
  The whole macro, executed by thread \<open>t\<close>. The macro expands its arguments twice, for the sizes and for the
  stores; \<open>args\<close> are the values of both evaluations, which differ in the source if evaluating an argument
  has a side effect.
\<close>

definition STATIC_LOG ::
  "nat \<Rightarrow> nat \<Rightarrow> nat \<Rightarrow> nat \<Rightarrow> call_site \<Rightarrow> arg list \<Rightarrow> backend \<Rightarrow> log_error + (log_result \<times> backend)" where
  "STATIC_LOG t p reads rdtsc site args s =
     sum_bind (lift_error Format_error (static_info_of site)) (\<lambda>info.
       if getLogLevel s < severity site then Inr (Dropped, s)
       else
         sum_bind (size_arguments site info args s) (\<lambda>(alloc_size, s).
         sum_bind (lift_error Backend_error (reserveAlloc t p (unat alloc_size) reads s)) (\<lambda>(r, s).
           case r of
             Reserved write_pos \<Rightarrow>
               (case Option.bind (staging_ptr s t) (\<lambda>q. map_option (Pair q) (heap s q)) of
                  None \<Rightarrow> Inl (Backend_error Null_dereference)
                | Some (q, b) \<Rightarrow>
                    sum_bind (write_record site info args alloc_size
                        (param_sizes s (param_size_addr site)) rdtsc write_pos (storage b)) (\<lambda>m.
                    sum_bind (lift_error Backend_error
                        (finishAlloc t (unat alloc_size) (s\<lparr>heap := (heap s)(q \<mapsto> b\<lparr>storage := m\<rparr>)\<rparr>)))
                      (\<lambda>s. Inr (Logged, s))))
           | _ \<Rightarrow> Inr (Blocked, s))))"

subsection \<open>The record a statement writes\<close>

definition statement_record :: "call_site \<Rightarrow> StaticInfo \<Rightarrow> arg list \<Rightarrow> nat \<Rightarrow> byte list" where
  "statement_record site info args rdtsc =
     (let img = args_image 0 (param_types info) (- 1) args
      in entry_bytes \<lparr>timestamp = rdtsc, entry_size = sizeof_LogEntry + length img,
                      static_info = static_info_addr site, param_size = param_size_addr site\<rparr> @ img)"

lemma length_statement_record:
  "length (statement_record site info args rdtsc) =
     sizeof_LogEntry + length (args_image 0 (param_types info) (- 1) args)"
  by (simp add: statement_record_def Let_def)

lemma framed_statement_record:
  assumes "length (statement_record site info args rdtsc) < 2 ^ 64"
  shows "framed (statement_record site info args rdtsc)"
proof -
  let ?n = "sizeof_LogEntry + length (args_image 0 (param_types info) (- 1) args)"
  have "take 8 (drop 8 (statement_record site info args rdtsc)) = le_bytes 8 ?n"
    by (simp add: statement_record_def Let_def entry_bytes_def)
  moreover have "?n < 256 ^ 8" using assms unfolding length_statement_record by simp
  ultimately show ?thesis
    by (simp add: framed_def length_statement_record)
qed

lemma unat_of_nat_32: "n < 2 ^ 32 \<Longrightarrow> unat (of_nat n :: 32 word) = n"
  by (simp add: unat_of_nat)

lemma unat_of_nat_64: "n < 2 ^ 32 \<Longrightarrow> unat (of_nat n :: 64 word) = n"
  by (simp add: unat_of_nat)

lemma write_record_image:
  assumes "list_all arg_ok args" "getArgSizes 0 (param_types info) (- 1) sizes args = Inr (tot, pp, sizes')"
    and "length (args_image 0 (param_types info) (- 1) args) < 2 ^ 31"
    and "alloc_size = tot + of_nat sizeof_LogEntry"
  shows "unat alloc_size = length (statement_record site info args rdtsc)"
    and "write_record site info args alloc_size sizes' rdtsc q m =
        Inr (mem_write m q (statement_record site info args rdtsc))"
proof -
  let ?img = "args_image 0 (param_types info) (- 1) args"
  let ?n = "sizeof_LogEntry + length ?img"
  let ?a = "le_bytes 8 (static_info_addr site)" and ?b = "le_bytes 8 (param_size_addr site)"
  note st = storeArguments_image [OF assms(1,2)]
  have n: "?n < 2 ^ 32" using assms(3) by (simp add: sizeof_LogEntry_def)
  have "alloc_size = of_nat ?n" using st assms(4) by simp
  then have u: "unat alloc_size = ?n" using unat_of_nat_64 [of ?n] n by simp
  then show "unat alloc_size = length (statement_record site info args rdtsc)"
    by (simp add: length_statement_record)
  have dc: "downCast alloc_size = Inr (word_of_nat ?n)" using n u by (simp add: downCast_eq)
  have un: "unat (word_of_nat ?n :: 32 word) = ?n" using n by (rule unat_of_nat_32)
  let ?m2 = "mem_write m (q + 16) (?a @ ?b @ ?img)"
  have "mem_write (mem_write (mem_write m (q + 16) ?a) (q + 24) ?b) (q + sizeof_LogEntry) ?img = ?m2"
    using mem_write_append [of m "q + 16" ?a ?b] mem_write_append [of m "q + 16" "?a @ ?b" ?img]
    by (simp add: sizeof_LogEntry_def add.commute)
  moreover have "mem_write ?m2 (q + 8) (le_bytes 8 ?n) = mem_write m (q + 8) (le_bytes 8 ?n @ ?a @ ?b @ ?img)"
    using mem_write_backwards [of m "q + 8" "le_bytes 8 ?n" "?a @ ?b @ ?img"] by (simp add: add.commute)
  moreover have "mem_write (mem_write m (q + 8) (le_bytes 8 ?n @ ?a @ ?b @ ?img)) q (le_bytes 8 rdtsc) =
      mem_write m q (statement_record site info args rdtsc)"
    using mem_write_backwards [of m q "le_bytes 8 rdtsc" "le_bytes 8 ?n @ ?a @ ?b @ ?img"]
    by (simp add: statement_record_def Let_def entry_bytes_def)
  ultimately show "write_record site info args alloc_size sizes' rdtsc q m =
      Inr (mem_write m q (statement_record site info args rdtsc))"
    using st dc un by (simp add: write_record_def Let_def)
qed

subsection \<open>The effect of a statement\<close>

lemma static_info_of_Inr:
  assumes "static_info_of site = Inr info"
  obtains its where "list_all item_ok its" "site_format site = format_text its"
    "info = \<lparr>num_params = length (format_params its), param_types = format_params its,
       format = format_text its, log_level = severity site, function_name = site_function site,
       line = site_line site\<rparr>"
proof -
  from assms obtain n types where n: "countFmtParams (site_format site) = Inr n"
    and ts: "analyzeFormatString n (site_format site) = Inr types"
    and info: "info = \<lparr>num_params = n, param_types = types, format = site_format site,
       log_level = severity site, function_name = site_function site, line = site_line site\<rparr>"
    by (auto simp: static_info_of_def sum_bind_Inr_iff)
  obtain its where its: "list_all item_ok its" "site_format site = format_text its"
    "n = length (format_params its)" using n by (rule countFmtParams_Inr)
  with analyzeFormatString_format_text [OF its(1), of n] ts have "types = format_params its" by simp
  with its info that show thesis by simp
qed

lemma static_info_of_format:
  "list_all item_ok its \<Longrightarrow> site_format site = format_text its \<Longrightarrow>
     static_info_of site = Inr \<lparr>num_params = length (format_params its), param_types = format_params its,
       format = format_text its, log_level = severity site, function_name = site_function site,
       line = site_line site\<rparr>"
  by (simp add: static_info_of_def countFmtParams_format_text analyzeFormatString_format_text)

lemma size_arguments_Inr:
  assumes "length args \<le> length (param_types info)"
    and "length (param_types info) < length (param_size_array site (num_params info) s)"
  obtains tot pp sizes where
    "getArgSizes 0 (param_types info) (- 1) (param_size_array site (num_params info) s) args = Inr (tot, pp, sizes)"
    "size_arguments site info args s = Inr (tot + of_nat sizeof_LogEntry,
       s\<lparr>param_sizes := (param_sizes s)(param_size_addr site := sizes)\<rparr>)"
proof -
  from getArgSizes_total [of 0 args "param_types info"
      "param_size_array site (num_params info) s" "- 1"] assms
  obtain tot pp sizes where
    "getArgSizes 0 (param_types info) (- 1) (param_size_array site (num_params info) s) args = Inr (tot, pp, sizes)"
    by auto
  then show thesis by (intro that) (simp_all add: size_arguments_def)
qed

lemma thread_records_param_sizes [simp]:
  "thread_records (s\<lparr>param_sizes := f\<rparr>) t rs \<longleftrightarrow> thread_records s t rs"
  by (simp add: thread_records_def split: option.split)

lemma STATIC_LOG_effect:
  assumes info: "static_info_of site = Inr info" and lev: "\<not> getLogLevel s < severity site"
    and args: "list_all arg_ok args" "length args \<le> num_params info"
    and img: "length (args_image 0 (param_types info) (- 1) args) < 2 ^ 31"
    and arr: "length (param_size_array site (num_params info) s) = num_params info + 1"
    and rec: "thread_records s t rs"
  shows "\<exists>x s'. STATIC_LOG t p reads rdtsc site args s = Inr (x, s')
    \<and> (x = Logged \<and> thread_records s' t (rs @ [statement_record site info args rdtsc])
       \<or> x = Blocked \<and> thread_records s' t rs)
    \<and> (backend_inv s \<longrightarrow> heap s p = None \<longrightarrow> backend_inv s')"
proof -
  have len: "length (param_types info) = num_params info"
    using info by (rule static_info_of_Inr) simp
  let ?r = "statement_record site info args rdtsc"
  obtain tot pp sizes where g: "getArgSizes 0 (param_types info) (- 1)
      (param_size_array site (num_params info) s) args = Inr (tot, pp, sizes)"
    and sz: "size_arguments site info args s = Inr (tot + of_nat sizeof_LogEntry,
       s\<lparr>param_sizes := (param_sizes s)(param_size_addr site := sizes)\<rparr>)"
    using size_arguments_Inr [of args info site s] args(2) arr len by auto
  let ?a = "tot + of_nat sizeof_LogEntry" and ?s = "s\<lparr>param_sizes := (param_sizes s)(param_size_addr site := sizes)\<rparr>"
  note w = write_record_image [OF args(1) g img refl, of site rdtsc]
  have "length ?r < 2 ^ 64" using img by (simp add: length_statement_record sizeof_LogEntry_def)
  then have fr: "framed ?r" by (rule framed_statement_record)
  have "thread_records ?s t rs" using rec by simp
  then obtain q b x b' where r: "staging_ptr (ensureStagingBufferAllocated t p ?s) t = Some q"
    "reserveAlloc t p (length ?r) reads ?s = Inr (x, (ensureStagingBufferAllocated t p ?s)
       \<lparr>heap := (heap (ensureStagingBufferAllocated t p ?s))(q \<mapsto> b')\<rparr>)" "sb_records b' rs"
    "\<And>q'. x = Reserved q' \<Longrightarrow> q' = producer_pos b' \<and> length ?r < min_free_space b'"
    by (rule reserveAlloc_cases [where p = p and n = "length ?r" and k = reads]) blast
  let ?s1 = "(ensureStagingBufferAllocated t p ?s)\<lparr>heap := (heap (ensureStagingBufferAllocated t p ?s))(q \<mapsto> b')\<rparr>"
  have s1: "staging_ptr ?s1 t = Some q" "heap ?s1 q = Some b'" "param_sizes ?s1 = param_sizes ?s"
    using r(1) by (simp_all add: ensureStagingBufferAllocated_def Let_def)
  have inv1: "backend_inv ?s1" if "backend_inv s" "heap s p = None"
    using reserveAlloc_inv [of ?s p t "length ?r" reads x ?s1] r(2) that by (simp add: backend_inv_def)
  show ?thesis
  proof (cases x)
    case (Reserved wp)
    from log_space.finish_appends [OF \<open>thread_records ?s t rs\<close> fr, of p reads wp ?s1] r(2) Reserved
    obtain s2 where s2: "finishAlloc t (length ?r) (store_at t wp ?r ?s1) = Inr s2"
      "thread_records s2 t (rs @ [?r])" by auto
    have st: "store_at t wp ?r ?s1 = ?s1\<lparr>heap := (heap ?s1)(q \<mapsto> b'\<lparr>storage := mem_write (storage b') wp ?r\<rparr>)\<rparr>"
      using s1 by (simp add: store_at_def)
    have "STATIC_LOG t p reads rdtsc site args s = Inr (Logged, s2)"
      using info lev sz r(2) Reserved w s1 s2(1) [unfolded st]
      by (simp add: STATIC_LOG_def)
    moreover have "backend_inv s2" if "backend_inv s" "heap s p = None"
      using finish_inv [OF inv1 [OF that] s1(1,2) r(3) _ fr, of s2] r(4) Reserved s2(1) by simp
    ultimately show ?thesis using s2(2) by (intro exI [of _ Logged] exI [of _ s2]) simp
  qed (use info lev sz r s1 w inv1 in \<open>simp_all add: STATIC_LOG_def thread_records_def\<close>)
qed

subsection \<open>Two threads at one call site\<close>

lemma size_one_string:
  assumes "param_types info = [kSTRING_WITH_NO_PRECISION]" "num_params info = 1" "length str < 2 ^ 32"
    and "length (param_size_array site 1 s) = 2"
  shows "\<exists>s'. size_arguments site info [AStr a str] s = Inr (of_nat (length str) + 36, s')
    \<and> param_sizes s' (param_size_addr site) = (param_size_array site 1 s)[0 := of_nat (length str)]
    \<and> length (param_size_array site 1 s') = 2"
proof -
  obtain x y where xy: "param_size_array site 1 s = [x, y]"
    using assms(4) by (auto simp: numeral_2_eq_2 length_Suc_conv)
  have "getArgSize_string kSTRING_WITH_NO_PRECISION (- 1) x str = (of_nat (length str) + 4, - 1, of_nat (length str))"
    by (simp add: getArgSize_string_def param_order Let_def)
  then show ?thesis
    using assms(1,2) xy
    by (simp add: size_arguments_def param_size_array_def sizeof_LogEntry_def add.assoc)
qed

subsection \<open>Properties\<close>

text \<open>The call site of the examples, and a backend in which no thread has a buffer yet.\<close>

definition sample_site :: call_site where
  "sample_site = \<lparr>site_format = ''%s'', severity = kNOTICE, site_function = ''main'', site_line = 12,
     static_info_addr = 7000, param_size_addr = 8000\<rparr>"

definition sample_info :: StaticInfo where
  "sample_info = \<lparr>num_params = 1, param_types = [kSTRING_WITH_NO_PRECISION], format = ''%s'',
     log_level = kNOTICE, function_name = ''main'', line = 12\<rparr>"

definition sample_backend :: backend where
  "sample_backend = \<lparr>current_log_level = kDEBUG, next_buffer_id = 0, thread_buffers = [], is_stop = False,
     is_exit = False, fdflush_joinable = True, fdflush = Running, outfd = Some (DEFAULT_LOGFILE, 0),
     log_buf = sample_buffer DEFALT_CACHE_SIZE, staging_ptr = (\<lambda>_. None), heap = (\<lambda>_. None),
     param_sizes = (\<lambda>_. []), files = [DEFAULT_LOGFILE \<mapsto> []]\<rparr>"

lemma sample_static_info: "static_info_of sample_site = Inr sample_info"
proof -
  let ?it = "Specifier [] (WDigits []) PNone [] CHR ''s''"
  have "list_all item_ok [?it]" by (simp add: char_class_defs)
  moreover have "site_format sample_site = format_text [?it]" by (simp add: sample_site_def)
  ultimately have "static_info_of sample_site = Inr \<lparr>num_params = length (format_params [?it]),
      param_types = format_params [?it], format = format_text [?it], log_level = severity sample_site,
      function_name = site_function sample_site, line = site_line sample_site\<rparr>"
    by (rule static_info_of_format)
  then show ?thesis by (simp add: sample_site_def sample_info_def)
qed

text \<open>
  C7. A log statement above the current level changes nothing; any other either waits for space,
  leaving the thread's records alone, or appends exactly one record, framed by its own size, with the
  header and the image of the arguments, and no assertion fails on the way.
\<close>

theorem STATIC_LOG_appends_record:
  assumes "static_info_of site = Inr info" "list_all arg_ok args" "length args \<le> num_params info"
    and "length (args_image 0 (param_types info) (- 1) args) < 2 ^ 31"
    and "length (param_size_array site (num_params info) s) = num_params info + 1"
    and "thread_records s t rs"
  shows "if getLogLevel s < severity site then STATIC_LOG t p reads rdtsc site args s = Inr (Dropped, s)
    else (\<exists>s'. STATIC_LOG t p reads rdtsc site args s = Inr (Logged, s')
            \<and> thread_records s' t (rs @ [statement_record site info args rdtsc]))
      \<or> (\<exists>s'. STATIC_LOG t p reads rdtsc site args s = Inr (Blocked, s') \<and> thread_records s' t rs)"
proof (cases "getLogLevel s < severity site")
  case True
  then show ?thesis using assms(1) by (simp add: STATIC_LOG_def)
next
  case False
  from STATIC_LOG_effect [OF assms(1) False assms(2-6), of p reads rdtsc] False show ?thesis by auto
qed

theorem STATIC_LOG_appends_record_witness:
  "if getLogLevel sample_backend < severity sample_site
   then STATIC_LOG 1 5000 1 99 sample_site [AStr 0 ''hi''] sample_backend = Inr (Dropped, sample_backend)
   else (\<exists>s'. STATIC_LOG 1 5000 1 99 sample_site [AStr 0 ''hi''] sample_backend = Inr (Logged, s')
            \<and> thread_records s' 1 ([] @ [statement_record sample_site sample_info [AStr 0 ''hi''] 99]))
      \<or> (\<exists>s'. STATIC_LOG 1 5000 1 99 sample_site [AStr 0 ''hi''] sample_backend = Inr (Blocked, s')
            \<and> thread_records s' 1 [])"
  by (rule STATIC_LOG_appends_record [OF sample_static_info])
     (simp_all add: sample_info_def sample_backend_def thread_records_def param_size_array_def
        param_order stored_length_def)

text \<open>
  The \<^verbatim>\<open>param_size\<close> array of a call site is shared by all threads: if a second thread sizes its
  string between the sizing and the storing of a first one, the first stores with the other length.
  A longer one makes it read beyond its own string; a shorter one truncates what it stores, while the
  record keeps the size of the whole.
\<close>

theorem shared_param_size_race:
  assumes "param_types info = [kSTRING_WITH_NO_PRECISION]" "num_params info = 1"
    and "length (param_size_array site 1 s) = 2" "length str < 2 ^ 31" "length str' < 2 ^ 31"
    and "size_arguments site info [AStr a str] s = Inr (alloc_size, s1)"
    and "size_arguments site info [AStr a' str'] s1 = Inr (alloc_size', s2)"
  shows "(length str + 1 < length str' \<longrightarrow>
      write_record site info [AStr a str] alloc_size (param_sizes s2 (param_size_addr site)) rdtsc q m =
        Inl (Store_error Read_past_string))
    \<and> (length str' \<le> length str \<longrightarrow>
      storeArguments 0 (param_types info) (param_sizes s2 (param_size_addr site)) (m, q) [AStr a str] =
        Inr (mem_write m q (le_bytes 4 (length str') @ take (length str') str), q + 4 + length str'))
    \<and> unat alloc_size = 36 + length str"
proof -
  obtain x where x: "alloc_size = of_nat (length str) + 36"
    "length (param_size_array site 1 s1) = 2"
    using size_one_string [OF assms(1,2) _ assms(3), of str a] assms(4,6) by auto
  obtain y where y: "param_sizes s2 (param_size_addr site) =
      (param_size_array site 1 s1)[0 := of_nat (length str')]"
    using size_one_string [OF assms(1,2) _ x(2), of str' a'] assms(5,7) by auto
  obtain u v where "param_size_array site 1 s1 = [u, v]"
    using x(2) by (auto simp: numeral_2_eq_2 length_Suc_conv)
  with y have sz: "param_sizes s2 (param_size_addr site) = [of_nat (length str'), v]" by simp
  have u: "unat (of_nat (length str') :: 64 word) = length str'"
    "unat (ucast (of_nat (length str') :: 64 word) :: 32 word) = length str'"
    using assms(5) unat_of_nat_64 [of "length str'"] by (simp_all add: unat_ucast_32)
  then have le: "\<not> 0xFFFFFFFF < (of_nat (length str') :: 64 word)"
    using assms(5) by (simp add: word_less_nat_alt)
  have "alloc_size = of_nat (length str + 36)" using x(1) by simp
  then have al: "unat alloc_size = 36 + length str"
    using assms(4) unat_of_nat_64 [of "length str + 36"] by simp
  have st: "storeArguments 0 (param_types info) [of_nat (length str'), v] (m', q') [AStr a str] =
      (if length str + 1 < length str' then Inl Read_past_string
       else Inr (mem_write m' q' (le_bytes 4 (length str') @ take (length str') (str @ [NUL])),
                 q' + 4 + length str'))" for m' q'
    using assms(1) le u mem_write_append [of m' q' "le_bytes 4 (length str')"]
    by (auto simp: storeArgument_string_def storeArgument_value_def param_order Let_def)
  then show ?thesis
    using al sz by (auto simp: write_record_def Let_def)
qed

theorem shared_param_size_race_witness:
  "\<exists>alloc_size alloc_size' s1 s2. size_arguments sample_site sample_info [AStr 0 ''a''] sample_backend = Inr (alloc_size, s1)
     \<and> size_arguments sample_site sample_info [AStr 0 ''four''] s1 = Inr (alloc_size', s2)
     \<and> write_record sample_site sample_info [AStr 0 ''a''] alloc_size
         (param_sizes s2 (param_size_addr sample_site)) 99 0 (\<lambda>_. NUL) = Inl (Store_error Read_past_string)
     \<and> unat alloc_size = 37"
proof -
  have i: "param_types sample_info = [kSTRING_WITH_NO_PRECISION]" "num_params sample_info = 1"
    by (simp_all add: sample_info_def)
  have arr: "length (param_size_array sample_site 1 sample_backend) = 2"
    by (simp add: param_size_array_def sample_backend_def)
  from size_one_string [OF i _ arr, of "''a''" 0] obtain s1 where
    s1: "size_arguments sample_site sample_info [AStr 0 ''a''] sample_backend = Inr (of_nat (length ''a'') + 36, s1)"
    "length (param_size_array sample_site 1 s1) = 2" by auto
  from size_one_string [OF i _ s1(2), of "''four''" 0] obtain s2 where
    s2: "size_arguments sample_site sample_info [AStr 0 ''four''] s1 = Inr (of_nat (length ''four'') + 36, s2)"
    by auto
  from shared_param_size_race [OF i arr _ _ s1(1) s2, of 99 0 "\<lambda>_. NUL"] s1(1) s2 show ?thesis
    by auto
qed

end
