(* ===== verification/Prefix.thy ===== *)
theory Prefix
  imports LogLevels
begin

section \<open>The prefixes of a log line\<close>

text \<open>
  \<^verbatim>\<open>convertInt2Str\<close>, \<^verbatim>\<open>generateTimePrefix\<close> and \<^verbatim>\<open>generateCallInfoPrefix\<close> of
  \<^verbatim>\<open>src/src/static_log_backend.cc\<close>, which write through a \<^verbatim>\<open>char*\<close> that they advance: here a memory and
  a position. The C library's \<^verbatim>\<open>localtime\<close> depends on the time zone and is a parameter, a function from
  seconds to a broken-down time (or the null pointer); what is known of it is its range.
\<close>

record tm =
  tm_sec :: int
  tm_min :: int
  tm_hour :: int
  tm_mday :: int
  tm_mon :: int
  tm_year :: int

datatype prefix_error =
    Null_tm \<comment> \<open>\<^verbatim>\<open>localtime\<close> has returned the null pointer\<close>
  | Short_number \<comment> \<open>\<^verbatim>\<open>memcpy\<close> reads beyond the text of a number\<close>
  | Unknown_level \<comment> \<open>the level is no index of \<^verbatim>\<open>log_level_str\<close>\<close>
  | Prefix_assertion

text \<open>\<^verbatim>\<open>std::to_string(int)\<close>.\<close>

definition int_to_string :: "int \<Rightarrow> string" where
  "int_to_string i = (if i < 0 then CHR ''-'' # to_string (nat (- i)) else to_string (nat i))"

text \<open>\<^verbatim>\<open>*raw++ = c\<close>.\<close>

definition put :: "char \<Rightarrow> mem \<times> nat \<Rightarrow> mem \<times> nat" where
  "put c raw = ((fst raw)(snd raw := c), snd raw + 1)"

text \<open>\<^verbatim>\<open>memcpy(raw, s.c_str(), n); raw += n\<close>.\<close>

definition put_c_str :: "string \<Rightarrow> nat \<Rightarrow> mem \<times> nat \<Rightarrow> prefix_error + (mem \<times> nat)" where
  "put_c_str s n raw =
     (if length s + 1 < n then Inl Short_number
      else Inr (mem_write (fst raw) (snd raw) (take n (s @ [NUL])), snd raw + n))"

definition convertInt2Str :: "int \<Rightarrow> mem \<times> nat \<Rightarrow> prefix_error + (mem \<times> nat)" where
  "convertInt2Str ts raw =
     (if ts < 10 then Inr (put (hd (int_to_string ts)) (put CHR ''0'' raw))
      else put_c_str (int_to_string ts) 2 raw)"

text \<open>The nanoseconds: the digits at the end of the field first, then the zeros before them.\<close>

definition nano_bits :: nat where
  "nano_bits = 9"

fun put_zeros :: "nat \<Rightarrow> mem \<times> nat \<Rightarrow> mem \<times> nat" where
  "put_zeros 0 raw = raw"
| "put_zeros (Suc bits) raw = put_zeros bits (put CHR ''0'' raw)"

definition put_nano :: "nat \<Rightarrow> mem \<times> nat \<Rightarrow> mem \<times> nat" where
  "put_nano nano raw =
     (let nanolen = length (to_string nano);
          m = mem_write (fst raw) (snd raw + nano_bits - nanolen) (to_string nano)
      in if nanolen < nano_bits
         then (case put_zeros (nano_bits - nanolen) (m, snd raw) of (m, pos) \<Rightarrow> (m, pos + nanolen))
         else (m, snd raw + nano_bits))"

definition TIEMSTAMP_PREFIX_LEN :: nat where
  "TIEMSTAMP_PREFIX_LEN = 31"

text \<open>The length returned, and the memory after the prefix has been written at \<open>raw_data\<close>.\<close>

definition generateTimePrefix ::
  "(nat \<Rightarrow> tm option) \<Rightarrow> nat \<Rightarrow> mem \<Rightarrow> nat \<Rightarrow> prefix_error + (nat \<times> mem)" where
  "generateTimePrefix localtime timestamp m raw_data =
     (let raw = put CHR ''['' (m, raw_data);
          prefix_len = 1;
          nano = timestamp mod 1000000000;
          timestamp = timestamp div 1000000000
      in case localtime timestamp of
           None \<Rightarrow> Inl Null_tm
         | Some tm_now \<Rightarrow>
             sum_bind (put_c_str (int_to_string (tm_year tm_now + 1900)) 4 raw) (\<lambda>raw.
             sum_bind (convertInt2Str (tm_mon tm_now + 1) (put CHR ''-'' raw)) (\<lambda>raw.
             sum_bind (convertInt2Str (tm_mday tm_now) (put CHR ''-'' raw)) (\<lambda>raw.
             sum_bind (convertInt2Str (tm_hour tm_now) (put CHR ''-'' raw)) (\<lambda>raw.
             sum_bind (convertInt2Str (tm_min tm_now) (put CHR '':'' raw)) (\<lambda>raw.
             sum_bind (convertInt2Str (tm_sec tm_now) (put CHR '':'' raw)) (\<lambda>raw.
               let raw = put CHR '']'' (put_nano nano (put CHR ''.'' raw));
                   prefix_len = prefix_len + 4 + (1 + 2) * 5 + 1 + nano_bits + 1
               in if prefix_len = TIEMSTAMP_PREFIX_LEN then Inr (prefix_len, fst raw)
                  else Inl Prefix_assertion)))))))"

definition MAX_FUNC_NAME :: nat where "MAX_FUNC_NAME = 63"
definition MAX_LINE :: nat where "MAX_LINE = 128"

definition max_call_info_len :: nat where
  "max_call_info_len = 1 + 5 + 2 + MAX_FUNC_NAME + 2 + MAX_LINE + 1"

text \<open>\<^verbatim>\<open>memcpy(raw, s, strlen(s)); raw += strlen(s)\<close>.\<close>

definition put_str :: "string \<Rightarrow> mem \<times> nat \<Rightarrow> mem \<times> nat" where
  "put_str s raw = (mem_write (fst raw) (snd raw) s, snd raw + length s)"

definition generateCallInfoPrefix :: "StaticInfo \<Rightarrow> mem \<Rightarrow> nat \<Rightarrow> prefix_error + (nat \<times> mem)" where
  "generateCallInfoPrefix static_info m raw_pos =
     (let raw = put CHR ''['' (m, raw_pos);
          prefix_len = 1
      in if length log_level_str \<le> unat (log_level static_info) then Inl Unknown_level
         else
           (let level = log_level_str ! unat (log_level static_info);
                raw = put CHR '']'' (put_str level raw);
                prefix_len = prefix_len + length level + 1;
                raw = put_str (function_name static_info) (put CHR ''['' raw);
                prefix_len = prefix_len + 1 + length (function_name static_info);
                raw = put CHR ''['' (put CHR '']'' raw);
                prefix_len = prefix_len + 1 + 1;
                raw = put_str (to_string (line static_info)) raw;
                prefix_len = prefix_len + length (to_string (line static_info));
                raw = put CHR '']'' raw;
                prefix_len = prefix_len + 1
            in Inr (prefix_len, fst raw)))"

subsection \<open>The text of the prefixes\<close>

text \<open>A number in decimal, padded with zeros to a width.\<close>

definition padded :: "nat \<Rightarrow> nat \<Rightarrow> string" where
  "padded k n = replicate (k - length (to_string n)) CHR ''0'' @ to_string n"

definition time_text :: "tm \<Rightarrow> nat \<Rightarrow> string" where
  "time_text t nano =
     ''['' @ padded 4 (nat (tm_year t + 1900)) @ ''-'' @ padded 2 (nat (tm_mon t + 1)) @ ''-''
     @ padded 2 (nat (tm_mday t)) @ ''-'' @ padded 2 (nat (tm_hour t)) @ '':''
     @ padded 2 (nat (tm_min t)) @ '':'' @ padded 2 (nat (tm_sec t)) @ ''.'' @ padded 9 nano @ '']''"

definition call_info_text :: "StaticInfo \<Rightarrow> string" where
  "call_info_text si =
     ''['' @ log_level_str ! unat (log_level si) @ '']['' @ function_name si @ ''][''
     @ to_string (line si) @ '']''"

text \<open>The range of the members of a broken-down time, and years of four digits.\<close>

definition tm_ok :: "tm \<Rightarrow> bool" where
  "tm_ok t \<longleftrightarrow> 0 \<le> tm_sec t \<and> tm_sec t \<le> 60 \<and> 0 \<le> tm_min t \<and> tm_min t \<le> 59
     \<and> 0 \<le> tm_hour t \<and> tm_hour t \<le> 23 \<and> 1 \<le> tm_mday t \<and> tm_mday t \<le> 31
     \<and> 0 \<le> tm_mon t \<and> tm_mon t \<le> 11 \<and> - 900 \<le> tm_year t \<and> tm_year t \<le> 8099"

lemma length_padded: "n < 10 ^ k \<Longrightarrow> 0 < k \<Longrightarrow> length (padded k n) = k"
  using length_to_string_le_iff [of k n] by (simp add: padded_def)

lemma decimal_zeros: "decimal (replicate n CHR ''0'' @ s) = decimal s"
  by (induction n) (simp_all add: decimal_def)

lemma decimal_padded [simp]: "decimal (padded k n) = n"
  by (simp add: padded_def decimal_zeros)

subsection \<open>What the writes add up to\<close>

text \<open>A position after text: the memory is the old one with the text written at the start.\<close>

definition wrote :: "mem \<Rightarrow> nat \<Rightarrow> string \<Rightarrow> mem \<times> nat \<Rightarrow> bool" where
  "wrote m a s raw \<longleftrightarrow> raw = (mem_write m a s, a + length s)"

lemma wrote_start: "wrote m a [] (m, a)"
  by (simp add: wrote_def mem_simps)

lemma mem_write_single: "mem_write m a [c] = m(a := c)"
  by (auto simp: mem_write_def fun_eq_iff)

lemma wrote_write:
  "wrote m a s raw \<Longrightarrow> wrote m a (s @ t) (mem_write (fst raw) (snd raw) t, snd raw + length t)"
  by (simp add: wrote_def mem_write_append)

lemma put_eq: "put c raw = (mem_write (fst raw) (snd raw) [c], snd raw + 1)"
  by (simp add: put_def mem_write_single)

lemma wrote_put: "wrote m a s raw \<Longrightarrow> wrote m a (s @ [c]) (put c raw)"
  using wrote_write [of m a s raw "[c]"] by (simp add: put_eq)

lemma wrote_put_str: "wrote m a s raw \<Longrightarrow> wrote m a (s @ t) (put_str t raw)"
  using wrote_write by (simp add: put_str_def)

lemma wrote_put_c_str:
  assumes "wrote m a s raw" "length t = n"
  obtains raw' where "put_c_str t n raw = Inr raw'" "wrote m a (s @ t) raw'"
  using assms wrote_write [of m a s raw t] by (auto simp: put_c_str_def)

lemma to_string_1: "n < 10 \<Longrightarrow> to_string n = [digit_char n]"
  by (subst to_string.simps) simp

lemma wrote_convertInt2Str:
  assumes "wrote m a s raw" "0 \<le> i" "i < 100"
  obtains raw' where "convertInt2Str i raw = Inr raw'" "wrote m a (s @ padded 2 (nat i)) raw'"
proof (cases "i < 10")
  case True
  then have "nat i < 10" by simp
  with True assms wrote_put [OF wrote_put [OF assms(1)], of "CHR ''0''" "digit_char (nat i)"] that
  show thesis
    by (simp add: convertInt2Str_def int_to_string_def padded_def to_string_1)
next
  case False
  then have "length (to_string (nat i)) = 2"
    using length_to_string_le_iff [of 1 "nat i"] length_to_string_le_iff [of 2 "nat i"] assms
    by (simp add: nat_less_iff)
  with False assms(1) obtain raw' where "convertInt2Str i raw = Inr raw'"
    "wrote m a (s @ to_string (nat i)) raw'"
    using wrote_put_c_str [of m a s raw "to_string (nat i)" 2]
    by (auto simp: convertInt2Str_def int_to_string_def)
  with that \<open>length _ = 2\<close> show thesis by (simp add: padded_def)
qed

lemma put_zeros: "put_zeros k (m, p) = (mem_write m p (replicate k CHR ''0''), p + k)"
proof (induction k arbitrary: m p)
  case 0
  then show ?case by (simp add: mem_simps)
next
  case (Suc k)
  then show ?case
    using mem_write_append [of m p "[CHR ''0'']" "replicate k CHR ''0''"] by (simp add: put_eq)
qed

lemma wrote_put_nano:
  assumes "wrote m a s raw" "nano < 1000000000"
  shows "wrote m a (s @ padded 9 nano) (put_nano nano raw)"
proof -
  let ?d = "to_string nano" and ?z = "replicate (9 - length (to_string nano)) CHR ''0''"
  have len: "length ?d \<le> 9" using length_to_string_le_iff [of 9 nano] assms(2) by simp
  have "put_nano nano raw = (mem_write (fst raw) (snd raw) (?z @ ?d), snd raw + length (?z @ ?d))"
  proof (cases "length ?d < 9")
    case True
    then have "snd raw + 9 - length ?d = snd raw + length ?z" by simp
    with True show ?thesis
      using mem_write_backwards [of "fst raw" "snd raw" ?z ?d]
      by (simp add: put_nano_def Let_def nano_bits_def put_zeros)
  next
    case False
    with len show ?thesis by (simp add: put_nano_def Let_def nano_bits_def)
  qed
  with wrote_write [OF assms(1), of "?z @ ?d"] show ?thesis by (simp add: padded_def)
qed


lemma wrote_four_digits:
  assumes "wrote m a s raw" "1000 \<le> i" "i < 10000"
  obtains raw' where "put_c_str (int_to_string i) 4 raw = Inr raw'" "wrote m a (s @ padded 4 (nat i)) raw'"
proof -
  have "length (to_string (nat i)) = 4"
    using length_to_string_le_iff [of 3 "nat i"] length_to_string_le_iff [of 4 "nat i"] assms
    by (simp add: nat_less_iff)
  with assms that wrote_put_c_str [of m a s raw "to_string (nat i)" 4] show thesis
    by (auto simp: int_to_string_def padded_def)
qed

lemma wrote_field:
  assumes "wrote m a s raw" "0 \<le> i" "i < 100"
  shows "\<exists>raw'. convertInt2Str i (put c raw) = Inr raw' \<and> wrote m a (s @ [c] @ padded 2 (nat i)) raw'"
  using wrote_convertInt2Str [OF wrote_put [OF assms(1)] assms(2,3), of c] by (metis append.assoc)

lemma length_time_text:
  assumes "tm_ok t" "nano < 1000000000"
  shows "length (time_text t nano) = TIEMSTAMP_PREFIX_LEN"
  using assms
  by (simp add: time_text_def tm_ok_def length_padded nat_less_iff TIEMSTAMP_PREFIX_LEN_def)

lemma generateTimePrefix_writes:
  assumes "localtime (timestamp div 1000000000) = Some t" "tm_ok t"
  shows "generateTimePrefix localtime timestamp m a =
      Inr (31, mem_write m a (time_text t (timestamp mod 1000000000)))
    \<and> length (time_text t (timestamp mod 1000000000)) = 31"
proof -
  let ?n = "timestamp mod 1000000000"
  have ok: "1000 \<le> tm_year t + 1900" "tm_year t + 1900 < 10000" "0 \<le> tm_mon t + 1" "tm_mon t + 1 < 100"
    "0 \<le> tm_mday t" "tm_mday t < 100" "0 \<le> tm_hour t" "tm_hour t < 100" "0 \<le> tm_min t" "tm_min t < 100"
    "0 \<le> tm_sec t" "tm_sec t < 100"
    using assms(2) by (simp_all add: tm_ok_def)
  let ?s1 = "''['' @ padded 4 (nat (tm_year t + 1900))"
  let ?s2 = "?s1 @ [CHR ''-''] @ padded 2 (nat (tm_mon t + 1))"
  let ?s3 = "?s2 @ [CHR ''-''] @ padded 2 (nat (tm_mday t))"
  let ?s4 = "?s3 @ [CHR ''-''] @ padded 2 (nat (tm_hour t))"
  let ?s5 = "?s4 @ [CHR '':''] @ padded 2 (nat (tm_min t))"
  let ?s6 = "?s5 @ [CHR '':''] @ padded 2 (nat (tm_sec t))"
  have w0: "wrote m a ''['' (put CHR ''['' (m, a))" using wrote_put [OF wrote_start] by simp
  from wrote_four_digits [OF w0 ok(1,2)] obtain r1 where
    r1: "put_c_str (int_to_string (tm_year t + 1900)) 4 (put CHR ''['' (m, a)) = Inr r1"
    and w1: "wrote m a ?s1 r1" by auto
  from wrote_field [OF w1 ok(3,4)] obtain r2 where
    r2: "convertInt2Str (tm_mon t + 1) (put CHR ''-'' r1) = Inr r2" and w2: "wrote m a ?s2 r2" by blast
  from wrote_field [OF w2 ok(5,6)] obtain r3 where
    r3: "convertInt2Str (tm_mday t) (put CHR ''-'' r2) = Inr r3" and w3: "wrote m a ?s3 r3" by blast
  from wrote_field [OF w3 ok(7,8)] obtain r4 where
    r4: "convertInt2Str (tm_hour t) (put CHR ''-'' r3) = Inr r4" and w4: "wrote m a ?s4 r4" by blast
  from wrote_field [OF w4 ok(9,10)] obtain r5 where
    r5: "convertInt2Str (tm_min t) (put CHR '':'' r4) = Inr r5" and w5: "wrote m a ?s5 r5" by blast
  from wrote_field [OF w5 ok(11,12)] obtain r6 where
    r6: "convertInt2Str (tm_sec t) (put CHR '':'' r5) = Inr r6" and w6: "wrote m a ?s6 r6" by blast
  have "wrote m a (time_text t ?n) (put CHR '']'' (put_nano ?n (put CHR ''.'' r6)))"
    using wrote_put [OF wrote_put_nano [OF wrote_put [OF w6, of "CHR ''.''"], of ?n], of "CHR '']''"]
    by (simp add: time_text_def)
  then have "fst (put CHR '']'' (put_nano ?n (put CHR ''.'' r6))) = mem_write m a (time_text t ?n)"
    by (simp add: wrote_def)
  with r1 r2 r3 r4 r5 r6 assms(1)
  have "generateTimePrefix localtime timestamp m a = Inr (31, mem_write m a (time_text t ?n))"
    by (simp add: generateTimePrefix_def Let_def nano_bits_def TIEMSTAMP_PREFIX_LEN_def)
  with length_time_text [OF assms(2), of ?n] show ?thesis by (simp add: TIEMSTAMP_PREFIX_LEN_def)
qed

lemma level_index:
  assumes "l < kNUM_LOG_LEVELS"
  shows "unat l < length log_level_str" "length (log_level_str ! unat l) \<le> 6"
proof -
  have l: "unat l < 5" using assms by (simp add: word_less_nat_alt kNUM_LOG_LEVELS_def)
  then show "unat l < length log_level_str" by (simp add: log_level_str_def)
  from l have "unat l \<in> {0, 1, 2, 3, 4}" by auto
  then show "length (log_level_str ! unat l) \<le> 6" by (auto simp: log_level_str_def)
qed

lemma generateCallInfoPrefix_writes:
  assumes "log_level si < kNUM_LOG_LEVELS"
  shows "generateCallInfoPrefix si m a = Inr (length (call_info_text si), mem_write m a (call_info_text si))"
proof -
  let ?f = "\<lambda>raw. put CHR '']'' (put_str (to_string (line si)) (put CHR ''['' (put CHR '']''
    (put_str (function_name si) (put CHR ''['' (put CHR '']''
      (put_str (log_level_str ! unat (log_level si)) (put CHR ''['' raw))))))))"
  have "wrote m a ((((((((([] @ ''['') @ log_level_str ! unat (log_level si)) @ '']'') @ ''['')
      @ function_name si) @ '']'') @ ''['') @ to_string (line si)) @ '']'') (?f (m, a))"
    by (intro wrote_put wrote_put_str wrote_start)
  then have "fst (?f (m, a)) = mem_write m a (call_info_text si)"
    by (simp add: wrote_def call_info_text_def)
  with level_index(1) [OF assms] show ?thesis
    by (simp add: generateCallInfoPrefix_def Let_def call_info_text_def)
qed

lemma call_info_text_bound:
  assumes "log_level si < kNUM_LOG_LEVELS" "length (function_name si) \<le> MAX_FUNC_NAME" "line si < 2 ^ 64"
  shows "length (call_info_text si) \<le> max_call_info_len"
proof -
  have "line si < 10 ^ 20" using assms(3) by simp
  then have "length (to_string (line si)) \<le> 20" using length_to_string_le_iff [of 20 "line si"] by simp
  with level_index(2) [OF assms(1)] assms(2) show ?thesis
    by (simp add: call_info_text_def max_call_info_len_def MAX_FUNC_NAME_def MAX_LINE_def)
qed

subsection \<open>Properties\<close>

text \<open>
  C38. The time prefix: for every broken-down time in the documented range the assertion holds, 31
  characters are returned and written, they read \<^verbatim>\<open>[yyyy-mm-dd-hh:mm:ss.nnnnnnnnn]\<close> with every field
  padded to its width, and no byte outside them changes.
\<close>

theorem generateTimePrefix_correct:
  assumes "localtime (timestamp div 1000000000) = Some t" "tm_ok t"
  shows "generateTimePrefix localtime timestamp m a =
      Inr (31, mem_write m a (time_text t (timestamp mod 1000000000)))
    \<and> length (time_text t (timestamp mod 1000000000)) = 31"
  using assms by (rule generateTimePrefix_writes)

definition sample_tm :: tm where
  "sample_tm = \<lparr>tm_sec = 7, tm_min = 46, tm_hour = 1, tm_mday = 9, tm_mon = 8, tm_year = 101\<rparr>"

theorem generateTimePrefix_correct_witness:
  "generateTimePrefix (\<lambda>_. Some sample_tm) 1000000000000000042 (\<lambda>_. NUL) 5 =
     Inr (31, mem_write (\<lambda>_. NUL) 5 ''[2001-09-09-01:46:07.000000042]'')"
proof -
  have "time_text sample_tm 42 = ''[2001-09-09-01:46:07.000000042]''"
    by code_simp
  with generateTimePrefix_correct [of "\<lambda>_. Some sample_tm" 1000000000000000042 sample_tm "\<lambda>_. NUL" 5]
  show ?thesis by (simp add: tm_ok_def sample_tm_def)
qed

text \<open>
  C39. The time prefix loses nothing: read back in decimal, its fields are the members of the
  broken-down time and the nanoseconds of the timestamp.
\<close>

theorem time_prefix_roundtrip:
  assumes "localtime (timestamp div 1000000000) = Some t" "tm_ok t"
    and "generateTimePrefix localtime timestamp m a = Inr (n, m')"
  shows "map (\<lambda>(pos, len). int (decimal (mem_read m' (a + pos) len)))
      [(1, 4), (6, 2), (9, 2), (12, 2), (15, 2), (18, 2), (21, 9)] =
    [tm_year t + 1900, tm_mon t + 1, tm_mday t, tm_hour t, tm_min t, tm_sec t,
     int (timestamp mod 1000000000)]"
proof -
  let ?n = "timestamp mod 1000000000"
  have m': "m' = mem_write m a (time_text t ?n)" and len: "length (time_text t ?n) = 31"
    using generateTimePrefix_writes [of localtime timestamp t m a] assms(1,2) assms(3) by auto
  have f: "mem_read m' (a + pos) l = take l (drop pos (time_text t ?n))" if "pos + l \<le> 31" for pos l
    unfolding m' using that len by (intro mem_read_write_part) simp
  have l: "length (padded 4 (nat (tm_year t + 1900))) = 4" "length (padded 2 (nat (tm_mon t + 1))) = 2"
    "length (padded 2 (nat (tm_mday t))) = 2" "length (padded 2 (nat (tm_hour t))) = 2"
    "length (padded 2 (nat (tm_min t))) = 2" "length (padded 2 (nat (tm_sec t))) = 2"
    "length (padded 9 ?n) = 9"
    using assms(2) by (simp_all add: tm_ok_def length_padded nat_less_iff)
  show ?thesis
    using assms(2) l f [of 1 4] f [of 6 2] f [of 9 2] f [of 12 2] f [of 15 2] f [of 18 2] f [of 21 9]
    by (simp add: time_text_def tm_ok_def drop_Cons')
qed

theorem time_prefix_roundtrip_witness:
  "\<exists>m'. generateTimePrefix (\<lambda>_. Some sample_tm) 1000000000000000042 (\<lambda>_. NUL) 3 = Inr (31, m')
     \<and> map (\<lambda>(pos, len). int (decimal (mem_read m' (3 + pos) len)))
      [(1, 4), (6, 2), (9, 2), (12, 2), (15, 2), (18, 2), (21, 9)] = [2001, 9, 9, 1, 46, 7, 42]"
proof -
  have ok: "tm_ok sample_tm" by (simp add: tm_ok_def sample_tm_def)
  obtain m' where g: "generateTimePrefix (\<lambda>_. Some sample_tm) 1000000000000000042 (\<lambda>_. NUL) 3 = Inr (31, m')"
    using generateTimePrefix_writes [of "\<lambda>_. Some sample_tm" 1000000000000000042 sample_tm "\<lambda>_. NUL" 3] ok
    by auto
  from time_prefix_roundtrip [OF refl ok g] g show ?thesis by (simp add: sample_tm_def)
qed

text \<open>
  The call information prefix is \<^verbatim>\<open>[level][function][line]\<close> for every level of the enumeration, and
  nothing else is written; with a function name of at most 63 characters and a 64-bit line it stays
  within \<^verbatim>\<open>max_call_info_len\<close>, although that constant allows only five characters for the level.
\<close>

theorem generateCallInfoPrefix_correct:
  assumes "log_level si < kNUM_LOG_LEVELS"
  shows "generateCallInfoPrefix si m a = Inr (length (call_info_text si), mem_write m a (call_info_text si))
    \<and> (length (function_name si) \<le> MAX_FUNC_NAME \<and> line si < 2 ^ 64 \<longrightarrow>
         length (call_info_text si) \<le> max_call_info_len)"
  using generateCallInfoPrefix_writes [OF assms, of m a] call_info_text_bound [OF assms] by blast

theorem generateCallInfoPrefix_correct_witness:
  "generateCallInfoPrefix \<lparr>num_params = 0, param_types = [], format = [], log_level = kNOTICE,
       function_name = ''main'', line = 12\<rparr> (\<lambda>_. NUL) 31 =
     Inr (18, mem_write (\<lambda>_. NUL) 31 ''[notice][main][12]'')"
proof -
  let ?si = "\<lparr>num_params = 0, param_types = [], format = [], log_level = kNOTICE,
       function_name = ''main'', line = 12\<rparr>"
  have "call_info_text ?si = ''[notice][main][12]''" by code_simp
  moreover have "log_level ?si < kNUM_LOG_LEVELS" by (simp add: log_level_defs)
  ultimately show ?thesis using generateCallInfoPrefix_correct [of ?si "\<lambda>_. NUL" 31] by simp
qed

end
