(* ===== verification/Worker.thy ===== *)
theory Worker
  imports Backend Prefix
begin

section \<open>The worker thread\<close>

text \<open>
  \<^verbatim>\<open>StaticLogBackend::processLogBuffer\<close> and \<^verbatim>\<open>StaticLogBackend::ioPoll\<close> of
  \<^verbatim>\<open>src/src/static_log_backend.cc\<close>, with \<^verbatim>\<open>get_nanotime\<close> of \<^verbatim>\<open>src/src/static_log_cycles.c\<close>. One
  iteration of the poll loop is one operation on the backend state, under the mutex as in the code.
  The static data of the call sites, the time zone and the allocator are parameters, collected in a
  record.
\<close>

record surroundings =
  env :: environment
  localtime_of :: "nat \<Rightarrow> tm option"
  statics :: "nat \<Rightarrow> StaticInfo option"

datatype worker_error =
    Prefix_error prefix_error
  | Decode_error decode_error
  | Invalid_pointer

fun lift_worker :: "('e \<Rightarrow> worker_error) \<Rightarrow> 'e + 'a \<Rightarrow> worker_error + 'a" where
  "lift_worker h (Inl e) = Inl (h e)"
| "lift_worker h (Inr x) = Inr x"

text \<open>\<^verbatim>\<open>get_nanotime\<close>: \<^verbatim>\<open>int64_t\<close> arithmetic on the clock's seconds and nanoseconds.\<close>

definition get_nanotime :: "64 word \<Rightarrow> 64 word \<Rightarrow> 64 word" where
  "get_nanotime tv_sec tv_nsec = tv_sec * 1000000000 + tv_nsec"

subsection \<open>processLogBuffer\<close>

text \<open>
  The line built in the log buffer for a record: the two prefixes, the formatted parameters and the
  newline. The result is \<^verbatim>\<open>len\<close>, the length of the prefixes and the log buffer.
\<close>

definition format_line ::
  "surroundings \<Rightarrow> (nat \<Rightarrow> nat list) \<Rightarrow> mem \<Rightarrow> nat \<Rightarrow> log_buffer \<Rightarrow> worker_error + (int \<times> nat \<times> log_buffer)" where
  "format_line w sizes_at m raw_data lb =
     (let log_entry = entry_at m raw_data
      in sum_bind (lift_worker Prefix_error
             (generateTimePrefix (localtime_of w) (timestamp log_entry) (content lb) 0))
           (\<lambda>(prefix_ts_len, c).
         case statics w (static_info log_entry) of
           None \<Rightarrow> Inl Invalid_pointer
         | Some info \<Rightarrow>
             sum_bind (lift_worker Prefix_error (generateCallInfoPrefix info c prefix_ts_len))
               (\<lambda>(prefix_callinfo_len, c).
                 if bufflen lb < prefix_ts_len + prefix_callinfo_len then Inl (Decode_error Buffer_overflow)
                 else sum_bind (lift_worker Decode_error
                     (process_fmt (env w) (format info) (num_params info) (param_types info)
                        (sizes_at (param_size log_entry)) m (raw_data + sizeof_LogEntry)
                        (lb\<lparr>content := c\<rparr>) (prefix_ts_len + prefix_callinfo_len)))
                   (\<lambda>(len, lb).
                     sum_bind (lift_worker Decode_error
                         (lb_write lb (nat (int (prefix_ts_len + prefix_callinfo_len) + len)) [CHR 0x0A]))
                       (\<lambda>lb. Inr (len, prefix_ts_len + prefix_callinfo_len, lb))))))"

definition processLogBuffer ::
  "surroundings \<Rightarrow> nat \<Rightarrow> nat \<Rightarrow> backend \<Rightarrow> worker_error + backend" where
  "processLogBuffer w now p s =
     (case heap s p of
        None \<Rightarrow> Inl Invalid_pointer
      | Some b \<Rightarrow>
          (case peek b of ((raw_data, bytes_available), b) \<Rightarrow>
             if 0 < bytes_available then
               (let b = b\<lparr>storage := mem_write (storage b) raw_data (le_bytes 8 now)\<rparr>;
                    log_entry = entry_at (storage b) raw_data
                in sum_bind (format_line w (\<lambda>a. map unat (param_sizes s a)) (storage b) raw_data (log_buf s))
                     (\<lambda>(len, prefix_len, lb).
                        let s = s\<lparr>log_buf := lb\<rparr>
                        in if len \<noteq> - 1 \<and> outfd s \<noteq> None
                           then Inr ((write_log (mem_read (content lb) 0 (nat (int prefix_len + len + 1))) s)
                                       \<lparr>heap := (heap s)(p \<mapsto> consume (entry_size log_entry) b)\<rparr>)
                           else Inr (s\<lparr>heap := (heap s)(p \<mapsto> b)\<rparr>)))
             else Inr (s\<lparr>heap := (heap s)(p \<mapsto> b)\<rparr>)))"

subsection \<open>The scan over the buffers\<close>

definition UINT64_MAX :: nat where
  "UINT64_MAX = 2 ^ 64 - 1"

text \<open>
  One buffer: deleted, or kept with the representation \<^verbatim>\<open>peek\<close> leaves and the timestamp of its oldest
  record, if there is one.
\<close>

definition visit_buffer :: "staging_buffer \<Rightarrow> (staging_buffer \<times> nat option) option" where
  "visit_buffer b =
     (if \<not> checkCanDelete b then
        (case peek b of ((raw_data, bytes_available), b) \<Rightarrow>
           Some (b, if 0 < bytes_available then Some (timestamp (entry_at (storage b) raw_data)) else None))
      else None)"

definition earlier :: "nat option \<Rightarrow> nat \<Rightarrow> nat \<times> nat option \<Rightarrow> nat \<times> nat option" where
  "earlier x p earliest =
     (case x of
        None \<Rightarrow> earliest
      | Some ts \<Rightarrow> if ts < fst earliest then (ts, Some p) else earliest)"

text \<open>The remaining buffers, the heap and the earliest record after the loop over the vector.\<close>

fun io_scan ::
  "nat list \<Rightarrow> (nat \<Rightarrow> staging_buffer option) \<Rightarrow> nat \<times> nat option
     \<Rightarrow> worker_error + (nat list \<times> (nat \<Rightarrow> staging_buffer option) \<times> nat \<times> nat option)" where
  "io_scan [] h earliest = Inr ([], h, earliest)"
| "io_scan (p # ps) h earliest =
     (case h p of
        None \<Rightarrow> Inl Invalid_pointer
      | Some b \<Rightarrow>
          (case visit_buffer b of
             Some (b, x) \<Rightarrow>
               sum_bind (io_scan ps (h(p \<mapsto> b)) (earlier x p earliest))
                 (\<lambda>(kept, h, earliest). Inr (p # kept, h, earliest))
           | None \<Rightarrow> io_scan ps (h(p := None)) earliest))"

subsection \<open>The poll loop\<close>

datatype poll =
    Leave \<comment> \<open>the loop or the function ends\<close>
  | Processed nat
  | Wait

definition ioPoll_iteration ::
  "surroundings \<Rightarrow> nat \<Rightarrow> backend \<Rightarrow> worker_error + (poll \<times> backend)" where
  "ioPoll_iteration w now s =
     (if \<not> (\<not> is_stop s \<or> thread_buffers s \<noteq> []) then Inr (Leave, s\<lparr>fdflush := Finished\<rparr>)
      else if is_exit s then Inr (Leave, s\<lparr>fdflush := Finished\<rparr>)
      else
        sum_bind (io_scan (thread_buffers s) (heap s) (UINT64_MAX, None))
          (\<lambda>(kept, h, earliest).
             let s = s\<lparr>thread_buffers := kept, heap := h\<rparr>
             in if fst earliest \<noteq> UINT64_MAX then
                  (case snd earliest of
                     None \<Rightarrow> Inl Invalid_pointer
                   | Some p \<Rightarrow> sum_bind (processLogBuffer w now p s) (\<lambda>s. Inr (Processed p, s)))
                else Inr (Wait, s\<lparr>fdflush := Waiting\<rparr>)))"

text \<open>The loop, for a number of iterations, with the clock read in each; a wait ends by its timeout.\<close>

fun ioPoll ::
  "surroundings \<Rightarrow> nat list \<Rightarrow> backend \<Rightarrow> worker_error + (poll \<times> backend)" where
  "ioPoll w [] s = Inr (Wait, s)"
| "ioPoll w (now # nows) s =
     sum_bind (ioPoll_iteration w now (s\<lparr>fdflush := Running\<rparr>)) (\<lambda>(r, s).
       if r = Leave then Inr (r, s) else ioPoll w nows s)"

subsection \<open>The contract of a buffer that can end\<close>

text \<open>
  The queue of \<open>StagingBuffer\<close>, extended by the test whether it can be deleted and by the stamp of a
  record. \<open>visit\<close> is what the scan does with one queue.
\<close>

definition visit ::
  "('b \<Rightarrow> bool) \<Rightarrow> ('b \<Rightarrow> 'r option \<times> 'b) \<Rightarrow> ('r \<Rightarrow> nat) \<Rightarrow> 'b \<Rightarrow> ('b \<times> nat option) option" where
  "visit finished front stamp b =
     (if finished b then None else Some (snd (front b), map_option stamp (fst (front b))))"

locale ending_fifo = record_fifo init holds valid push front drop_front
  for init :: 'b and holds :: "'b \<Rightarrow> 'r list \<Rightarrow> bool" and valid push front drop_front +
  fixes finished :: "'b \<Rightarrow> bool"
    and stamp :: "'r \<Rightarrow> nat"
  assumes finished_empty: "holds b rs \<Longrightarrow> finished b \<Longrightarrow> rs = []"
begin

text \<open>A visit deletes only empty queues, and sees the stamp of the oldest record of the others.\<close>

lemma visit_holds:
  assumes "holds b rs"
  shows "(finished b \<and> visit finished front stamp b = None \<and> rs = [])
    \<or> (\<not> finished b \<and> (\<exists>b'. visit finished front stamp b =
          Some (b', case rs of [] \<Rightarrow> None | r # _ \<Rightarrow> Some (stamp r)) \<and> holds b' rs))"
proof (cases "finished b")
  case True
  with finished_empty [OF assms] show ?thesis by (simp add: visit_def)
next
  case False
  obtain x b' where f: "front b = (x, b')" by fastforce
  from front_holds [OF assms f] f False show ?thesis
    by (auto simp: visit_def split: list.splits)
qed

end

definition record_stamp :: "byte list \<Rightarrow> nat" where
  "record_stamp r = le_nat (take 8 r)"

lemma checkCanDelete_empty: "sb_records b rs \<Longrightarrow> checkCanDelete b \<Longrightarrow> rs = []"
  using framed_not_Nil
  by (cases rs) (auto simp: sb_records_def checkCanDelete_def pending_def segment_defs dest: sb_holds_pending)

interpretation stq: ending_fifo "new_StagingBuffer i" sb_records framed push_record front_record_of
  drop_record checkCanDelete record_stamp for i
  by unfold_locales (rule checkCanDelete_empty)

text \<open>A framed record starts with its stamp.\<close>

lemma record_stamp_entry:
  assumes "mem_read m a (length r) = r" "framed r"
  shows "timestamp (entry_at m a) = record_stamp r"
proof -
  have "8 \<le> length r" using assms(2) by (simp add: framed_def sizeof_LogEntry_def)
  then have "take 8 (mem_read m a (length r)) = mem_read m a 8" by (simp add: min_def)
  with assms(1) show ?thesis by (simp add: entry_at_def record_stamp_def)
qed

text \<open>Once a peek has found something, the oldest record stands at its position.\<close>

lemma peek_front:
  assumes "sb_records b rs" "peek b = ((pos, avail), b')" "0 < avail"
  obtains r rs' where "rs = r # rs'" "framed r" "pos = consumer_pos b'"
    "mem_read (storage b') pos (length r) = r" "entry_size (entry_at (storage b') pos) = length r"
    "sb_records b' rs" "first_segment b' \<noteq> []" "avail = length (first_segment b')"
proof -
  have hb: "sb_holds b rs" using assms(1) by (simp add: sb_records_def)
  note h = peek_holds [OF hb assms(2)]
  have ne: "first_segment b' \<noteq> []" using h(5) assms(3) by auto
  then obtain r rs' where rs: "rs = r # rs'"
    using sb_holds_pending [OF h(1)] by (cases rs) (auto simp: pending_def)
  have fr: "framed r" using assms(1) rs by (simp add: sb_records_def)
  obtain rs1 where seg: "first_segment b' = r @ concat rs1"
    using front_record [of b' r rs'] h(1) rs framed_not_Nil [OF fr] ne by metis
  with h(3) have "mem_read (storage b') pos avail = r @ concat rs1" by simp
  note e = entry_size_of_framed [OF this fr]
  have "sb_records b' rs" using h(1) assms(1) by (simp add: sb_records_def)
  with that rs fr h(2,5) e ne show thesis by blast
qed

lemma visit_buffer_eq:
  assumes "sb_records b rs"
  shows "visit_buffer b = visit checkCanDelete front_record_of record_stamp b"
proof (cases "checkCanDelete b")
  case True
  then show ?thesis by (simp add: visit_buffer_def visit_def)
next
  case False
  obtain pos avail b' where pk: "peek b = ((pos, avail), b')" by (metis prod.exhaust)
  show ?thesis
  proof (cases "0 < avail")
    case True
    then obtain r where "framed r" "mem_read (storage b') pos (length r) = r"
      "entry_size (entry_at (storage b') pos) = length r"
      using peek_front [OF assms pk] by metis
    with False True pk record_stamp_entry show ?thesis
      by (simp add: visit_buffer_def visit_def front_record_of_def)
  qed (use False pk in \<open>simp add: visit_buffer_def visit_def front_record_of_def\<close>)
qed

lemma visit_buffer_records:
  assumes "sb_records b rs"
  shows "(checkCanDelete b \<and> visit_buffer b = None \<and> rs = [])
    \<or> (\<not> checkCanDelete b \<and> (\<exists>b'. visit_buffer b =
          Some (b', case rs of [] \<Rightarrow> None | r # _ \<Rightarrow> Some (record_stamp r)) \<and> sb_records b' rs))"
  unfolding visit_buffer_eq [OF assms] by (rule stq.visit_holds [OF assms])

lemma visit_buffer_frame:
  "visit_buffer b = Some (b', x) \<Longrightarrow> should_deallocate b' = should_deallocate b"
  by (cases "peek b") (auto simp: visit_buffer_def dest: peek_frame split: if_splits prod.splits)

subsection \<open>Stamping and consuming the oldest record\<close>

definition stamped :: "nat \<Rightarrow> byte list \<Rightarrow> byte list" where
  "stamped now r = le_bytes 8 now @ drop 8 r"

lemma length_stamped [simp]: "8 \<le> length r \<Longrightarrow> length (stamped now r) = length r"
  by (simp add: stamped_def)

lemma framed_stamped: "framed r \<Longrightarrow> framed (stamped now r)"
  by (simp add: framed_def stamped_def sizeof_LogEntry_def)

lemma mem_read_stamped:
  assumes "mem_read m a (k + n) = xs @ ys" "length xs = k" "length xs' = k"
  shows "mem_read (mem_write m a xs') a (k + n) = xs' @ ys"
proof -
  have "mem_read m (a + k) n = ys" using assms(1,2) by (simp add: mem_read_append)
  then have "mem_read (mem_write m a xs') (a + k) n = ys"
    using assms(3) by (simp add: mem_simps)
  moreover have "mem_read (mem_write m a xs') a k = xs'"
    using mem_read_write_same [of m a xs'] assms(3) by simp
  ultimately show ?thesis by (simp add: mem_read_append)
qed

lemma stamp_records:
  assumes "sb_records b (r # rs)" "first_segment b \<noteq> []"
  shows "sb_records (b\<lparr>storage := mem_write (storage b) (consumer_pos b) (le_bytes 8 now)\<rparr>) (stamped now r # rs)"
proof -
  let ?b = "b\<lparr>storage := mem_write (storage b) (consumer_pos b) (le_bytes 8 now)\<rparr>"
  have hb: "sb_holds b (r # rs)" and fr: "framed r" and fs: "\<forall>r \<in> set rs. framed r"
    using assms(1) by (auto simp: sb_records_def)
  have inv: "sb_inv b" using hb by (rule sb_holds_inv)
  obtain rs1 rs2 where rs: "rs = rs1 @ rs2" "first_segment b = r @ concat rs1"
    "concat rs2 = second_segment b"
    using front_record [OF hb framed_not_Nil [OF fr] assms(2)] by metis
  have r8: "8 \<le> length r" using fr by (simp add: framed_def sizeof_LogEntry_def)
  define e where "e = (if consumer_pos b \<le> producer_pos b then producer_pos b else end_of_recorded_space b)"
  have seg: "first_segment c = mem_read (storage c) (consumer_pos b) (e - consumer_pos b)"
    if "consumer_pos c = consumer_pos b" "producer_pos c = producer_pos b"
      "end_of_recorded_space c = end_of_recorded_space b" for c
    using that by (simp add: first_segment_def e_def)
  have len: "e - consumer_pos b = length r + length (concat rs1)"
    using arg_cong [OF rs(2), of length] seg [of b] by simp
  have "mem_read (storage b) (consumer_pos b) (8 + (e - consumer_pos b - 8)) =
      take 8 r @ (drop 8 r @ concat rs1)"
    using rs(2) seg [of b] len r8 by simp
  from mem_read_stamped [OF this, of "le_bytes 8 now"] r8
  have "first_segment ?b = stamped now r @ concat rs1"
    using seg [of ?b] len by (simp add: stamped_def)
  moreover have "second_segment ?b = second_segment b"
    using inv by (auto simp: second_segment_def sb_inv_def mem_simps)
  moreover have "sb_inv ?b" using inv by (simp add: sb_inv_def)
  ultimately have "sb_holds ?b (stamped now r # rs)"
    using rs(1,3) unfolding sb_holds_def
    by (intro conjI exI [of _ "stamped now r # rs1"] exI [of _ rs2]) simp_all
  with fr fs show ?thesis by (simp add: sb_records_def framed_stamped)
qed

text \<open>
  The oldest record when \<open>processLogBuffer\<close> looks at it, and what becomes of the buffer: the record is
  consumed, or stays with its new stamp.
\<close>

lemma process_front:
  assumes "sb_records b (r # rs)" "peek b = ((pos, avail), b')" "0 < avail"
    "b2 = b'\<lparr>storage := mem_write (storage b') pos (le_bytes 8 now)\<rparr>"
  shows "sb_records b2 (stamped now r # rs)" "sb_records (consume (length r) b2) rs"
    "entry_size (entry_at (storage b2) pos) = length r"
    "mem_read (storage b2) pos (length r) = stamped now r"
proof -
  have pf: "framed r" "pos = consumer_pos b'" "sb_records b' (r # rs)" "first_segment b' \<noteq> []"
    "mem_read (storage b') pos (length r) = r"
    using peek_front [OF assms(1-3)] by auto
  have r8: "8 \<le> length r" using pf(1) by (simp add: framed_def sizeof_LogEntry_def)
  show rec: "sb_records b2 (stamped now r # rs)"
    using stamp_records [OF pf(3,4), of now] assms(4) pf(2) by simp
  have "length (first_segment b2) = length (first_segment b')"
    using assms(4) by (simp add: first_segment_def)
  then have ne: "first_segment b2 \<noteq> []" using pf(4) by auto
  have fr: "framed (stamped now r)" using pf(1) by (rule framed_stamped)
  have "sb_holds b2 (stamped now r # rs)" using rec by (simp add: sb_records_def)
  from consume_holds [OF this framed_not_Nil [OF fr] ne] rec r8
  show "sb_records (consume (length r) b2) rs" by (simp add: sb_records_def)
  have "mem_read (storage b') pos (8 + (length r - 8)) = take 8 r @ drop 8 r"
    using pf(5) r8 by simp
  from mem_read_stamped [OF this, of "le_bytes 8 now"] r8
  show m: "mem_read (storage b2) pos (length r) = stamped now r"
    using assms(4) by (simp add: stamped_def)
  show "entry_size (entry_at (storage b2) pos) = length r"
    using entry_size_of_framed(1) [of "storage b2" pos "length r" "stamped now r" "[]"] m fr r8 by simp
qed

subsection \<open>The scan\<close>

text \<open>What the scan sees of the buffer at a pointer.\<close>

definition oldest_stamp :: "(nat \<Rightarrow> staging_buffer option) \<Rightarrow> nat \<Rightarrow> nat option" where
  "oldest_stamp h p = Option.bind (h p) (\<lambda>b. Option.bind (visit_buffer b) snd)"

definition buffers_ok :: "(nat \<Rightarrow> staging_buffer option) \<Rightarrow> nat list \<Rightarrow> bool" where
  "buffers_ok h ps \<longleftrightarrow> distinct ps \<and> (\<forall>p \<in> set ps. \<exists>b rs. h p = Some b \<and> sb_records b rs)"

lemma buffers_ok_upd: "buffers_ok h ps \<Longrightarrow> p \<notin> set ps \<Longrightarrow> buffers_ok (h(p := x)) ps"
  by (auto simp: buffers_ok_def)

lemma oldest_stamp_other: "p \<noteq> q \<Longrightarrow> oldest_stamp (h(p := x)) q = oldest_stamp h q"
  by (simp add: oldest_stamp_def)

definition deletable :: "(nat \<Rightarrow> staging_buffer option) \<Rightarrow> nat \<Rightarrow> bool" where
  "deletable h p \<longleftrightarrow> (case h p of None \<Rightarrow> False | Some b \<Rightarrow> checkCanDelete b)"

lemma deletable_other: "p \<noteq> q \<Longrightarrow> deletable (h(p := x)) q = deletable h q"
  by (simp add: deletable_def)

text \<open>What holds of the heap after the scan of some buffers.\<close>

definition scanned ::
  "(nat \<Rightarrow> staging_buffer option) \<Rightarrow> nat list \<Rightarrow> (nat \<Rightarrow> staging_buffer option) \<Rightarrow> bool" where
  "scanned h ps h' \<longleftrightarrow>
     (\<forall>p. p \<notin> set ps \<longrightarrow> h' p = h p)
     \<and> (\<forall>p \<in> set ps. deletable h p \<longrightarrow> h' p = None)
     \<and> (\<forall>p \<in> set ps. \<forall>b rs. \<not> deletable h p \<longrightarrow> h p = Some b \<longrightarrow> sb_records b rs \<longrightarrow>
          (\<exists>b'. h' p = Some b' \<and> sb_records b' rs \<and> should_deallocate b' = should_deallocate b))"

lemma scanned_Cons_deleted:
  assumes "scanned (h(p := None)) ps h'" "p \<notin> set ps" "deletable h p"
  shows "scanned h (p # ps) h'"
proof -
  have "p \<noteq> q" if "q \<in> set ps" for q using assms(2) that by auto
  then have "deletable (h(p := None)) q = deletable h q" "(h(p := None)) q = h q" if "q \<in> set ps" for q
    using that by (auto simp: deletable_other)
  with assms show ?thesis unfolding scanned_def by simp
qed

lemma scanned_Cons_kept:
  assumes "scanned (h(p \<mapsto> b)) ps h'" "p \<notin> set ps" "\<not> deletable h p"
    "\<And>a rs. h p = Some a \<Longrightarrow> sb_records a rs \<Longrightarrow>
       sb_records b rs \<and> should_deallocate b = should_deallocate a"
  shows "scanned h (p # ps) h'"
proof -
  have "p \<noteq> q" if "q \<in> set ps" for q using assms(2) that by auto
  then have "deletable (h(p \<mapsto> b)) q = deletable h q" "(h(p \<mapsto> b)) q = h q" if "q \<in> set ps" for q
    using that by (auto simp: deletable_other)
  with assms show ?thesis unfolding scanned_def by simp
qed

text \<open>
  The scan never fails; it removes the deletable buffers from the vector and the heap, leaves the
  records of the others and everything else alone, and its choice is a left fold over the stamps.
\<close>

lemma io_scan_spec:
  assumes "buffers_ok h ps"
  shows "\<exists>h'. io_scan ps h e = Inr (filter (\<lambda>p. \<not> deletable h p) ps, h',
      fold (\<lambda>p. earlier (oldest_stamp h p) p) ps e) \<and> scanned h ps h'"
  using assms
proof (induction ps arbitrary: h e)
  case Nil
  then show ?case by (simp add: scanned_def)
next
  case (Cons p ps)
  then obtain b rs where b: "h p = Some b" "sb_records b rs" and np: "p \<notin> set ps"
    and ok: "buffers_ok h ps" by (auto simp: buffers_ok_def)
  have ne: "p \<noteq> q" if "q \<in> set ps" for q using np that by auto
  have other: "filter (\<lambda>q. \<not> deletable (h(p := x)) q) ps = filter (\<lambda>q. \<not> deletable h q) ps"
    "fold (\<lambda>q. earlier (oldest_stamp (h(p := x)) q) q) ps e' = fold (\<lambda>q. earlier (oldest_stamp h q) q) ps e'"
    for x e'
    using ne by (auto intro!: filter_cong fold_cong simp: deletable_other oldest_stamp_other)
  note IH = Cons.IH [OF buffers_ok_upd [OF ok np], unfolded other]
  show ?case
  proof (cases "checkCanDelete b")
    case True
    then have v: "visit_buffer b = None" and d: "deletable h p"
      using b(1) by (simp_all add: visit_buffer_def deletable_def)
    obtain h' where h': "io_scan ps (h(p := None)) e = Inr (filter (\<lambda>q. \<not> deletable h q) ps, h',
        fold (\<lambda>q. earlier (oldest_stamp h q) q) ps e)" "scanned (h(p := None)) ps h'"
      using IH by blast
    have "earlier (oldest_stamp h p) p e = e" using b v by (simp add: oldest_stamp_def earlier_def)
    with h'(1) b v d scanned_Cons_deleted [OF h'(2) np d] show ?thesis by simp
  next
    case False
    then have d: "\<not> deletable h p" using b(1) by (simp add: deletable_def)
    obtain b1 x where v: "visit_buffer b = Some (b1, x)"
      using visit_buffer_records [OF b(2)] False by auto
    have keep: "sb_records b1 rs' \<and> should_deallocate b1 = should_deallocate b" if "sb_records b rs'" for rs'
      using visit_buffer_records [OF that] False v visit_buffer_frame [OF v] by auto
    obtain h' where h': "io_scan ps (h(p \<mapsto> b1)) (earlier x p e) =
        Inr (filter (\<lambda>q. \<not> deletable h q) ps, h',
          fold (\<lambda>q. earlier (oldest_stamp h q) q) ps (earlier x p e))" "scanned (h(p \<mapsto> b1)) ps h'"
      using IH by blast
    have "oldest_stamp h p = x" using b v by (simp add: oldest_stamp_def)
    moreover have "scanned h (p # ps) h'"
      using scanned_Cons_kept [OF h'(2) np d] keep b(1) by simp
    ultimately show ?thesis using h'(1) b v d by simp
  qed
qed

text \<open>The fold picks the first buffer with the smallest stamp below the start value.\<close>

lemma fold_earlier:
  fixes f :: "nat \<Rightarrow> nat option"
  assumes "fold (\<lambda>p. earlier (f p) p) ps (m0, p0) = (m, q)"
  shows "m \<le> m0 \<and> (\<forall>p \<in> set ps. \<forall>ts. f p = Some ts \<longrightarrow> m \<le> ts)
    \<and> (m = m0 \<and> q = p0 \<or> m < m0 \<and> (\<exists>p \<in> set ps. q = Some p \<and> f p = Some m))"
  using assms
proof (induction ps arbitrary: m0 p0)
  case Nil
  then show ?case by simp
next
  case (Cons p ps)
  obtain m1 p1 where e: "earlier (f p) p (m0, p0) = (m1, p1)" by fastforce
  from Cons.IH [of m1 p1] Cons.prems e
  have IH: "m \<le> m1 \<and> (\<forall>p \<in> set ps. \<forall>ts. f p = Some ts \<longrightarrow> m \<le> ts)
    \<and> (m = m1 \<and> q = p1 \<or> m < m1 \<and> (\<exists>p \<in> set ps. q = Some p \<and> f p = Some m))" by simp
  have "m1 = m0 \<and> p1 = p0 \<and> (\<forall>ts. f p = Some ts \<longrightarrow> m0 \<le> ts)
      \<or> m1 < m0 \<and> p1 = Some p \<and> f p = Some m1"
    using e by (auto simp: earlier_def split: option.splits if_splits)
  with IH show ?case by fastforce
qed

lemma oldest_stamp_records:
  assumes "h p = Some b" "sb_records b rs" "rs \<noteq> []"
  shows "oldest_stamp h p = Some (record_stamp (hd rs))"
  using visit_buffer_records [OF assms(2)] assms(1,3)
  by (cases rs) (auto simp: oldest_stamp_def)

subsection \<open>Processing one record\<close>

lemma write_log_frame [simp]:
  "heap (write_log bs s) = heap s" "thread_buffers (write_log bs s) = thread_buffers s"
  "staging_ptr (write_log bs s) = staging_ptr s" "param_sizes (write_log bs s) = param_sizes s"
  "log_buf (write_log bs s) = log_buf s" "is_stop (write_log bs s) = is_stop s"
  "is_exit (write_log bs s) = is_exit s" "current_log_level (write_log bs s) = current_log_level s"
  by (simp_all add: write_log_def split: option.splits)

text \<open>A buffer with nothing to read is left alone; otherwise the oldest record is stamped and formatted.\<close>

lemma processLogBuffer_empty:
  assumes "heap s p = Some b" "sb_records b []" "processLogBuffer w now p s = Inr s'"
  obtains b' where "s' = s\<lparr>heap := (heap s)(p \<mapsto> b')\<rparr>" "sb_records b' []"
    "should_deallocate b' = should_deallocate b"
proof -
  obtain pos avail b' where pk: "peek b = ((pos, avail), b')" by (metis prod.exhaust)
  have hb: "sb_holds b []" using assms(2) by (simp add: sb_records_def)
  have "\<not> 0 < avail" using peek_front [OF assms(2) pk] by auto
  with assms(1,3) pk have "s' = s\<lparr>heap := (heap s)(p \<mapsto> b')\<rparr>" by (simp add: processLogBuffer_def)
  moreover have "sb_records b' []" using peek_holds(1) [OF hb pk] by (simp add: sb_records_def)
  moreover have "should_deallocate b' = should_deallocate b" using peek_frame [OF pk] by simp
  ultimately show thesis by (rule that)
qed

lemma processLogBuffer_record:
  assumes "heap s p = Some b" "sb_records b (r # rs)"
  obtains raw_data b2 where
    "sb_records b2 (stamped now r # rs)" "sb_records (consume (length r) b2) rs"
    "mem_read (storage b2) raw_data (length r) = stamped now r"
    "should_deallocate b2 = should_deallocate b"
    "processLogBuffer w now p s =
       sum_bind (format_line w (\<lambda>a. map unat (param_sizes s a)) (storage b2) raw_data (log_buf s))
         (\<lambda>(len, prefix_len, lb).
            if len \<noteq> - 1 \<and> outfd s \<noteq> None
            then Inr ((write_log (mem_read (content lb) 0 (nat (int prefix_len + len + 1))) (s\<lparr>log_buf := lb\<rparr>))
                        \<lparr>heap := (heap s)(p \<mapsto> consume (length r) b2)\<rparr>)
            else Inr (s\<lparr>log_buf := lb, heap := (heap s)(p \<mapsto> b2)\<rparr>))"
proof -
  obtain pos avail b1 where pk: "peek b = ((pos, avail), b1)" by (metis prod.exhaust)
  have hb: "sb_holds b (r # rs)" and fr: "framed r" using assms(2) by (auto simp: sb_records_def)
  have av: "0 < avail"
    using peek_holds(1,4) [OF hb pk] sb_holds_pending [of b1 "r # rs"] framed_not_Nil [OF fr] by auto
  let ?b2 = "b1\<lparr>storage := mem_write (storage b1) pos (le_bytes 8 now)\<rparr>"
  note f = process_front [OF assms(2) pk av refl, of now]
  have "should_deallocate ?b2 = should_deallocate b" using peek_frame [OF pk] by simp
  moreover have "processLogBuffer w now p s =
       sum_bind (format_line w (\<lambda>a. map unat (param_sizes s a)) (storage ?b2) pos (log_buf s))
         (\<lambda>(len, prefix_len, lb).
            if len \<noteq> - 1 \<and> outfd s \<noteq> None
            then Inr ((write_log (mem_read (content lb) 0 (nat (int prefix_len + len + 1))) (s\<lparr>log_buf := lb\<rparr>))
                        \<lparr>heap := (heap s)(p \<mapsto> consume (length r) ?b2)\<rparr>)
            else Inr (s\<lparr>log_buf := lb, heap := (heap s)(p \<mapsto> ?b2)\<rparr>))"
    using assms(1) pk av f(3) by (simp add: processLogBuffer_def Let_def cong: if_cong)
  ultimately show thesis using that f by blast
qed

text \<open>What the processing of a buffer may do to its records.\<close>

definition processed :: "nat \<Rightarrow> byte list list \<Rightarrow> byte list list \<Rightarrow> bool" where
  "processed now rs rs' \<longleftrightarrow>
     (case rs of [] \<Rightarrow> rs' = [] | r # rs1 \<Rightarrow> rs' = rs1 \<or> rs' = stamped now r # rs1)"

lemma processLogBuffer_effect:
  assumes "heap s p = Some b" "sb_records b rs" "processLogBuffer w now p s = Inr s'"
  obtains b' rs' where "heap s' = (heap s)(p \<mapsto> b')" "sb_records b' rs'" "processed now rs rs'"
    "should_deallocate b' = should_deallocate b" "thread_buffers s' = thread_buffers s"
    "staging_ptr s' = staging_ptr s"
proof (cases rs)
  case Nil
  with assms obtain b' where "s' = s\<lparr>heap := (heap s)(p \<mapsto> b')\<rparr>" "sb_records b' []"
    "should_deallocate b' = should_deallocate b"
    using processLogBuffer_empty by metis
  with Nil show thesis by (intro that [of b' "[]"]) (simp_all add: processed_def)
next
  case (Cons r rs1)
  obtain raw b2 where b2: "sb_records b2 (stamped now r # rs1)" "sb_records (consume (length r) b2) rs1"
    "should_deallocate b2 = should_deallocate b"
    and eq: "processLogBuffer w now p s =
       sum_bind (format_line w (\<lambda>a. map unat (param_sizes s a)) (storage b2) raw (log_buf s))
         (\<lambda>(len, prefix_len, lb).
            if len \<noteq> - 1 \<and> outfd s \<noteq> None
            then Inr ((write_log (mem_read (content lb) 0 (nat (int prefix_len + len + 1))) (s\<lparr>log_buf := lb\<rparr>))
                        \<lparr>heap := (heap s)(p \<mapsto> consume (length r) b2)\<rparr>)
            else Inr (s\<lparr>log_buf := lb, heap := (heap s)(p \<mapsto> b2)\<rparr>))"
    by (rule processLogBuffer_record [OF assms(1) assms(2) [unfolded Cons], where now = now and w = w]) blast
  from assms(3) eq consider
    (consumed) "heap s' = (heap s)(p \<mapsto> consume (length r) b2)" "thread_buffers s' = thread_buffers s"
      "staging_ptr s' = staging_ptr s"
    | (kept) "heap s' = (heap s)(p \<mapsto> b2)" "thread_buffers s' = thread_buffers s"
      "staging_ptr s' = staging_ptr s"
    by (auto simp: sum_bind_Inr_iff split: if_splits)
  then show thesis
  proof cases
    case consumed
    then show thesis using b2 Cons
      by (intro that [of "consume (length r) b2" rs1]) (simp_all add: processed_def consume_def)
  next
    case kept
    then show thesis using b2 Cons
      by (intro that [of b2 "stamped now r # rs1"]) (simp_all add: processed_def)
  qed
qed

end
