(* ===== verification/PollLoop.thy ===== *)
theory PollLoop
  imports Worker
begin

section \<open>One iteration of the poll loop\<close>

text \<open>
  What an iteration of \<open>ioPoll_iteration\<close> does to a backend whose buffers hold whole records: the scan
  deletes the buffers of ended threads once they are empty and no other, picks the oldest record, and
  the processing changes the records of the chosen buffer alone.
\<close>

lemma registered_ok: "registered h ps \<Longrightarrow> buffers_ok h ps"
  using registered_iff registered_records unfolding buffers_ok_def by (metis registered_def)

lemma scanned_other: "scanned h ps h' \<Longrightarrow> p \<notin> set ps \<Longrightarrow> h' p = h p"
  by (simp add: scanned_def)

lemma scanned_deleted: "scanned h ps h' \<Longrightarrow> p \<in> set ps \<Longrightarrow> deletable h p \<Longrightarrow> h' p = None"
  by (simp add: scanned_def)

lemma scanned_kept:
  "scanned h ps h' \<Longrightarrow> p \<in> set ps \<Longrightarrow> \<not> deletable h p \<Longrightarrow> h p = Some b \<Longrightarrow> sb_records b rs \<Longrightarrow>
     \<exists>b'. h' p = Some b' \<and> sb_records b' rs \<and> should_deallocate b' = should_deallocate b"
  unfolding scanned_def by blast

text \<open>The scan keeps the invariant of the vector, and of the threads' pointers.\<close>

lemma scanned_registered:
  assumes "registered h ps" "scanned h ps h'"
  shows "registered h' (filter (\<lambda>p. \<not> deletable h p) ps)"
proof -
  have cases: "(p \<in> set ps \<and> \<not> deletable h p \<and> (\<exists>b' rs. h' p = Some b' \<and> sb_records b' rs))
      \<or> ((p \<notin> set ps \<or> deletable h p) \<and> h' p = None)" for p
  proof (cases "p \<in> set ps")
    case True
    then obtain b rs where "h p = Some b" "sb_records b rs"
      using registered_iff [OF assms(1)] registered_records [OF assms(1)] by metis
    with True scanned_kept [OF assms(2) True] scanned_deleted [OF assms(2) True] show ?thesis by blast
  next
    case False
    then have "h p = None" using registered_iff [OF assms(1), of p] by simp
    with False scanned_other [OF assms(2) False] show ?thesis by simp
  qed
  have "distinct ps" using assms(1) by (simp add: registered_def)
  moreover have "h' p \<noteq> None \<longleftrightarrow> p \<in> set ps \<and> \<not> deletable h p" for p using cases [of p] by auto
  moreover have "\<exists>rs. sb_records b rs" if "h' p = Some b" for p b using cases [of p] that by auto
  ultimately show ?thesis by (simp add: registered_def)
qed

lemma scanned_staged:
  assumes "registered h ps" "staged ptr h" "scanned h ps h'"
  shows "staged ptr h'"
proof (rule stagedI)
  fix t q
  assume "ptr t = Some q"
  then obtain b where b: "h q = Some b" "\<not> should_deallocate b" using stagedD [OF assms(2)] by blast
  then have "\<not> deletable h q" by (simp add: deletable_def checkCanDelete_def)
  moreover have "q \<in> set ps" using registered_iff [OF assms(1)] b by blast
  moreover obtain rs where "sb_records b rs" using registered_records [OF assms(1) b(1)] by blast
  ultimately show "\<exists>b. h' q = Some b \<and> \<not> should_deallocate b"
    using scanned_kept [OF assms(3)] b by metis
qed (rule staged_inj [OF assms(2)])

text \<open>The choice: the buffer whose oldest record has the smallest stamp, the first of them on a tie.\<close>

definition oldest_choice :: "(nat \<Rightarrow> staging_buffer option) \<Rightarrow> nat list \<Rightarrow> nat \<Rightarrow> nat option \<Rightarrow> bool" where
  "oldest_choice h ps m q \<longleftrightarrow>
     (case q of
        None \<Rightarrow> m = UINT64_MAX \<and> (\<forall>p \<in> set ps. \<forall>b r rs. h p = Some b \<longrightarrow> sb_records b (r # rs) \<longrightarrow>
                  UINT64_MAX \<le> record_stamp r)
      | Some p \<Rightarrow> m < UINT64_MAX \<and> p \<in> set ps
          \<and> (\<exists>b r rs. h p = Some b \<and> sb_records b (r # rs) \<and> record_stamp r = m)
          \<and> (\<forall>p' \<in> set ps. \<forall>b r rs. h p' = Some b \<longrightarrow> sb_records b (r # rs) \<longrightarrow> m \<le> record_stamp r))"

lemma oldest_stamp_of:
  assumes "h p = Some b" "sb_records b rs"
  shows "oldest_stamp h p = (case rs of [] \<Rightarrow> None | r # _ \<Rightarrow> Some (record_stamp r))"
  using visit_buffer_records [OF assms(2)] assms(1) by (auto simp: oldest_stamp_def)

lemma io_scan_chooses:
  assumes "registered h ps"
  shows "\<exists>h' m q. io_scan ps h (UINT64_MAX, None) = Inr (filter (\<lambda>p. \<not> deletable h p) ps, h', m, q)
    \<and> scanned h ps h' \<and> oldest_choice h ps m q"
proof -
  obtain m q where f: "fold (\<lambda>p. earlier (oldest_stamp h p) p) ps (UINT64_MAX, None) = (m, q)" by fastforce
  obtain h' where h': "io_scan ps h (UINT64_MAX, None) = Inr (filter (\<lambda>p. \<not> deletable h p) ps, h', m, q)"
    "scanned h ps h'"
    using io_scan_spec [OF registered_ok [OF assms], of "(UINT64_MAX, None)"] f by auto
  note c = fold_earlier [OF f]
  have stamp: "\<exists>b r rs. h p = Some b \<and> sb_records b (r # rs) \<and> record_stamp r = ts"
    if p: "p \<in> set ps" "oldest_stamp h p = Some ts" for p ts
  proof -
    obtain b rs where b: "h p = Some b" "sb_records b rs"
      using p(1) registered_iff [OF assms] registered_records [OF assms] by metis
    from oldest_stamp_of [of h, OF b] p(2) b show ?thesis by (cases rs) auto
  qed
  have le: "m \<le> record_stamp r" if "p \<in> set ps" "h p = Some b" "sb_records b (r # rs)" for p b r rs
    using c that(1) oldest_stamp_of [of h, OF that(2,3)] by auto
  from c have "oldest_choice h ps m q"
  proof (elim conjE disjE)
    assume "m = UINT64_MAX" "q = None"
    with le show ?thesis by (auto simp: oldest_choice_def)
  next
    assume "m < UINT64_MAX" "\<exists>p \<in> set ps. q = Some p \<and> oldest_stamp h p = Some m"
    then obtain p where p: "p \<in> set ps" "q = Some p" "oldest_stamp h p = Some m" by blast
    from stamp [OF p(1,3)] p \<open>m < UINT64_MAX\<close> le show ?thesis by (auto simp: oldest_choice_def)
  qed
  with h' show ?thesis by blast
qed

subsection \<open>Scan, choice and processing together\<close>

lemma process_inv:
  assumes "backend_inv s" "processLogBuffer w now p s = Inr s'"
  shows "backend_inv s'"
proof -
  from assms(2) obtain b where b: "heap s p = Some b"
    by (cases "heap s p") (auto simp: processLogBuffer_def)
  obtain rs where rs: "sb_records b rs" using registered_records [OF backend_invD(1) [OF assms(1)] b] by blast
  obtain b' rs' where b': "heap s' = (heap s)(p \<mapsto> b')" "sb_records b' rs'"
    "should_deallocate b' = should_deallocate b" "thread_buffers s' = thread_buffers s"
    "staging_ptr s' = staging_ptr s"
    using processLogBuffer_effect [OF b rs assms(2)] by metis
  have "p \<in> set (thread_buffers s)" using registered_iff [OF backend_invD(1) [OF assms(1)]] b by blast
  then have "registered ((heap s)(p \<mapsto> b')) (thread_buffers s)"
    using backend_invD(1) [OF assms(1)] b'(2) by (intro registered_upd)
  moreover have "staged (staging_ptr s) ((heap s)(p \<mapsto> b'))"
    using backend_invD(2) [OF assms(1)] b b'(3) by (intro staged_upd) auto
  ultimately show ?thesis using b' by (simp add: backend_inv_def)
qed

text \<open>The state after the scan.\<close>

definition after_scan :: "backend \<Rightarrow> (nat \<Rightarrow> staging_buffer option) \<Rightarrow> backend" where
  "after_scan s h' =
     s\<lparr>thread_buffers := filter (\<lambda>p. \<not> deletable (heap s) p) (thread_buffers s), heap := h'\<rparr>"

lemma after_scan_inv:
  "backend_inv s \<Longrightarrow> scanned (heap s) (thread_buffers s) h' \<Longrightarrow> backend_inv (after_scan s h')"
  using scanned_registered scanned_staged by (auto simp: backend_inv_def after_scan_def)

lemma ioPoll_iteration_cases:
  assumes "backend_inv s" "\<not> is_exit s" "\<not> is_stop s \<or> thread_buffers s \<noteq> []"
  obtains
    (wait) h' m where "ioPoll_iteration w now s = Inr (Wait, (after_scan s h')\<lparr>fdflush := Waiting\<rparr>)"
      "scanned (heap s) (thread_buffers s) h'" "oldest_choice (heap s) (thread_buffers s) m None"
  | (choice) h' m p where "ioPoll_iteration w now s =
        sum_bind (processLogBuffer w now p (after_scan s h')) (\<lambda>s. Inr (Processed p, s))"
      "scanned (heap s) (thread_buffers s) h'" "oldest_choice (heap s) (thread_buffers s) m (Some p)"
proof -
  obtain h' m q where h': "io_scan (thread_buffers s) (heap s) (UINT64_MAX, None) =
      Inr (filter (\<lambda>p. \<not> deletable (heap s) p) (thread_buffers s), h', m, q)"
    "scanned (heap s) (thread_buffers s) h'" "oldest_choice (heap s) (thread_buffers s) m q"
    using io_scan_chooses [OF backend_invD(1) [OF assms(1)]] by blast
  show thesis
  proof (cases q)
    case None
    with h'(3) have "m = UINT64_MAX" by (simp add: oldest_choice_def)
    with None h' assms(2,3) that(1) [of h' m] show thesis
      by (simp add: ioPoll_iteration_def after_scan_def)
  next
    case (Some p)
    with h'(3) have "m \<noteq> UINT64_MAX" by (simp add: oldest_choice_def)
    with Some h' assms(2,3) that(2) [of p h' m] show thesis
      by (simp add: ioPoll_iteration_def after_scan_def)
  qed
qed

text \<open>The chosen buffer is not deleted: it holds a record.\<close>

lemma oldest_choice_kept:
  assumes "oldest_choice h ps m (Some p)" "scanned h ps h'"
  shows "\<not> deletable h p" "\<exists>b. h' p = Some b" "p \<in> set ps"
proof -
  from assms(1) obtain b r rs where b: "p \<in> set ps" "h p = Some b" "sb_records b (r # rs)"
    by (auto simp: oldest_choice_def)
  then show "p \<in> set ps" by simp
  show nd: "\<not> deletable h p" using checkCanDelete_empty [OF b(3)] b(2) by (auto simp: deletable_def)
  from scanned_kept [OF assms(2) b(1) nd b(2,3)] show "\<exists>b. h' p = Some b" by blast
qed

text \<open>What an iteration that processes buffer \<open>p\<close> leaves of the records of a buffer \<open>q\<close>.\<close>

definition records_after ::
  "nat \<Rightarrow> nat \<Rightarrow> (nat \<Rightarrow> staging_buffer option) \<Rightarrow> (nat \<Rightarrow> staging_buffer option) \<Rightarrow> nat \<Rightarrow> byte list list \<Rightarrow> bool" where
  "records_after now p h h' q rs \<longleftrightarrow>
     (if q = p then \<exists>b' rs'. h' q = Some b' \<and> sb_records b' rs' \<and> processed now rs rs'
      else if deletable h q then rs = [] \<and> h' q = None
      else \<exists>b'. h' q = Some b' \<and> sb_records b' rs)"

lemma scanned_records:
  assumes "registered h ps" "scanned h ps h'" "h q = Some b" "sb_records b rs"
  shows "if deletable h q then rs = [] \<and> h' q = None else \<exists>b'. h' q = Some b' \<and> sb_records b' rs"
proof -
  have q: "q \<in> set ps" using registered_iff [OF assms(1)] assms(3) by blast
  show ?thesis
    using checkCanDelete_empty [OF assms(4)] scanned_deleted [OF assms(2) q]
      scanned_kept [OF assms(2) q _ assms(3,4)] assms(3)
    by (auto simp: deletable_def)
qed

lemma processed_records:
  assumes "backend_inv s" "scanned (heap s) (thread_buffers s) h'"
    and "oldest_choice (heap s) (thread_buffers s) m (Some p)"
    and "processLogBuffer w now p (after_scan s h') = Inr s'" "heap s q = Some b" "sb_records b rs"
  shows "records_after now p (heap s) (heap s') q rs"
proof -
  note sc = scanned_records [OF backend_invD(1) [OF assms(1)] assms(2,5,6)]
  note kept = oldest_choice_kept [OF assms(3,2)]
  obtain c where c: "h' p = Some c" using kept(2) by blast
  then have hp: "heap (after_scan s h') p = Some c" by (simp add: after_scan_def)
  show ?thesis
  proof (cases "q = p")
    case True
    with sc kept(1) c have "sb_records c rs" by simp
    then obtain b' rs' where "heap s' = (heap (after_scan s h'))(p \<mapsto> b')" "sb_records b' rs'"
      "processed now rs rs'"
      using processLogBuffer_effect [OF hp _ assms(4)] by metis
    with True show ?thesis by (auto simp: records_after_def)
  next
    case False
    have "backend_inv (after_scan s h')" using assms(1,2) by (rule after_scan_inv)
    then obtain rs0 where "sb_records c rs0"
      using registered_records [OF backend_invD(1)] hp by blast
    then obtain b' where "heap s' = (heap (after_scan s h'))(p \<mapsto> b')"
      using processLogBuffer_effect [OF hp _ assms(4)] by metis
    with False sc show ?thesis by (simp add: records_after_def after_scan_def)
  qed
qed

lemma ioPoll_iteration_inv:
  assumes "backend_inv s" "ioPoll_iteration w now s = Inr (x, s')"
  shows "backend_inv s'"
proof (cases "\<not> is_exit s \<and> (\<not> is_stop s \<or> thread_buffers s \<noteq> [])")
  case True
  then have c: "\<not> is_exit s" "\<not> is_stop s \<or> thread_buffers s \<noteq> []" by auto
  from assms(1) c show ?thesis
  proof (cases rule: ioPoll_iteration_cases [where w = w and now = now])
    case (wait h' m)
    with assms after_scan_inv [OF assms(1) wait(2)] show ?thesis by (auto simp: backend_inv_def)
  next
    case (choice h' m p)
    with assms(2) have "processLogBuffer w now p (after_scan s h') = Inr s'"
      by (auto simp: sum_bind_Inr_iff)
    with process_inv [OF after_scan_inv [OF assms(1) choice(2)]] show ?thesis by blast
  qed
next
  case False
  with assms show ?thesis by (auto simp: ioPoll_iteration_def backend_inv_def split: if_splits)
qed

end
