(* ===== verification/EndToEnd.thy ===== *)
theory EndToEnd
  imports Frontend PollLoop
begin

section \<open>From the statement to the line\<close>

text \<open>
  The two halves of the program put together: the record a log statement writes, read by the worker
  through the record's pointers to the static data and to the \<^verbatim>\<open>param_size\<close> array, becomes the line in
  the log buffer and in the file.
\<close>

definition site_info :: "call_site \<Rightarrow> item list \<Rightarrow> StaticInfo" where
  "site_info site its = \<lparr>num_params = length (format_params its), param_types = format_params its,
     format = format_text its, log_level = severity site, function_name = site_function site,
     line = site_line site\<rparr>"

text \<open>
  A statement whose format and arguments the backend handles, whose static data the worker can read,
  and whose message is \<open>message\<close>.
\<close>

definition statement_ok :: "surroundings \<Rightarrow> call_site \<Rightarrow> item list \<Rightarrow> arg list \<Rightarrow> string \<Rightarrow> bool" where
  "statement_ok w site its args message \<longleftrightarrow>
     list_all item_ok its \<and> list_all plain_item its \<and> args_fit its args
     \<and> site_format site = format_text its \<and> severity site < kNUM_LOG_LEVELS
     \<and> static_info_addr site < 2 ^ 64 \<and> param_size_addr site < 2 ^ 64
     \<and> statics w (static_info_addr site) = Some (site_info site its)
     \<and> length (args_image 0 (format_params its) (- 1) args) < 2 ^ 31
     \<and> format_args (float_text (env w)) its args = Inr message
     \<and> \<not> asserts (env w) \<and> (\<forall>a k. malloc (env w) a k \<noteq> 0)"

definition line_prefix :: "tm \<Rightarrow> nat \<Rightarrow> StaticInfo \<Rightarrow> string" where
  "line_prefix t now info = time_text t (now mod 1000000000) @ call_info_text info"

text \<open>The \<^verbatim>\<open>param_size\<close> array as the statement leaves it.\<close>

definition sizes_match :: "arg list \<Rightarrow> nat list \<Rightarrow> bool" where
  "sizes_match args sizes \<longleftrightarrow> length args \<le> length sizes
     \<and> (\<forall>k < length args. \<not> is_str (args ! k) \<longrightarrow> sizes ! k = sizeof_arg (args ! k))"

lemma convertible_ok: "convertible t a \<Longrightarrow> arg_ok a"
  by (cases a) simp_all

lemma args_fit_ok: "args_fit its args \<Longrightarrow> list_all arg_ok args"
  by (induction its args rule: args_fit.induct) (auto dest: convertible_ok)

lemma statement_okD:
  assumes "statement_ok w site its args message"
  shows "static_info_of site = Inr (site_info site its)" "list_all arg_ok args"
    "length args = num_params (site_info site its)"
  using assms static_info_of_format [of its site] args_fit_ok args_fit_length [of its args]
  by (auto simp: statement_ok_def site_info_def)

text \<open>Stamping a statement's record is the record of a statement executed at that time.\<close>

lemma stamped_statement: "stamped now (statement_record site info args rdtsc) = statement_record site info args now"
  by (simp add: stamped_def statement_record_def Let_def entry_bytes_def)

lemma statement_record_parts:
  assumes "mem_read m a (length (statement_record site info args now)) = statement_record site info args now"
    and "now < 2 ^ 64" "static_info_addr site < 2 ^ 64" "param_size_addr site < 2 ^ 64"
    and "length (args_image 0 (param_types info) (- 1) args) < 2 ^ 31"
  shows "timestamp (entry_at m a) = now" "static_info (entry_at m a) = static_info_addr site"
    "param_size (entry_at m a) = param_size_addr site"
    "mem_read m (a + sizeof_LogEntry) (length (args_image 0 (param_types info) (- 1) args)) =
       args_image 0 (param_types info) (- 1) args"
proof -
  let ?img = "args_image 0 (param_types info) (- 1) args"
  let ?e = "\<lparr>timestamp = now, entry_size = sizeof_LogEntry + length ?img,
    static_info = static_info_addr site, param_size = param_size_addr site\<rparr>"
  have r: "mem_read m a sizeof_LogEntry @ mem_read m (a + sizeof_LogEntry) (length ?img) = entry_bytes ?e @ ?img"
    using assms(1) by (simp add: statement_record_def Let_def mem_read_append)
  then have e: "mem_read m a sizeof_LogEntry = entry_bytes ?e" by (simp add: append_eq_append_conv)
  have "entry_at m a = ?e"
    by (rule entry_at_entry_bytes [OF e]) (use assms(2-5) in \<open>simp_all add: sizeof_LogEntry_def\<close>)
  with r show "timestamp (entry_at m a) = now" "static_info (entry_at m a) = static_info_addr site"
    "param_size (entry_at m a) = param_size_addr site" "mem_read m (a + sizeof_LogEntry) (length ?img) = ?img"
    by (simp_all add: append_eq_append_conv)
qed

lemma format_line_statement:
  assumes ok: "statement_ok w site its args message" and info: "info = site_info site its"
    and rec: "mem_read m raw (length (statement_record site info args now)) = statement_record site info args now"
    and now: "now < 2 ^ 64" "localtime_of w (now div 1000000000) = Some t" "tm_ok t"
    and sizes: "sizes_match args (sizes_at (param_size_addr site))"
    and P: "P = length (line_prefix t now info)"
    and room: "2 * P + length message < bufflen lb" "bufflen lb < 2 ^ 31"
  shows "\<exists>lb'. format_line w sizes_at m raw lb = Inr (int (P + length message), P, lb')
    \<and> bufflen lb' = bufflen lb
    \<and> mem_read (content lb') 0 (P + length message) = line_prefix t now info @ message
    \<and> content lb' (2 * P + length message) = CHR 0x0A"
proof -
  let ?ti = "time_text t (now mod 1000000000)" and ?ci = "call_info_text info"
  let ?C = "mem_write (content lb) 0 (?ti @ ?ci)"
  have sk: "static_info_addr site < 2 ^ 64" "param_size_addr site < 2 ^ 64"
    "length (args_image 0 (param_types info) (- 1) args) < 2 ^ 31"
    using ok by (simp_all add: statement_ok_def info site_info_def)
  note parts = statement_record_parts [OF rec now(1) sk]
  note ti = generateTimePrefix_writes [of "localtime_of w", OF now(2,3), of "content lb" 0]
  have P': "P = 31 + length ?ci" using P ti by (simp add: line_prefix_def)
  have st: "statics w (static_info_addr site) = Some info" and lv: "log_level info < kNUM_LOG_LEVELS"
    using ok by (simp_all add: statement_ok_def info site_info_def)
  have C: "generateCallInfoPrefix info (mem_write (content lb) 0 ?ti) 31 = Inr (length ?ci, ?C)"
    using generateCallInfoPrefix_writes [OF lv] mem_write_append [of "content lb" 0 ?ti ?ci] ti by simp
  have fmt: "format info = format_text its" "num_params info = length (format_params its)"
    "param_types info = format_params its" by (simp_all add: info site_info_def)
  obtain lb1 where lb1: "process_fmt (env w) (format info) (num_params info) (param_types info)
      (sizes_at (param_size_addr site)) m (raw + sizeof_LogEntry) (lb\<lparr>content := ?C\<rparr>) P =
        Inr (int (P + length message), lb1)" "printed (lb\<lparr>content := ?C\<rparr>) P message lb1"
    using process_fmt_fit [of its args "env w" message "sizes_at (param_size_addr site)" m
        "raw + sizeof_LogEntry" "- 1" "lb\<lparr>content := ?C\<rparr>" P] ok sizes parts(4) room
    unfolding fmt by (auto simp: statement_ok_def sizes_match_def)
  let ?lb2 = "lb1\<lparr>content := mem_write (content lb1) (2 * P + length message) [CHR 0x0A]\<rparr>"
  have bl: "bufflen lb1 = bufflen lb" using lb1(2) by (auto simp: printed_def)
  have "nat (int P + int (P + length message)) = 2 * P + length message" by simp
  then have nl: "lb_write lb1 (nat (int P + int (P + length message))) [CHR 0x0A] = Inr ?lb2"
    using room(1) bl by (simp add: lb_write_def)
  have eq: "format_line w sizes_at m raw lb = Inr (int (P + length message), P, ?lb2)"
    using ti C lb1(1) nl st parts(1-3) P' room(1) unfolding format_line_def Let_def by simp
  have rd: "mem_read (content lb1) 0 (P + length message) = line_prefix t now info @ message"
  proof -
    have "mem_read (content lb1) 0 P = mem_read ?C 0 P"
      using lb1(2) by (intro mem_read_cong) (auto simp: printed_def)
    also have "\<dots> = line_prefix t now info"
      using mem_read_write_same [of "content lb" 0 "?ti @ ?ci"] P by (simp add: line_prefix_def)
    finally have "mem_read (content lb1) 0 P = line_prefix t now info" .
    moreover have "mem_read (content lb1) P (length message) = message"
      using lb1(2) by (auto simp: printed_def)
    ultimately show ?thesis by (simp add: mem_read_append)
  qed
  have "0 < P" using P' by simp
  then have "mem_read (content ?lb2) 0 (P + length message) = line_prefix t now info @ message"
    using rd by (simp add: mem_simps)
  moreover have "content ?lb2 (2 * P + length message) = CHR 0x0A"
    by (simp add: mem_write_single)
  ultimately show ?thesis using eq bl by (intro exI [of _ ?lb2]) simp
qed

text \<open>
  A record of a statement at the front of a buffer is consumed and its line is written; the gap is what
  the log buffer held between the end of the message and the newline.
\<close>

lemma processLogBuffer_statement:
  assumes ok: "statement_ok w site its args message" and info: "info = site_info site its"
    and b: "heap s p = Some b" "sb_records b (statement_record site info args stamp # rs)"
    and now: "now < 2 ^ 64" "localtime_of w (now div 1000000000) = Some t" "tm_ok t"
    and sizes: "sizes_match args (map unat (param_sizes s (param_size_addr site)))"
    and P: "P = length (line_prefix t now info)"
    and room: "2 * P + length message < bufflen (log_buf s)" "bufflen (log_buf s) < 2 ^ 31"
    and out: "outfd s \<noteq> None"
  shows "\<exists>lb' b' gap. processLogBuffer w now p s =
      Inr ((write_log (line_prefix t now info @ message @ gap @ [CHR 0x0A]) (s\<lparr>log_buf := lb'\<rparr>))
             \<lparr>heap := (heap s)(p \<mapsto> b')\<rparr>)
    \<and> sb_records b' rs \<and> should_deallocate b' = should_deallocate b
    \<and> length gap = P \<and> bufflen lb' = bufflen (log_buf s)"
proof -
  let ?r = "statement_record site info args"
  obtain raw b2 where b2: "sb_records (consume (length (?r stamp)) b2) rs"
    "mem_read (storage b2) raw (length (?r stamp)) = stamped now (?r stamp)"
    "should_deallocate b2 = should_deallocate b"
    and eq: "processLogBuffer w now p s =
       sum_bind (format_line w (\<lambda>a. map unat (param_sizes s a)) (storage b2) raw (log_buf s))
         (\<lambda>(len, prefix_len, lb).
            if len \<noteq> - 1 \<and> outfd s \<noteq> None
            then Inr ((write_log (mem_read (content lb) 0 (nat (int prefix_len + len + 1))) (s\<lparr>log_buf := lb\<rparr>))
                        \<lparr>heap := (heap s)(p \<mapsto> consume (length (?r stamp)) b2)\<rparr>)
            else Inr (s\<lparr>log_buf := lb, heap := (heap s)(p \<mapsto> b2)\<rparr>))"
    by (rule processLogBuffer_record [OF b, where now = now and w = w]) blast
  have "length (?r stamp) = length (?r now)" by (simp add: length_statement_record)
  with b2(2) have rec: "mem_read (storage b2) raw (length (?r now)) = ?r now"
    by (simp add: stamped_statement)
  obtain lb' where lb': "format_line w (\<lambda>a. map unat (param_sizes s a)) (storage b2) raw (log_buf s) =
      Inr (int (P + length message), P, lb')" "bufflen lb' = bufflen (log_buf s)"
    "mem_read (content lb') 0 (P + length message) = line_prefix t now info @ message"
    "content lb' (2 * P + length message) = CHR 0x0A"
    using format_line_statement [OF ok info rec now, of "\<lambda>a. map unat (param_sizes s a)" P "log_buf s"]
      sizes P room by auto
  let ?gap = "mem_read (content lb') (P + length message) P"
  have "nat (int P + int (P + length message) + 1) = (P + length message) + (P + 1)" by simp
  then have "mem_read (content lb') 0 (nat (int P + int (P + length message) + 1)) =
      mem_read (content lb') 0 (P + length message) @ mem_read (content lb') (P + length message) (P + 1)"
    by (simp only: mem_read_append add_0)
  moreover have "mem_read (content lb') (P + length message) (P + 1) = ?gap @ [CHR 0x0A]"
  proof -
    have "P + length message + P = 2 * P + length message" by simp
    then have "mem_read (content lb') (P + length message + P) 1 = [CHR 0x0A]"
      using lb'(4) by (simp only:) (simp add: mem_read_def)
    then show ?thesis by (simp only: mem_read_append)
  qed
  ultimately have ln: "mem_read (content lb') 0 (nat (int P + int (P + length message) + 1)) =
      line_prefix t now info @ message @ ?gap @ [CHR 0x0A]"
    using lb'(3) by simp
  have "int (P + length message) \<noteq> - 1" by simp
  with eq lb'(1) out ln have "processLogBuffer w now p s =
      Inr ((write_log (line_prefix t now info @ message @ ?gap @ [CHR 0x0A]) (s\<lparr>log_buf := lb'\<rparr>))
             \<lparr>heap := (heap s)(p \<mapsto> consume (length (?r stamp)) b2)\<rparr>)"
    by simp
  with b2 lb'(2) show ?thesis
    by (intro exI [of _ lb'] exI [of _ "consume (length (?r stamp)) b2"] exI [of _ ?gap])
       (simp add: consume_def)
qed

subsection \<open>What a statement leaves alone\<close>

definition same_output :: "backend \<Rightarrow> backend \<Rightarrow> bool" where
  "same_output s s' \<longleftrightarrow> outfd s' = outfd s \<and> files s' = files s \<and> log_buf s' = log_buf s
     \<and> is_stop s' = is_stop s \<and> is_exit s' = is_exit s
     \<and> current_log_level s' = current_log_level s \<and> fdflush_joinable s' = fdflush_joinable s
     \<and> fdflush s' = fdflush s"

text \<open>The staging buffers other than that of thread \<open>t\<close>, which gets the buffer \<open>p\<close> if it has none.\<close>

definition others_same :: "nat \<Rightarrow> nat \<Rightarrow> backend \<Rightarrow> backend \<Rightarrow> bool" where
  "others_same t p s s' \<longleftrightarrow>
     staging_ptr s' = (if staging_ptr s t = None then (staging_ptr s)(t \<mapsto> p) else staging_ptr s)
     \<and> (\<forall>q. staging_ptr s' t \<noteq> Some q \<longrightarrow> heap s' q = heap s q)"

lemma others_same_ptr: "others_same t p s s' \<Longrightarrow> \<exists>q. staging_ptr s' t = Some q"
  by (auto simp: others_same_def)

lemma others_same_trans:
  assumes "others_same t p s s1" "others_same t p s1 s2"
  shows "others_same t p s s2"
  using assms others_same_ptr [OF assms(1)] by (auto simp: others_same_def)

lemma same_output_trans: "same_output s s1 \<Longrightarrow> same_output s1 s2 \<Longrightarrow> same_output s s2"
  by (simp add: same_output_def)

lemma ensure_frame:
  "same_output s (ensureStagingBufferAllocated t p s)"
  "others_same t p s (ensureStagingBufferAllocated t p s)"
  "param_sizes (ensureStagingBufferAllocated t p s) = param_sizes s"
  by (auto simp: ensureStagingBufferAllocated_def Let_def same_output_def others_same_def)

lemma heap_upd_frame:
  assumes "staging_ptr s t = Some q"
  shows "same_output s (s\<lparr>heap := (heap s)(q \<mapsto> b)\<rparr>)" "others_same t p s (s\<lparr>heap := (heap s)(q \<mapsto> b)\<rparr>)"
  using assms by (auto simp: same_output_def others_same_def)

lemma reserveAlloc_frame:
  assumes "reserveAlloc t p n k s = Inr (x, s')"
  shows "same_output s s'" "others_same t p s s'" "param_sizes s' = param_sizes s"
proof -
  let ?s = "ensureStagingBufferAllocated t p s"
  have "(if staging_ptr s t = None then ?s else s) = ?s"
    by (simp add: ensureStagingBufferAllocated_def)
  with assms obtain q b' where q: "staging_ptr ?s t = Some q" and s': "s' = ?s\<lparr>heap := (heap ?s)(q \<mapsto> b')\<rparr>"
    unfolding reserveAlloc_def by (simp only: Let_def) (auto split: option.splits prod.splits)
  note f = ensure_frame [where s = s and t = t and p = p] and u = heap_upd_frame [OF q]
  show "same_output s s'" unfolding s' by (rule same_output_trans [OF f(1) u(1)])
  show "others_same t p s s'" unfolding s' by (rule others_same_trans [OF f(2) u(2)])
  show "param_sizes s' = param_sizes s" using f(3) by (simp add: s')
qed

lemma finishAlloc_frame:
  assumes "finishAlloc t n s = Inr s'"
  shows "same_output s s'" "others_same t p s s'" "param_sizes s' = param_sizes s"
proof -
  from assms obtain q b' where q: "staging_ptr s t = Some q" and s': "s' = s\<lparr>heap := (heap s)(q \<mapsto> b')\<rparr>"
    by (auto simp: finishAlloc_def split: option.splits sum.splits)
  show "same_output s s'" "others_same t p s s'" "param_sizes s' = param_sizes s"
    using heap_upd_frame [OF q] by (simp_all add: s')
qed

lemma STATIC_LOG_frame:
  assumes "STATIC_LOG t p reads rdtsc site args s = Inr (x, s')" "static_info_of site = Inr info"
    and "\<not> getLogLevel s < severity site" "list_all arg_ok args" "length args \<le> num_params info"
    and "length (param_size_array site (num_params info) s) = num_params info + 1"
  obtains sizes where "same_output s s'" "others_same t p s s'"
    "param_sizes s' = (param_sizes s)(param_size_addr site := sizes)"
    "length sizes = num_params info + 1" "sizes_match args (map unat sizes)" "x \<noteq> Dropped"
proof -
  have len: "length (param_types info) = num_params info"
    using assms(2) by (rule static_info_of_Inr) simp
  obtain tot pp sizes where g: "getArgSizes 0 (param_types info) (- 1)
      (param_size_array site (num_params info) s) args = Inr (tot, pp, sizes)"
    and sz: "size_arguments site info args s = Inr (tot + of_nat sizeof_LogEntry,
       s\<lparr>param_sizes := (param_sizes s)(param_size_addr site := sizes)\<rparr>)"
    using size_arguments_Inr [of args info site s] assms(5,6) len by auto
  let ?a = "tot + of_nat sizeof_LogEntry" and ?s = "s\<lparr>param_sizes := (param_sizes s)(param_size_addr site := sizes)\<rparr>"
  obtain y s1 where r: "reserveAlloc t p (unat ?a) reads ?s = Inr (y, s1)"
    using assms(1-3) sz by (auto simp: STATIC_LOG_def sum_bind_Inr_iff lift_error_Inr_iff)
  have z: "same_output s ?s" "others_same t p ?s s1 \<Longrightarrow> others_same t p s s1"
    by (simp_all add: same_output_def others_same_def)
  note rf = reserveAlloc_frame [OF r]
  obtain a where a: "staging_ptr s1 t = Some a" using others_same_ptr [OF rf(2)] by blast
  have "same_output s1 s' \<and> others_same t p s1 s' \<and> param_sizes s' = param_sizes s1 \<and> x \<noteq> Dropped"
  proof (cases y)
    case (Reserved a)
    with assms(1-3) sz r obtain q b m where q: "staging_ptr s1 t = Some q" and
      f: "finishAlloc t (unat ?a) (s1\<lparr>heap := (heap s1)(q \<mapsto> b\<lparr>storage := m\<rparr>)\<rparr>) = Inr s'" and x: "x = Logged"
      by (auto simp: STATIC_LOG_def sum_bind_Inr_iff lift_error_Inr_iff split: option.splits Option.bind_splits)
    note u = heap_upd_frame [OF q, where b = "b\<lparr>storage := m\<rparr>"] and ff = finishAlloc_frame [OF f]
    show ?thesis
      using same_output_trans [OF u(1) ff(1)] others_same_trans [OF u(2) ff(2)] ff(3) x by simp
  qed (use assms(1-3) sz r a in \<open>auto simp: STATIC_LOG_def same_output_def others_same_def\<close>)
  moreover have "length sizes = num_params info + 1"
    using getArgSizes_frame [OF g] assms(6) by simp
  moreover have "unat (sizes ! k) = sizeof_arg (args ! k)" if "k < length args" "\<not> is_str (args ! k)" for k
    using getArgSizes_values [OF assms(4) g that] sizeof_arg_bounds(2) [of "args ! k"]
    by (simp add: unat_of_nat_64)
  ultimately show thesis
    using that [of sizes] rf z assms(5) same_output_trans others_same_trans
    by (simp add: sizes_match_def)
qed

text \<open>The first statement of a thread never waits, unless its record is as large as the buffer.\<close>

lemma reserveAlloc_fresh:
  assumes "staging_ptr s t = None" "n < kSTAGING_BUFFER_SIZE"
  obtains q s' where "reserveAlloc t p n k s = Inr (Reserved q, s')"
  using assms
  by (simp add: reserveAlloc_def ensureStagingBufferAllocated_def Let_def reserveProducerSpace_def
      new_StagingBuffer_def)

lemma first_statement_logged:
  assumes "static_info_of site = Inr info" "\<not> getLogLevel s < severity site"
    and "list_all arg_ok args" "length args \<le> num_params info"
    and "sizeof_LogEntry + length (args_image 0 (param_types info) (- 1) args) < kSTAGING_BUFFER_SIZE"
    and "length (param_size_array site (num_params info) s) = num_params info + 1"
    and "staging_ptr s t = None"
  shows "\<exists>s'. STATIC_LOG t p reads rdtsc site args s = Inr (Logged, s')
    \<and> thread_records s' t [statement_record site info args rdtsc]
    \<and> (backend_inv s \<longrightarrow> heap s p = None \<longrightarrow> backend_inv s')"
proof -
  let ?img = "args_image 0 (param_types info) (- 1) args"
  have img: "length ?img < 2 ^ 31" using assms(5) by (simp add: kSTAGING_BUFFER_SIZE_def)
  have rec: "thread_records s t []" using assms(7) by (simp add: thread_records_def)
  obtain x s' where s': "STATIC_LOG t p reads rdtsc site args s = Inr (x, s')"
    "x = Logged \<and> thread_records s' t ([] @ [statement_record site info args rdtsc]) \<or> x = Blocked"
    "backend_inv s \<longrightarrow> heap s p = None \<longrightarrow> backend_inv s'"
    using STATIC_LOG_effect [OF assms(1-4) img assms(6) rec, of p reads rdtsc] by (elim exE conjE disjE) auto
  have "x \<noteq> Blocked"
  proof
    assume x: "x = Blocked"
    have len: "length (param_types info) = num_params info"
      using assms(1) by (rule static_info_of_Inr) simp
    obtain tot pp sizes where g: "getArgSizes 0 (param_types info) (- 1)
        (param_size_array site (num_params info) s) args = Inr (tot, pp, sizes)"
      and sz: "size_arguments site info args s = Inr (tot + of_nat sizeof_LogEntry,
         s\<lparr>param_sizes := (param_sizes s)(param_size_addr site := sizes)\<rparr>)"
      using size_arguments_Inr [of args info site s] assms(4,6) len by auto
    let ?a = "tot + of_nat sizeof_LogEntry" and ?s = "s\<lparr>param_sizes := (param_sizes s)(param_size_addr site := sizes)\<rparr>"
    have "unat ?a < kSTAGING_BUFFER_SIZE"
      using write_record_image(1) [OF assms(3) g img refl, of site] assms(5)
      by (simp add: length_statement_record)
    then obtain q s1 where "reserveAlloc t p (unat ?a) reads ?s = Inr (Reserved q, s1)"
      using reserveAlloc_fresh [of ?s t "unat ?a" p reads] assms(7) by auto
    with s'(1) x assms(1,2) sz show False
      by (auto simp: STATIC_LOG_def sum_bind_Inr_iff lift_error_Inr_iff split: option.splits)
  qed
  with s' show ?thesis by auto
qed

text \<open>
  One iteration of the poll loop when the statement's record is the only one: it is chosen whatever
  its stamp, and every buffer is empty afterwards.
\<close>

lemma only_record_chosen:
  assumes inv: "backend_inv s" and run: "\<not> is_exit s"
    and q: "heap s q = Some b" "sb_records b [r]" "record_stamp r < UINT64_MAX"
    and others: "\<And>q' b'. q' \<noteq> q \<Longrightarrow> heap s q' = Some b' \<Longrightarrow> sb_records b' []"
  obtains h' b' where "ioPoll_iteration w now s =
      sum_bind (processLogBuffer w now q (after_scan s h')) (\<lambda>s. Inr (Processed q, s))"
    "scanned (heap s) (thread_buffers s) h'" "h' q = Some b'" "sb_records b' [r]"
    "\<forall>q' b'. q' \<noteq> q \<longrightarrow> h' q' = Some b' \<longrightarrow> sb_records b' []"
proof -
  note result = that
  note reg = backend_invD(1) [OF inv]
  have qs: "q \<in> set (thread_buffers s)" using registered_iff [OF reg] q(1) by blast
  then have ne: "\<not> is_stop s \<or> thread_buffers s \<noteq> []" by auto
  have fin: thesis
    if sc: "scanned (heap s) (thread_buffers s) h'" and it: "ioPoll_iteration w now s =
      sum_bind (processLogBuffer w now q (after_scan s h')) (\<lambda>s. Inr (Processed q, s))" for h'
  proof -
    obtain b' where b': "h' q = Some b'" "sb_records b' [r]"
      using scanned_records [OF reg sc q(1,2)] by (auto split: if_splits)
    have "sb_records c []" if h: "q' \<noteq> q" "h' q' = Some c" for q' c
    proof -
      have "heap s q' \<noteq> None"
      proof
        assume n: "heap s q' = None"
        then have "q' \<notin> set (thread_buffers s)" using registered_iff [OF reg, of q'] by simp
        with scanned_other [OF sc] n h(2) show False by simp
      qed
      then obtain a where a: "heap s q' = Some a" by blast
      from scanned_records [OF reg sc a others [OF h(1) a]] h(2) show ?thesis by (auto split: if_splits)
    qed
    with result [OF it sc b'] show thesis by blast
  qed
  from inv run ne show thesis
  proof (cases rule: ioPoll_iteration_cases [where w = w and now = now])
    case (wait h' m)
    from wait(3) qs q(1,2) have "UINT64_MAX \<le> record_stamp r"
      unfolding oldest_choice_def by (simp add: Ball_def) blast
    with q(3) show thesis by simp
  next
    case (choice h' m p)
    from choice(3) obtain c r' rs where c: "heap s p = Some c" "sb_records c (r' # rs)"
      by (auto simp: oldest_choice_def)
    have "p = q"
    proof (rule ccontr)
      assume "p \<noteq> q"
      from others [OF this c(1)] c(2) have e: "sb_holds c []" "sb_holds c (r' # rs)" "framed r'"
        by (auto simp: sb_records_def)
      from sb_holds_pending [OF e(1)] sb_holds_pending [OF e(2)] framed_not_Nil [OF e(3)] show False by simp
    qed
    with choice fin show thesis by blast
  qed
qed

subsection \<open>The line in the file\<close>

lemma record_stamp_statement:
  "rdtsc < UINT64_MAX \<Longrightarrow> record_stamp (statement_record site info args rdtsc) = rdtsc"
  by (simp add: record_stamp_def statement_record_def Let_def entry_bytes_def UINT64_MAX_def)

lemma logged_line:
  assumes inv: "backend_inv s" "heap s p = None" and run: "\<not> is_exit s"
    and empty: "thread_records s t []" "\<And>q b. heap s q = Some b \<Longrightarrow> sb_records b []"
    and ok: "statement_ok w site its args message" and info: "info = site_info site its"
    and arr: "length (param_size_array site (num_params info) s) = num_params info + 1"
    and log: "STATIC_LOG t p reads rdtsc site args s = Inr (Logged, s1)" and ts: "rdtsc < UINT64_MAX"
    and now: "now < 2 ^ 64" "localtime_of w (now div 1000000000) = Some tm" "tm_ok tm"
    and P: "P = length (line_prefix tm now info)"
    and room: "2 * P + length message < bufflen (log_buf s)" "bufflen (log_buf s) < 2 ^ 31"
    and out: "outfd s = Some (f, off)" "files s f = Some c"
  shows "\<exists>gap s2 q. ioPoll_iteration w now s1 = Inr (Processed q, s2) \<and> length gap = P
    \<and> files s2 f = Some (overwrite c off (line_prefix tm now info @ message @ gap @ [CHR 0x0A]))
    \<and> backend_inv s2 \<and> (\<forall>q b. heap s2 q = Some b \<longrightarrow> sb_records b [])"
proof -
  let ?r = "statement_record site info args rdtsc"
  note si = statement_okD [OF ok, folded info]
  have img: "length (args_image 0 (param_types info) (- 1) args) < 2 ^ 31"
    using ok by (simp add: statement_ok_def info site_info_def)
  have lev: "\<not> getLogLevel s < severity site" using log si(1) by (auto simp: STATIC_LOG_def)
  have args: "length args \<le> num_params info" using si(3) by simp
  have eff: "thread_records s1 t [?r]" "backend_inv s1"
    using STATIC_LOG_effect [OF si(1) lev si(2) args img arr empty(1), of p reads rdtsc] log inv by auto
  obtain sizes where fr: "same_output s s1" "others_same t p s s1" "param_sizes s1 (param_size_addr site) = sizes"
    "sizes_match args (map unat sizes)"
    by (rule STATIC_LOG_frame [OF log si(1) lev si(2) args arr]) simp
  obtain q where q: "staging_ptr s1 t = Some q" "\<And>q'. q' \<noteq> q \<Longrightarrow> heap s1 q' = heap s q'"
    using others_same_ptr [OF fr(2)] fr(2) by (auto simp: others_same_def)
  obtain b where b: "heap s1 q = Some b" "sb_records b [?r]"
    using eff(1) q(1) by (auto simp: thread_records_def split: option.splits)
  have stamp: "record_stamp ?r < UINT64_MAX" using ts by (simp add: record_stamp_statement)
  have run1: "\<not> is_exit s1" using run fr(1) by (simp add: same_output_def)
  have others: "sb_records b' []" if "q' \<noteq> q" "heap s1 q' = Some b'" for q' b'
    using that q(2) empty(2) by simp
  obtain h' b' where it: "ioPoll_iteration w now s1 =
      sum_bind (processLogBuffer w now q (after_scan s1 h')) (\<lambda>s. Inr (Processed q, s))"
    and sc: "scanned (heap s1) (thread_buffers s1) h'" and b': "h' q = Some b'" "sb_records b' [?r]"
    and others': "\<forall>q' b'. q' \<noteq> q \<longrightarrow> h' q' = Some b' \<longrightarrow> sb_records b' []"
    by (rule only_record_chosen [OF eff(2) run1 b stamp others, where w = w and now = now]) blast+
  have same: "heap (after_scan s1 h') q = Some b'" "log_buf (after_scan s1 h') = log_buf s"
    "outfd (after_scan s1 h') = Some (f, off)" "files (after_scan s1 h') f = Some c"
    "param_sizes (after_scan s1 h') = param_sizes s1"
    using b'(1) fr(1) out by (simp_all add: after_scan_def same_output_def)
  obtain lb' b2 gap where pr: "processLogBuffer w now q (after_scan s1 h') =
      Inr ((write_log (line_prefix tm now info @ message @ gap @ [CHR 0x0A]) ((after_scan s1 h')\<lparr>log_buf := lb'\<rparr>))
             \<lparr>heap := (heap (after_scan s1 h'))(q \<mapsto> b2)\<rparr>)" (is "_ = Inr ?s2")
    "sb_records b2 []" "length gap = P"
    using processLogBuffer_statement [OF ok info same(1) b'(2) now, of P] fr(3,4) P room same by auto
  have "backend_inv ?s2"
    using process_inv [OF after_scan_inv [OF eff(2) sc] pr(1)] .
  moreover have "files ?s2 f = Some (overwrite c off (line_prefix tm now info @ message @ gap @ [CHR 0x0A]))"
    using same(3,4) by (simp add: write_log_def)
  moreover have "\<forall>q' b. heap ?s2 q' = Some b \<longrightarrow> sb_records b []"
    using pr(2) others' by (auto simp: after_scan_def)
  ultimately show ?thesis using it pr(1,3) by (intro exI [of _ gap] exI [of _ ?s2] exI [of _ q]) simp
qed

subsection \<open>Properties\<close>


definition sample_surroundings :: surroundings where
  "sample_surroundings = \<lparr>env = sample_env, localtime_of = (\<lambda>_. Some sample_tm),
     statics = [static_info_addr sample_site \<mapsto> sample_info]\<rparr>"

lemma sample_statement_ok:
  "statement_ok sample_surroundings sample_site [Specifier [] (WDigits []) PNone [] CHR ''s''] [AStr 0 ''hi''] ''hi''"
proof -
  have "format_args (float_text sample_env) [Specifier [] (WDigits []) PNone [] CHR ''s''] [AStr 0 ''hi''] = Inr ''hi''"
    by code_simp
  then show ?thesis
    by (simp add: statement_ok_def sample_surroundings_def sample_site_def sample_info_def site_info_def
        char_class_defs log_level_defs param_order stored_length_def sample_env_def)
qed

lemma sample_site_info: "site_info sample_site [Specifier [] (WDigits []) PNone [] CHR ''s''] = sample_info"
  by (simp add: site_info_def sample_site_def sample_info_def)

lemma sample_backend_inv: "backend_inv sample_backend"
  by (simp add: backend_inv_def registered_def staged_def sample_backend_def)


end
