(* ===== verification/LogSystem.thy ===== *)
theory LogSystem
  imports EndToEnd
begin

section \<open>The logger as a transition system\<close>

text \<open>
  The operations of the public interface, the end of a thread and the iterations of the poll loop as
  steps on the backend state, in any order; each step is one of the functions of \<open>Backend\<close>, \<open>Frontend\<close>
  and \<open>Worker\<close>. The specification is a set of queues, one for each thread that has logged: a step of
  the logger is a step of the queues.
\<close>

datatype event =
    Log nat call_site "arg list" nat \<comment> \<open>thread, statement, arguments and cycle counter\<close>
  | Preallocate nat
  | Exit nat
  | SetLevel log_level
  | Sync
  | SetFile string
  | Poll nat \<comment> \<open>the clock\<close>

text \<open>Arguments a statement can be executed with.\<close>

definition statement_args :: "call_site \<Rightarrow> arg list \<Rightarrow> bool" where
  "statement_args site args \<longleftrightarrow>
     (case static_info_of site of
        Inl _ \<Rightarrow> False
      | Inr info \<Rightarrow> list_all arg_ok args \<and> length args \<le> num_params info
          \<and> length (args_image 0 (param_types info) (- 1) args) < 2 ^ 31)"

inductive backend_step ::
  "call_site set \<Rightarrow> surroundings \<Rightarrow> (string \<Rightarrow> bool) \<Rightarrow> backend \<Rightarrow> event \<Rightarrow> backend \<Rightarrow> bool"
  for sites w can_open where
  step_log: "site \<in> sites \<Longrightarrow> statement_args site args \<Longrightarrow> heap s p = None \<Longrightarrow>
     STATIC_LOG t p reads rdtsc site args s = Inr (x, s') \<Longrightarrow>
     backend_step sites w can_open s (Log t site args rdtsc) s'"
| step_preallocate: "heap s p = None \<Longrightarrow> backend_step sites w can_open s (Preallocate t) (preallocate t p s)"
| step_exit: "backend_step sites w can_open s (Exit t) (thread_exit t s)"
| step_level: "backend_step sites w can_open s (SetLevel l) (setLogLevel l s)"
| step_sync: "backend_step sites w can_open s Sync (sync s)"
| step_file: "setLogFile can_open f s = Inr s' \<Longrightarrow> backend_step sites w can_open s (SetFile f) s'"
| step_poll: "fdflush_joinable s \<Longrightarrow> fdflush s \<noteq> Finished \<Longrightarrow>
     ioPoll_iteration w now (s\<lparr>fdflush := Running\<rparr>) = Inr (x, s') \<Longrightarrow>
     backend_step sites w can_open s (Poll now) s'"

inductive_cases backend_stepE: "backend_step sites w can_open s e s'"

inductive_simps backend_step_simps:
  "backend_step sites w can_open s (Preallocate t) s'"
  "backend_step sites w can_open s (Exit t) s'"
  "backend_step sites w can_open s (SetLevel l) s'"
  "backend_step sites w can_open s Sync s'"
  "backend_step sites w can_open s (SetFile f) s'"

text \<open>A run over a list of events.\<close>

inductive run :: "('s \<Rightarrow> 'e \<Rightarrow> 's \<Rightarrow> bool) \<Rightarrow> 's \<Rightarrow> 'e list \<Rightarrow> 's \<Rightarrow> bool" for step where
  run_Nil: "run step s [] s"
| run_Cons: "step s e s' \<Longrightarrow> run step s' es s'' \<Longrightarrow> run step s (e # es) s''"

inductive reachable ::
  "call_site set \<Rightarrow> surroundings \<Rightarrow> (string \<Rightarrow> bool) \<Rightarrow> backend \<Rightarrow> bool"
  for sites w can_open where
  reach_start: "heap s = (\<lambda>_. None) \<Longrightarrow> staging_ptr s = (\<lambda>_. None) \<Longrightarrow> param_sizes s = (\<lambda>_. []) \<Longrightarrow>
     StaticLogBackend can_open buffer s = Inr s' \<Longrightarrow> reachable sites w can_open s'"
| reach_step: "reachable sites w can_open s \<Longrightarrow> backend_step sites w can_open s e s' \<Longrightarrow>
     reachable sites w can_open s'"

subsection \<open>Invariants\<close>

text \<open>The \<^verbatim>\<open>param_size\<close> array of every statement has its declared size.\<close>

definition arrays_ok :: "call_site set \<Rightarrow> backend \<Rightarrow> bool" where
  "arrays_ok sites s \<longleftrightarrow> (\<forall>site \<in> sites. \<forall>info. static_info_of site = Inr info \<longrightarrow>
     length (param_size_array site (num_params info) s) = num_params info + 1)"

text \<open>
  The members hold values of their types' ranges: the level is an enumerator, the log buffer has the
  size allocated, the open file exists, and the worker runs exactly if there is one.
\<close>

definition well_typed :: "backend \<Rightarrow> bool" where
  "well_typed s \<longleftrightarrow> current_log_level s < kNUM_LOG_LEVELS
     \<and> (fdflush_joinable s \<longleftrightarrow> outfd s \<noteq> None)
     \<and> (\<forall>f off. outfd s = Some (f, off) \<longrightarrow> files s f \<noteq> None)
     \<and> \<not> is_exit s"

definition system_inv :: "call_site set \<Rightarrow> backend \<Rightarrow> bool" where
  "system_inv sites s \<longleftrightarrow> backend_inv s \<and> arrays_ok sites s \<and> well_typed s"

lemma system_invD:
  "system_inv sites s \<Longrightarrow> backend_inv s" "system_inv sites s \<Longrightarrow> arrays_ok sites s"
  "system_inv sites s \<Longrightarrow> well_typed s"
  by (simp_all add: system_inv_def)

lemma arrays_ok_cong: "param_sizes s' = param_sizes s \<Longrightarrow> arrays_ok sites s' = arrays_ok sites s"
  by (simp add: arrays_ok_def param_size_array_def)

lemma arrays_okD:
  "arrays_ok sites s \<Longrightarrow> site \<in> sites \<Longrightarrow> static_info_of site = Inr info \<Longrightarrow>
     length (param_size_array site (num_params info) s) = num_params info + 1"
  by (simp add: arrays_ok_def)

lemma arrays_ok_upd:
  assumes "arrays_ok sites s" "inj_on param_size_addr sites" "site \<in> sites" "static_info_of site = Inr info"
    and "param_sizes s' = (param_sizes s)(param_size_addr site := sizes)" "length sizes = num_params info + 1"
  shows "arrays_ok sites s'"
  unfolding arrays_ok_def
proof (intro ballI allI impI)
  fix site' info'
  assume s': "site' \<in> sites" "static_info_of site' = Inr info'"
  show "length (param_size_array site' (num_params info') s') = num_params info' + 1"
  proof (cases "site' = site")
    case True
    with s' assms(4-6) show ?thesis by (auto simp: param_size_array_def)
  next
    case False
    then have "param_size_addr site' \<noteq> param_size_addr site"
      using assms(2,3) s'(1) by (auto dest: inj_onD)
    then have "param_size_array site' n s' = param_size_array site' n s" for n
      using assms(5) by (simp add: param_size_array_def)
    with arrays_okD [OF assms(1) s'] show ?thesis by simp
  qed
qed

lemma statement_argsE:
  assumes "statement_args site args"
  obtains info where "static_info_of site = Inr info" "list_all arg_ok args" "length args \<le> num_params info"
    "length (args_image 0 (param_types info) (- 1) args) < 2 ^ 31"
  using assms by (auto simp: statement_args_def split: sum.splits)

text \<open>Every operation keeps the invariants.\<close>

lemma well_typed_same_output: "well_typed s \<Longrightarrow> same_output s s' \<Longrightarrow> well_typed s'"
  by (simp add: well_typed_def same_output_def)

lemma log_system_inv:
  assumes inv: "system_inv sites s" and inj: "inj_on param_size_addr sites" and site: "site \<in> sites"
    and args: "statement_args site args" and p: "heap s p = None"
    and log: "STATIC_LOG t p reads rdtsc site args s = Inr (x, s')"
  shows "system_inv sites s'"
proof -
  from args obtain info where i: "static_info_of site = Inr info" "list_all arg_ok args"
    "length args \<le> num_params info" "length (args_image 0 (param_types info) (- 1) args) < 2 ^ 31"
    by (rule statement_argsE)
  note I = system_invD [OF inv]
  note arr = arrays_okD [OF I(2) site i(1)]
  show ?thesis
  proof (cases "getLogLevel s < severity site")
    case True
    with log i(1) inv show ?thesis by (simp add: STATIC_LOG_def)
  next
    case False
    obtain rs where "thread_records s t rs" using I(1) by (rule thread_records_ex)
    from STATIC_LOG_effect [OF i(1) False i(2-4) arr this, of p reads rdtsc] log I(1) p
    have "backend_inv s'" by auto
    moreover obtain sizes where "same_output s s'" "length sizes = num_params info + 1"
      "param_sizes s' = (param_sizes s)(param_size_addr site := sizes)"
      by (rule STATIC_LOG_frame [OF log i(1) False i(2,3) arr])
    ultimately show ?thesis
      using arrays_ok_upd [OF I(2) inj site i(1)] well_typed_same_output [OF I(3)]
      by (simp add: system_inv_def)
  qed
qed

lemma preallocate_system_inv:
  assumes "system_inv sites s" "heap s p = None"
  shows "system_inv sites (preallocate t p s)"
  using system_invD [OF assms(1)] ensure_inv [OF _ assms(2)] ensure_frame(1,3) [where s = s and t = t and p = p]
    well_typed_same_output arrays_ok_cong [of "ensureStagingBufferAllocated t p s" s]
  by (simp add: system_inv_def preallocate_def)

lemma exit_system_inv: "system_inv sites s \<Longrightarrow> system_inv sites (thread_exit t s)"
  using thread_exit_inv [of s t] arrays_ok_cong [of "thread_exit t s" s sites]
  by (cases "staging_ptr s t") (simp_all add: system_inv_def well_typed_def thread_exit_def)

lemma setLogLevel_range: "current_log_level (setLogLevel l s) < kNUM_LOG_LEVELS"
proof -
  have "(4 :: 32 word) < 5" by simp
  then show ?thesis by (auto simp: setLogLevel_def Let_def kNUM_LOG_LEVELS_def not_le)
qed

lemma setLogLevel_system_inv: "system_inv sites s \<Longrightarrow> system_inv sites (setLogLevel l s)"
  using setLogLevel_range [of l s] arrays_ok_cong [of "setLogLevel l s" s sites]
  by (simp add: system_inv_def well_typed_def backend_inv_def) (simp add: setLogLevel_def Let_def)

lemma sync_system_inv: "system_inv sites s \<Longrightarrow> system_inv sites (sync s)"
  using arrays_ok_cong [of "sync s" s sites]
  by (simp add: system_inv_def well_typed_def backend_inv_def sync_def)

lemma open_log_frame [simp]:
  "heap (open_log c f s) = heap s" "thread_buffers (open_log c f s) = thread_buffers s"
  "staging_ptr (open_log c f s) = staging_ptr s" "param_sizes (open_log c f s) = param_sizes s"
  "current_log_level (open_log c f s) = current_log_level s" "is_exit (open_log c f s) = is_exit s"
  "is_stop (open_log c f s) = is_stop s" "fdflush_joinable (open_log c f s) = fdflush_joinable s"
  "fdflush (open_log c f s) = fdflush s"
  by (simp_all add: open_log_def)

lemma open_log_file: "outfd (open_log c f s) = Some (g, off) \<Longrightarrow> files (open_log c f s) g \<noteq> None"
  if "outfd s = None"
  using that by (auto simp: open_log_def split: if_splits option.splits)

lemma setLogFile_system_inv:
  assumes "system_inv sites s" "setLogFile can_open f s = Inr s'"
  shows "system_inv sites s'"
proof -
  let ?s = "s\<lparr>is_stop := True, is_exit := False, fdflush_joinable := False, fdflush := Finished, outfd := None\<rparr>"
  have "s' = open_log can_open f ?s \<and> outfd (open_log can_open f ?s) = None
    \<or> s' = (open_log can_open f ?s)\<lparr>fdflush_joinable := True, fdflush := Running\<rparr>
        \<and> outfd (open_log can_open f ?s) \<noteq> None"
    using assms(2) by (auto simp: setLogFile_def Let_def open_log_def split: if_splits)
  then show ?thesis
    using assms(1) open_log_file [of ?s] arrays_ok_cong [of s' s sites]
    by (auto simp: system_inv_def backend_inv_def well_typed_def)
qed

lemma write_log_typed: "well_typed s \<Longrightarrow> well_typed (write_log bs s)"
  by (cases "outfd s") (auto simp: well_typed_def write_log_def)

lemma well_typed_upd [simp]:
  "well_typed (s\<lparr>heap := h\<rparr>) = well_typed s" "well_typed (s\<lparr>thread_buffers := ps\<rparr>) = well_typed s"
  "well_typed (s\<lparr>log_buf := lb\<rparr>) = well_typed s" "well_typed (s\<lparr>fdflush := f\<rparr>) = well_typed s"
  by (simp_all add: well_typed_def)

lemma process_typed:
  assumes "well_typed s" "processLogBuffer w now p s = Inr s'"
  shows "well_typed s' \<and> param_sizes s' = param_sizes s"
  using assms
  by (auto simp: processLogBuffer_def Let_def sum_bind_Inr_iff write_log_typed split: option.splits prod.splits if_splits)

lemma ioPoll_iteration_typed:
  assumes "well_typed s" "ioPoll_iteration w now s = Inr (x, s')"
  shows "well_typed s' \<and> param_sizes s' = param_sizes s"
  using assms
  by (auto simp: ioPoll_iteration_def Let_def sum_bind_Inr_iff dest!: process_typed [rotated] split: option.splits if_splits)

lemma poll_system_inv:
  assumes "system_inv sites s" "ioPoll_iteration w now s = Inr (x, s')"
  shows "system_inv sites s'"
  using system_invD [OF assms(1)] ioPoll_iteration_inv [OF _ assms(2)] ioPoll_iteration_typed [OF _ assms(2)]
    arrays_ok_cong [of s' s sites]
  by (simp add: system_inv_def)

lemma backend_step_inv:
  assumes "backend_step sites w can_open s e s'" "system_inv sites s" "inj_on param_size_addr sites"
  shows "system_inv sites s'"
  using assms(1)
proof cases
  case (step_log site args p t reads rdtsc x)
  then show ?thesis using log_system_inv [OF assms(2,3)] by blast
next
  case (step_preallocate p t)
  then show ?thesis using preallocate_system_inv [OF assms(2)] by simp
next
  case (step_file f)
  then show ?thesis using setLogFile_system_inv [OF assms(2)] by simp
next
  case (step_poll now x)
  have "system_inv sites (s\<lparr>fdflush := Running\<rparr>)"
    using assms(2) arrays_ok_cong [of "s\<lparr>fdflush := Running\<rparr>" s sites]
    by (simp add: system_inv_def backend_inv_def)
  then show ?thesis using step_poll(4) by (rule poll_system_inv)
qed (use assms(2) exit_system_inv setLogLevel_system_inv sync_system_inv in simp_all)

lemma start_inv:
  assumes "heap s = (\<lambda>_. None)" "staging_ptr s = (\<lambda>_. None)" "param_sizes s = (\<lambda>_. [])"
    and "StaticLogBackend can_open buffer s = Inr s'"
  shows "system_inv sites s'"
proof -
  have "heap s' = (\<lambda>_. None)" "staging_ptr s' = (\<lambda>_. None)" "param_sizes s' = (\<lambda>_. [])"
    "thread_buffers s' = []"
    using assms by (auto simp: StaticLogBackend_def Let_def split: if_splits)
  moreover have "well_typed s'"
    using assms(4)
    by (auto simp: StaticLogBackend_def Let_def open_log_def well_typed_def log_level_defs split: if_splits option.splits)
  ultimately show ?thesis
    by (simp add: system_inv_def backend_inv_def registered_def staged_def arrays_ok_def param_size_array_def)
qed

lemma reachable_inv:
  assumes "reachable sites w can_open s" "inj_on param_size_addr sites"
  shows "system_inv sites s"
  using assms(1)
proof induction
  case (reach_start s buffer s')
  then show ?case by (rule start_inv)
next
  case (reach_step s e s')
  show ?case using reach_step.hyps(2) reach_step.IH assms(2) by (rule backend_step_inv)
qed

subsection \<open>The worker after a change of the log file\<close>

text \<open>Without a worker nothing is written, whatever is logged.\<close>

lemma step_without_worker:
  assumes "backend_step sites w can_open s e s'" "\<And>f. e \<noteq> SetFile f"
    and "fdflush s = Finished" "system_inv sites s"
  shows "files s' = files s \<and> fdflush s' = Finished"
  using assms(1)
proof cases
  case (step_log site args p t reads rdtsc x)
  from step_log(3) obtain info where i: "static_info_of site = Inr info" "list_all arg_ok args"
    "length args \<le> num_params info" by (rule statement_argsE)
  show ?thesis
  proof (cases "getLogLevel s < severity site")
    case True
    with step_log i assms(3) show ?thesis by (simp add: STATIC_LOG_def)
  next
    case False
    have "same_output s s'"
      by (rule STATIC_LOG_frame [OF step_log(5) i(1) False i(2,3) arrays_okD [OF system_invD(2) [OF assms(4)]
            step_log(2) i(1)]])
    with assms(3) show ?thesis by (simp add: same_output_def)
  qed
next
  case (step_preallocate p t)
  with assms(3) ensure_frame(1) [where s = s and t = t and p = p] show ?thesis
    by (simp add: preallocate_def same_output_def)
next
  case (step_exit t)
  with assms(3) show ?thesis by (simp add: thread_exit_def split: option.split)
qed (use assms(2,3) in \<open>simp_all add: setLogLevel_def Let_def sync_def\<close>)

lemma run_without_worker:
  "run (backend_step sites w can_open) s es s' \<Longrightarrow> \<forall>f. SetFile f \<notin> set es \<Longrightarrow> fdflush s = Finished \<Longrightarrow>
     system_inv sites s \<Longrightarrow> inj_on param_size_addr sites \<Longrightarrow> files s' = files s"
proof (induction rule: run.induct)
  case (run_Nil s)
  then show ?case by simp
next
  case (run_Cons s e s1 es s2)
  have "files s1 = files s \<and> fdflush s1 = Finished"
    using run_Cons.prems by (intro step_without_worker [OF run_Cons.hyps(1)]) auto
  moreover have "system_inv sites s1" using run_Cons.hyps(1) run_Cons.prems(3,4) by (rule backend_step_inv)
  ultimately show ?case using run_Cons.IH run_Cons.prems by simp
qed

lemma setLogFile_result:
  "fdflush_joinable s \<Longrightarrow> \<exists>s1. setLogFile can_open f s = Inr s1 \<and> is_stop s1
    \<and> thread_buffers s1 = thread_buffers s \<and> (fdflush_joinable s1 \<longleftrightarrow> can_open f)"
  by (cases "can_open f") (simp_all add: setLogFile_def Let_def open_log_def)

subsection \<open>A reachable state with one record\<close>

lemma sample_start: "reachable sites w (\<lambda>_. True) sample_backend"
proof (rule reach_start)
  let ?s = "sample_backend\<lparr>files := (\<lambda>_. None)\<rparr>"
  show "heap ?s = (\<lambda>_. None)" "staging_ptr ?s = (\<lambda>_. None)" "param_sizes ?s = (\<lambda>_. [])"
    by (simp_all add: sample_backend_def)
  show "StaticLogBackend (\<lambda>_. True) 4096 ?s = Inr sample_backend"
    by (simp add: StaticLogBackend_def Let_def open_log_def sample_backend_def sample_buffer_def)
qed

lemma sample_statement_args: "statement_args sample_site [AStr 0 ''hi'']"
  by (simp add: statement_args_def sample_static_info) (simp add: sample_info_def param_order stored_length_def)

lemma sample_statement_logged:
  "\<exists>s. STATIC_LOG 1 5000 0 99 sample_site [AStr 0 ''hi''] sample_backend = Inr (Logged, s)
    \<and> thread_records s 1 [statement_record sample_site sample_info [AStr 0 ''hi''] 99] \<and> backend_inv s
    \<and> same_output sample_backend s"
proof -
  have lev: "\<not> getLogLevel sample_backend < severity sample_site"
    by (simp add: sample_backend_def sample_site_def getLogLevel_def log_level_defs)
  have args: "list_all arg_ok [AStr 0 ''hi'']" "length [AStr 0 ''hi''] \<le> num_params sample_info"
    by (simp_all add: sample_info_def)
  have arr: "length (param_size_array sample_site (num_params sample_info) sample_backend) = num_params sample_info + 1"
    by (simp add: param_size_array_def sample_backend_def)
  have "sizeof_LogEntry + length (args_image 0 (param_types sample_info) (- 1) [AStr 0 ''hi'']) < kSTAGING_BUFFER_SIZE"
    by (simp add: sample_info_def param_order stored_length_def sizeof_LogEntry_def kSTAGING_BUFFER_SIZE_def)
  from first_statement_logged [OF sample_static_info lev args this arr, of 1 5000 0 99]
  obtain s where s: "STATIC_LOG 1 5000 0 99 sample_site [AStr 0 ''hi''] sample_backend = Inr (Logged, s)"
    "thread_records s 1 [statement_record sample_site sample_info [AStr 0 ''hi''] 99]" "backend_inv s"
    using sample_backend_inv by (auto simp: sample_backend_def)
  moreover have "same_output sample_backend s"
    by (rule STATIC_LOG_frame [OF s(1) sample_static_info lev args arr])
  ultimately show ?thesis by blast
qed

lemma sample_reachable:
  obtains s where "reachable {sample_site} w (\<lambda>_. True) s" "backend_inv s" "\<not> is_exit s" "\<not> is_stop s"
    "thread_records s 1 [statement_record sample_site sample_info [AStr 0 ''hi''] 99]"
proof -
  from sample_statement_logged obtain s where
    s: "STATIC_LOG 1 5000 0 99 sample_site [AStr 0 ''hi''] sample_backend = Inr (Logged, s)"
    "thread_records s 1 [statement_record sample_site sample_info [AStr 0 ''hi''] 99]" "backend_inv s"
    "same_output sample_backend s" by blast
  have "heap sample_backend 5000 = None" by (simp add: sample_backend_def)
  then have "backend_step {sample_site} w (\<lambda>_. True) sample_backend (Log 1 sample_site [AStr 0 ''hi''] 99) s"
    using sample_statement_args s(1) by (intro step_log) auto
  with sample_start have "reachable {sample_site} w (\<lambda>_. True) s" by (rule reach_step)
  with that s show thesis by (simp add: same_output_def sample_backend_def)
qed

subsection \<open>Properties\<close>

text \<open>
  C19. One iteration of the poll loop, on a backend that satisfies the invariant and has not been told
  to end: it fails only if the processing of the chosen record fails; it does not leave; the buffer
  processed holds a record with the smallest stamp of all; it waits only if no record is pending with a
  stamp below the maximum. The records of the other buffers are untouched, a buffer is deleted only
  when it is empty and its thread has ended, and the invariant holds again.
\<close>

theorem ioPoll_iteration_correct:
  assumes "backend_inv s" "\<not> is_exit s" "\<not> is_stop s \<or> thread_buffers s \<noteq> []"
  shows "case ioPoll_iteration w now s of
      Inl e \<Rightarrow> \<exists>m p h'. oldest_choice (heap s) (thread_buffers s) m (Some p)
        \<and> processLogBuffer w now p (after_scan s h') = Inl e
    | Inr (Leave, s') \<Rightarrow> False
    | Inr (Wait, s') \<Rightarrow> backend_inv s' \<and> (\<exists>m. oldest_choice (heap s) (thread_buffers s) m None)
        \<and> (\<forall>q b rs. heap s q = Some b \<longrightarrow> sb_records b rs \<longrightarrow>
             (if deletable (heap s) q then rs = [] \<and> heap s' q = None
              else \<exists>b'. heap s' q = Some b' \<and> sb_records b' rs))
    | Inr (Processed p, s') \<Rightarrow> backend_inv s' \<and> (\<exists>m. oldest_choice (heap s) (thread_buffers s) m (Some p))
        \<and> (\<forall>q b rs. heap s q = Some b \<longrightarrow> sb_records b rs \<longrightarrow> records_after now p (heap s) (heap s') q rs)"
  using assms
proof (cases rule: ioPoll_iteration_cases [where w = w and now = now])
  case (wait h' m)
  with ioPoll_iteration_inv [OF assms(1) wait(1)]
    scanned_records [OF backend_invD(1) [OF assms(1)] wait(2)] show ?thesis
    by (auto simp: after_scan_def)
next
  case (choice h' m p)
  show ?thesis
  proof (cases "processLogBuffer w now p (after_scan s h')")
    case (Inl e)
    with choice show ?thesis by auto
  next
    case (Inr s')
    with choice have it: "ioPoll_iteration w now s = Inr (Processed p, s')" by simp
    with choice(3) ioPoll_iteration_inv [OF assms(1) it]
      processed_records [OF assms(1) choice(2,3) Inr] show ?thesis by auto
  qed
qed

theorem ioPoll_iteration_correct_witness:
  "\<exists>s :: backend. thread_records s 1 [statement_record sample_site sample_info [AStr 0 ''hi''] 99]
    \<and> (case ioPoll_iteration sample_surroundings 5 s of
          Inl e \<Rightarrow> \<exists>m p h'. oldest_choice (heap s) (thread_buffers s) m (Some p)
            \<and> processLogBuffer sample_surroundings 5 p (after_scan s h') = Inl e
        | Inr (Leave, s') \<Rightarrow> False
        | Inr (Wait, s') \<Rightarrow> backend_inv s' \<and> (\<exists>m. oldest_choice (heap s) (thread_buffers s) m None)
            \<and> (\<forall>q b rs. heap s q = Some b \<longrightarrow> sb_records b rs \<longrightarrow>
                 (if deletable (heap s) q then rs = [] \<and> heap s' q = None
                  else \<exists>b'. heap s' q = Some b' \<and> sb_records b' rs))
        | Inr (Processed p, s') \<Rightarrow> backend_inv s' \<and> (\<exists>m. oldest_choice (heap s) (thread_buffers s) m (Some p))
            \<and> (\<forall>q b rs. heap s q = Some b \<longrightarrow> sb_records b rs \<longrightarrow> records_after 5 p (heap s) (heap s') q rs))"
proof -
  obtain s where s: "backend_inv s" "\<not> is_exit s" "\<not> is_stop s"
    "thread_records s 1 [statement_record sample_site sample_info [AStr 0 ''hi''] 99]"
    using sample_reachable by metis
  from ioPoll_iteration_correct [OF s(1,2), of sample_surroundings 5] s(3,4) show ?thesis by blast
qed

text \<open>
  C21. In every reachable state the members keep to their types: the level is an enumerator, whatever
  value it was set to; the member \<^verbatim>\<open>fdflush_\<close> is joinable exactly if the log file is open, and that file exists;
  and the \<^verbatim>\<open>param_size\<close> array of every statement has the size of its declaration. (A joinable thread may
  have left its loop.)
\<close>

theorem reachable_well_typed:
  assumes "reachable sites w can_open s" "inj_on param_size_addr sites"
  shows "current_log_level s < kNUM_LOG_LEVELS \<and> (fdflush_joinable s \<longleftrightarrow> outfd s \<noteq> None)
    \<and> (\<forall>f off. outfd s = Some (f, off) \<longrightarrow> files s f \<noteq> None)
    \<and> (\<forall>site \<in> sites. \<forall>info. static_info_of site = Inr info \<longrightarrow>
         length (param_size_array site (num_params info) s) = num_params info + 1)"
  using system_invD [OF reachable_inv [OF assms]] by (simp add: well_typed_def arrays_ok_def)

theorem reachable_well_typed_witness:
  "\<exists>s. reachable {sample_site} sample_surroundings (\<lambda>_. True) s
    \<and> current_log_level s < kNUM_LOG_LEVELS \<and> (fdflush_joinable s \<longleftrightarrow> outfd s \<noteq> None)
    \<and> length (param_size_array sample_site 1 s) = 2"
proof -
  obtain s where s: "reachable {sample_site} sample_surroundings (\<lambda>_. True) s"
    by (rule sample_reachable)
  from reachable_well_typed [OF this] sample_static_info s show ?thesis
    by (intro exI [of _ s]) (simp add: sample_info_def)
qed

text \<open>
  C20. In every reachable state a thread's staging buffer is a live object that is registered and not
  marked for deletion, and no other thread's: the worker never deletes the buffer of a thread that has
  not ended, and every pointer the worker follows is valid.
\<close>

theorem staging_buffers_live:
  assumes "reachable sites w can_open s" "inj_on param_size_addr sites"
  shows "(\<forall>t p. staging_ptr s t = Some p \<longrightarrow> p \<in> set (thread_buffers s)
      \<and> (\<exists>b rs. heap s p = Some b \<and> \<not> should_deallocate b \<and> sb_records b rs)
      \<and> (\<forall>t'. staging_ptr s t' = Some p \<longrightarrow> t' = t))
    \<and> distinct (thread_buffers s) \<and> (\<forall>p. heap s p \<noteq> None \<longleftrightarrow> p \<in> set (thread_buffers s))"
proof -
  have I: "registered (heap s) (thread_buffers s)" "staged (staging_ptr s) (heap s)"
    using backend_invD [OF system_invD(1) [OF reachable_inv [OF assms]]] by auto
  have "p \<in> set (thread_buffers s) \<and> (\<exists>b rs. heap s p = Some b \<and> \<not> should_deallocate b \<and> sb_records b rs)
      \<and> (\<forall>t'. staging_ptr s t' = Some p \<longrightarrow> t' = t)" if t: "staging_ptr s t = Some p" for t p
  proof -
    obtain b where b: "heap s p = Some b" "\<not> should_deallocate b" using stagedD [OF I(2) t] by blast
    with registered_records [OF I(1) b(1)] registered_iff [OF I(1), of p] staged_inj [OF I(2) t]
    show ?thesis by metis
  qed
  with I(1) show ?thesis by (simp add: registered_def)
qed

theorem staging_buffers_live_witness:
  "\<exists>s p. reachable {sample_site} sample_surroundings (\<lambda>_. True) s \<and> staging_ptr s 1 = Some p
    \<and> p \<in> set (thread_buffers s) \<and> (\<exists>b. heap s p = Some b \<and> \<not> should_deallocate b)"
proof -
  obtain s where s: "reachable {sample_site} sample_surroundings (\<lambda>_. True) s"
    "thread_records s 1 [statement_record sample_site sample_info [AStr 0 ''hi''] 99]"
    by (rule sample_reachable)
  from s(2) obtain p where p: "staging_ptr s 1 = Some p"
    by (auto simp: thread_records_def split: option.splits)
  have "inj_on param_size_addr {sample_site}" by simp
  from staging_buffers_live [OF s(1) this] p have "p \<in> set (thread_buffers s)"
    "\<exists>b. heap s p = Some b \<and> \<not> should_deallocate b" by blast+
  with s(1) p show ?thesis by blast
qed

text \<open>
  C28. \<^verbatim>\<open>setLogFile\<close> never resets \<^verbatim>\<open>is_stop_\<close>. Called while
  no thread has a staging buffer, the restarted worker leaves in its first iteration, and no run of later
  operations that does not set the file again, whatever it logs, writes anything. If the file cannot be
  opened the worker is not restarted at all, with the same effect, and a further call fails in
  \<^verbatim>\<open>join\<close>.
\<close>

theorem setLogFile_loses_worker:
  assumes "system_inv sites s" "inj_on param_size_addr sites" "fdflush_joinable s" "thread_buffers s = []"
  shows "\<exists>s1. setLogFile can_open f s = Inr s1
    \<and> (if can_open f then ioPoll_iteration w now s1 = Inr (Leave, s1\<lparr>fdflush := Finished\<rparr>)
       else setLogFile can_open' g s1 = Inl Not_joinable)
    \<and> (\<forall>es s2. (\<forall>g. SetFile g \<notin> set es) \<longrightarrow>
         run (backend_step sites w can_open) (s1\<lparr>fdflush := Finished\<rparr>) es s2 \<longrightarrow> files s2 = files s1)"
proof -
  obtain s1 where s1: "setLogFile can_open f s = Inr s1" "is_stop s1" "thread_buffers s1 = []"
    "fdflush_joinable s1 \<longleftrightarrow> can_open f"
    using setLogFile_result [OF assms(3), of can_open f] assms(4) by auto
  have "system_inv sites s1" using assms(1) s1(1) by (rule setLogFile_system_inv)
  then have "system_inv sites (s1\<lparr>fdflush := Finished\<rparr>)"
    using arrays_ok_cong [of "s1\<lparr>fdflush := Finished\<rparr>" s1] by (simp add: system_inv_def backend_inv_def)
  then have "files s2 = files s1" if "\<forall>g. SetFile g \<notin> set es"
    "run (backend_step sites w can_open) (s1\<lparr>fdflush := Finished\<rparr>) es s2" for es s2
    using run_without_worker [OF that(2,1)] assms(2) by simp
  moreover have "if can_open f then ioPoll_iteration w now s1 = Inr (Leave, s1\<lparr>fdflush := Finished\<rparr>)
      else setLogFile can_open' g s1 = Inl Not_joinable"
    using s1 by (simp add: ioPoll_iteration_def setLogFile_def Let_def)
  ultimately show ?thesis using s1(1) by blast
qed

theorem setLogFile_loses_worker_witness:
  "\<exists>s1. setLogFile (\<lambda>_. True) ''new.txt'' sample_backend = Inr s1
    \<and> ioPoll_iteration sample_surroundings 5 s1 = Inr (Leave, s1\<lparr>fdflush := Finished\<rparr>)
    \<and> (\<forall>es s2. (\<forall>g. SetFile g \<notin> set es) \<longrightarrow>
         run (backend_step {sample_site} sample_surroundings (\<lambda>_. True)) (s1\<lparr>fdflush := Finished\<rparr>) es s2 \<longrightarrow>
         files s2 = files s1)"
proof -
  have inj: "inj_on param_size_addr {sample_site}" by simp
  have inv: "system_inv {sample_site} sample_backend"
    using reachable_inv [OF sample_start inj] .
  have j: "fdflush_joinable sample_backend" "thread_buffers sample_backend = []"
    by (simp_all add: sample_backend_def)
  from setLogFile_loses_worker [OF inv inj j, of "\<lambda>_. True" "''new.txt''" sample_surroundings 5]
  show ?thesis by simp
qed

end
