(* ===== verification/QueueSpec.thy ===== *)
theory QueueSpec
  imports LogSystem
begin

section \<open>The logger refines a set of queues\<close>

text \<open>
  What the logger promises, without buffers, pointers into them and wrap-around: a level, and one
  queue of records for each thread that has logged. A statement below the level appends one record to
  its thread's queue (or waits); an iteration of the worker takes the record with the smallest stamp
  from the front of its queue, or leaves it there with a new stamp, and may drop empty queues that no
  thread owns.
\<close>

record spec =
  spec_level :: log_level
  owner :: "nat \<Rightarrow> nat option"
  queues :: "nat \<Rightarrow> byte list list option"

definition queue_of :: "nat \<Rightarrow> spec \<Rightarrow> byte list list" where
  "queue_of t S =
     (case owner S t of None \<Rightarrow> [] | Some q \<Rightarrow> (case queues S q of None \<Rightarrow> [] | Some rs \<Rightarrow> rs))"

text \<open>The queue of thread \<open>t\<close> becomes \<open>rs\<close>; a thread without a queue gets the queue \<open>p\<close>.\<close>

definition set_queue :: "nat \<Rightarrow> nat \<Rightarrow> byte list list \<Rightarrow> spec \<Rightarrow> spec" where
  "set_queue t p rs S =
     (let q = (case owner S t of None \<Rightarrow> p | Some q \<Rightarrow> q)
      in S\<lparr>owner := (owner S)(t \<mapsto> q), queues := (queues S)(q \<mapsto> rs)\<rparr>)"

definition clamped :: "log_level \<Rightarrow> log_level" where
  "clamped l = min l kDEBUG"

definition merged :: "nat \<Rightarrow> spec \<Rightarrow> (nat \<Rightarrow> byte list list option) \<Rightarrow> bool" where
  "merged now S qs' \<longleftrightarrow>
     (\<forall>q. queues S q = None \<longrightarrow> qs' q = None)
     \<and> (\<forall>q. queues S q = Some [] \<longrightarrow> qs' q = Some [] \<or> qs' q = None \<and> q \<notin> ran (owner S))
     \<and> (\<forall>q r rs. queues S q = Some (r # rs) \<longrightarrow>
          qs' q = Some (r # rs)
          \<or> (qs' q = Some rs \<or> qs' q = Some (stamped now r # rs))
             \<and> (\<forall>q' r' rs'. queues S q' = Some (r' # rs') \<longrightarrow>
                  record_stamp r \<le> record_stamp r' \<and> (q' \<noteq> q \<longrightarrow> qs' q' = queues S q')))"

inductive spec_step :: "spec \<Rightarrow> event \<Rightarrow> spec \<Rightarrow> bool" where
  spec_drop: "spec_level S < severity site \<Longrightarrow> spec_step S (Log t site args c) S"
| spec_wait: "\<not> spec_level S < severity site \<Longrightarrow> queues S p = None \<Longrightarrow>
     spec_step S (Log t site args c) (set_queue t p (queue_of t S) S)"
| spec_log: "\<not> spec_level S < severity site \<Longrightarrow> queues S p = None \<Longrightarrow> static_info_of site = Inr info \<Longrightarrow>
     spec_step S (Log t site args c) (set_queue t p (queue_of t S @ [statement_record site info args c]) S)"
| spec_preallocate: "queues S p = None \<Longrightarrow> spec_step S (Preallocate t) (set_queue t p (queue_of t S) S)"
| spec_exit: "spec_step S (Exit t) (S\<lparr>owner := (owner S)(t := None)\<rparr>)"
| spec_set_level: "spec_step S (SetLevel l) (S\<lparr>spec_level := clamped l\<rparr>)"
| spec_sync: "spec_step S Sync S"
| spec_set_file: "spec_step S (SetFile f) S"
| spec_poll: "merged now S qs' \<Longrightarrow> spec_step S (Poll now) (S\<lparr>queues := qs'\<rparr>)"

definition simulates :: "backend \<Rightarrow> spec \<Rightarrow> bool" where
  "simulates s S \<longleftrightarrow> spec_level S = getLogLevel s \<and> owner S = staging_ptr s
     \<and> (\<forall>p. rel_option sb_records (heap s p) (queues S p))"

lemma simulatesD:
  assumes "simulates s S"
  shows "spec_level S = getLogLevel s" "owner S = staging_ptr s"
    "heap s p = Some b \<Longrightarrow> \<exists>rs. queues S p = Some rs \<and> sb_records b rs"
    "queues S p = Some rs \<Longrightarrow> \<exists>b. heap s p = Some b \<and> sb_records b rs"
    "heap s p = None \<longleftrightarrow> queues S p = None"
  using assms unfolding simulates_def
  by (metis option.rel_distinct option.rel_inject(2) option.exhaust)+

lemma simulatesI:
  assumes "spec_level S = getLogLevel s" "owner S = staging_ptr s"
    and "\<And>p. heap s p = None \<and> queues S p = None
      \<or> (\<exists>b rs. heap s p = Some b \<and> queues S p = Some rs \<and> sb_records b rs)"
  shows "simulates s S"
proof -
  have "rel_option sb_records (heap s p) (queues S p)" for p using assms(3) [of p] by auto
  with assms(1,2) show ?thesis by (simp add: simulates_def)
qed

subsection \<open>Statements\<close>

lemma simulates_thread:
  assumes "simulates s S" "backend_inv s"
  shows "thread_records s t (queue_of t S)"
proof (cases "staging_ptr s t")
  case None
  with simulatesD(2) [OF assms(1)] show ?thesis by (simp add: thread_records_def queue_of_def)
next
  case (Some q)
  then obtain b where b: "heap s q = Some b" using stagedD [OF backend_invD(2) [OF assms(2)]] by blast
  from simulatesD(3) [OF assms(1) b] simulatesD(2) [OF assms(1)] b Some show ?thesis
    by (auto simp: thread_records_def queue_of_def)
qed

lemma simulates_set_queue:
  assumes "simulates s S" "others_same t p s s'" "getLogLevel s' = getLogLevel s" "thread_records s' t rs"
  shows "simulates s' (set_queue t p rs S)"
proof -
  obtain q where q: "staging_ptr s' t = Some q" using others_same_ptr [OF assms(2)] by blast
  with assms(4) obtain b where b: "heap s' q = Some b" "sb_records b rs"
    by (auto simp: thread_records_def split: option.splits)
  note S = simulatesD [OF assms(1)]
  have o: "staging_ptr s' = (staging_ptr s)(t \<mapsto> q)" "(case owner S t of None \<Rightarrow> p | Some q \<Rightarrow> q) = q"
    using assms(2) q S(2) by (auto simp: others_same_def split: option.splits if_splits)
  show ?thesis
  proof (rule simulatesI)
    fix q'
    show "heap s' q' = None \<and> queues (set_queue t p rs S) q' = None
        \<or> (\<exists>b rs'. heap s' q' = Some b \<and> queues (set_queue t p rs S) q' = Some rs' \<and> sb_records b rs')"
    proof (cases "q' = q")
      case True
      with b o show ?thesis by (simp add: set_queue_def Let_def)
    next
      case False
      then have "heap s' q' = heap s q'" "queues (set_queue t p rs S) q' = queues S q'"
        using assms(2) q o(2) by (auto simp: others_same_def set_queue_def Let_def)
      with S(3-5) [of q'] show ?thesis by (cases "heap s q'") auto
    qed
  qed (use assms(3) o S in \<open>simp_all add: set_queue_def Let_def\<close>)
qed

lemma sim_log:
  assumes inv: "system_inv sites s" and sim: "simulates s S" and site: "site \<in> sites"
    and args: "statement_args site args" and p: "heap s p = None"
    and log: "STATIC_LOG t p reads rdtsc site args s = Inr (x, s')"
  shows "\<exists>S'. spec_step S (Log t site args rdtsc) S' \<and> simulates s' S'"
proof -
  from args obtain info where i: "static_info_of site = Inr info" "list_all arg_ok args"
    "length args \<le> num_params info" "length (args_image 0 (param_types info) (- 1) args) < 2 ^ 31"
    by (rule statement_argsE)
  note I = system_invD [OF inv]
  note arr = arrays_okD [OF I(2) site i(1)]
  have q: "queues S p = None" using simulatesD(5) [OF sim] p by blast
  show ?thesis
  proof (cases "getLogLevel s < severity site")
    case True
    with log i(1) have "s' = s" by (simp add: STATIC_LOG_def)
    moreover have "spec_level S < severity site" using True simulatesD(1) [OF sim] by simp
    ultimately show ?thesis using spec_drop sim by blast
  next
    case False
    have lev: "\<not> spec_level S < severity site" using False simulatesD(1) [OF sim] by simp
    have eff: "x = Logged \<and> thread_records s' t (queue_of t S @ [statement_record site info args rdtsc])
        \<or> x = Blocked \<and> thread_records s' t (queue_of t S)"
      using STATIC_LOG_effect [OF i(1) False i(2-4) arr simulates_thread [OF sim I(1), of t], of p reads rdtsc] log
      by auto
    have f: "same_output s s'" "others_same t p s s'"
      by (rule STATIC_LOG_frame [OF log i(1) False i(2,3) arr]; assumption)+
    have g: "getLogLevel s' = getLogLevel s" using f(1) by (simp add: getLogLevel_def same_output_def)
    from eff spec_log [OF lev q i(1)] spec_wait [OF lev q] simulates_set_queue [OF sim f(2) g]
    show ?thesis by blast
  qed
qed

lemma sim_preallocate:
  assumes "system_inv sites s" "simulates s S" "heap s p = None"
  shows "\<exists>S'. spec_step S (Preallocate t) S' \<and> simulates (preallocate t p s) S'"
proof -
  let ?s = "ensureStagingBufferAllocated t p s"
  note I = system_invD(1) [OF assms(1)]
  note f = ensure_frame [where s = s and t = t and p = p]
  have "thread_records ?s t (queue_of t S)"
    using simulates_thread [OF assms(2) I] by (rule thread_records_ensure)
  moreover have "getLogLevel ?s = getLogLevel s" using f(1) by (simp add: getLogLevel_def same_output_def)
  ultimately have "simulates ?s (set_queue t p (queue_of t S) S)"
    using simulates_set_queue [OF assms(2) f(2)] by blast
  moreover have "queues S p = None" using simulatesD(5) [OF assms(2)] assms(3) by blast
  ultimately show ?thesis using spec_preallocate unfolding preallocate_def by blast
qed

subsection \<open>Control operations\<close>

lemma simulates_cong:
  "simulates s S \<Longrightarrow> getLogLevel s' = getLogLevel s \<Longrightarrow> staging_ptr s' = staging_ptr s \<Longrightarrow> heap s' = heap s \<Longrightarrow>
     simulates s' S"
  by (simp add: simulates_def)

lemma sim_exit:
  assumes "simulates s S"
  shows "simulates (thread_exit t s) (S\<lparr>owner := (owner S)(t := None)\<rparr>)"
proof (cases "staging_ptr s t")
  case None
  then have "(staging_ptr s)(t := None) = staging_ptr s" by auto
  with None assms show ?thesis by (simp add: simulates_def thread_exit_def)
next
  case (Some q)
  note S = simulatesD [OF assms]
  have "(\<exists>b rs. map_option (\<lambda>b. b\<lparr>should_deallocate := True\<rparr>) (heap s p) = Some b \<and> queues S p = Some rs \<and> sb_records b rs)
      \<or> heap s p = None \<and> queues S p = None" for p
    using S(3,5) [of p] sb_records_ended by (cases "heap s p") auto
  moreover have "(\<exists>b rs. heap s p = Some b \<and> queues S p = Some rs \<and> sb_records b rs)
      \<or> heap s p = None \<and> queues S p = None" for p
    using S(3,5) [of p] by (cases "heap s p") auto
  ultimately show ?thesis
    using Some S(1,2) by (intro simulatesI) (auto simp: thread_exit_def getLogLevel_def)
qed

lemma clamped_level: "getLogLevel (setLogLevel l s) = clamped l"
proof -
  have "5 \<le> unat l \<longleftrightarrow> \<not> unat l \<le> 4" by arith
  then have "5 \<le> l \<longleftrightarrow> \<not> l \<le> 4" by (simp add: word_le_nat_alt)
  then show ?thesis
    by (cases "l \<le> 4")
       (simp_all add: setLogLevel_def Let_def getLogLevel_def clamped_def kNUM_LOG_LEVELS_def kDEBUG_def min_def)
qed

lemma setLogFile_frame:
  assumes "setLogFile can_open f s = Inr s'"
  shows "getLogLevel s' = getLogLevel s" "staging_ptr s' = staging_ptr s" "heap s' = heap s"
  using assms by (auto simp: setLogFile_def Let_def getLogLevel_def split: if_splits)

subsection \<open>The worker\<close>

text \<open>The queues after the scan: the deleted ones were empty and belonged to no thread.\<close>

lemma scan_queues:
  assumes "backend_inv s" "scanned (heap s) (thread_buffers s) h'" "simulates s S"
  shows "(h' q = None \<and> (queues S q = None \<or> queues S q = Some [] \<and> q \<notin> ran (owner S)))
    \<or> (\<exists>b rs. h' q = Some b \<and> queues S q = Some rs \<and> sb_records b rs)"
proof (cases "heap s q")
  case None
  then have "q \<notin> set (thread_buffers s)"
    using registered_iff [OF backend_invD(1) [OF assms(1)], of q] by simp
  with scanned_other [OF assms(2)] None simulatesD(5) [OF assms(3), of q] show ?thesis by simp
next
  case (Some b)
  then obtain rs where rs: "queues S q = Some rs" "sb_records b rs" using simulatesD(3) [OF assms(3)] by blast
  show ?thesis
  proof (cases "deletable (heap s) q")
    case True
    have "q \<notin> ran (owner S)"
    proof
      assume "q \<in> ran (owner S)"
      then obtain t where "staging_ptr s t = Some q" using simulatesD(2) [OF assms(3)] by (auto simp: ran_def)
      from stagedD [OF backend_invD(2) [OF assms(1)] this] Some have "\<not> should_deallocate b" by simp
      with True Some show False by (simp add: deletable_def checkCanDelete_def)
    qed
    with True scanned_records [OF backend_invD(1) [OF assms(1)] assms(2) Some rs(2)] rs show ?thesis by simp
  next
    case False
    with scanned_records [OF backend_invD(1) [OF assms(1)] assms(2) Some rs(2)] rs show ?thesis by auto
  qed
qed

text \<open>The queue the worker has chosen starts with a record whose stamp is smallest.\<close>

lemma chosen_queue:
  assumes "simulates s S" "oldest_choice (heap s) (thread_buffers s) m (Some p)"
    "registered (heap s) (thread_buffers s)"
  obtains r rs where "queues S p = Some (r # rs)" "record_stamp r = m"
    "\<And>q r' rs'. queues S q = Some (r' # rs') \<Longrightarrow> m \<le> record_stamp r'"
proof -
  from assms(2) obtain b r0 rs0 where b: "heap s p = Some b" "sb_records b (r0 # rs0)" "record_stamp r0 = m"
    by (auto simp: oldest_choice_def)
  obtain rs where rs: "queues S p = Some rs" "sb_records b rs" using simulatesD(3) [OF assms(1) b(1)] by blast
  from oldest_stamp_of [of "heap s" p, OF b(1) rs(2)] oldest_stamp_of [of "heap s" p, OF b(1,2)] b(3)
  obtain r rs1 where r: "rs = r # rs1" "record_stamp r = m" by (cases rs) auto
  have "m \<le> record_stamp r'" if q: "queues S q = Some (r' # rs')" for q r' rs'
  proof -
    obtain c where c: "heap s q = Some c" "sb_records c (r' # rs')" using simulatesD(4) [OF assms(1) q] by blast
    moreover have "q \<in> set (thread_buffers s)" using registered_iff [OF assms(3)] c(1) by blast
    ultimately show ?thesis using assms(2) by (auto simp: oldest_choice_def)
  qed
  with that rs(1) r show thesis by blast
qed

lemma process_level: "processLogBuffer w now p s = Inr s' \<Longrightarrow> getLogLevel s' = getLogLevel s"
  by (auto simp: processLogBuffer_def getLogLevel_def Let_def sum_bind_Inr_iff
      split: option.splits prod.splits if_splits)

lemma sim_poll:
  assumes inv: "backend_inv s" and sim: "simulates s S" and it: "ioPoll_iteration w now s = Inr (x, s')"
  shows "\<exists>S'. spec_step S (Poll now) S' \<and> simulates s' S'"
proof (cases "\<not> is_exit s \<and> (\<not> is_stop s \<or> thread_buffers s \<noteq> [])")
  case False
  with it have "s' = s\<lparr>fdflush := Finished\<rparr>" by (auto simp: ioPoll_iteration_def split: if_splits)
  moreover have "merged now S (queues S)" by (simp add: merged_def)
  ultimately show ?thesis
    using spec_poll [of now S "queues S"] sim by (intro exI [of _ S]) (auto simp: simulates_def getLogLevel_def)
next
  case True
  note S = simulatesD [OF sim]
  let ?kept = "\<lambda>h' q. if h' q = None then None else queues S q"
  have run: "\<not> is_exit s" "\<not> is_stop s \<or> thread_buffers s \<noteq> []" using True by auto
  have refines: "\<exists>S'. spec_step S (Poll now) S' \<and> simulates s' S'"
    if m: "merged now S qs'" and g: "getLogLevel s' = getLogLevel s" "staging_ptr s' = staging_ptr s"
      and q: "\<And>q. heap s' q = None \<and> qs' q = None
        \<or> (\<exists>b rs. heap s' q = Some b \<and> qs' q = Some rs \<and> sb_records b rs)" for qs'
    using spec_poll [OF m] simulatesI [of "S\<lparr>queues := qs'\<rparr>" s'] g q S(1,2) by auto
  from inv run show ?thesis
  proof (cases rule: ioPoll_iteration_cases [where w = w and now = now])
    case (wait h' m)
    note sc = scan_queues [OF inv wait(2) sim]
    have s': "s' = (after_scan s h')\<lparr>fdflush := Waiting\<rparr>" using wait(1) it by simp
    have "merged now S (?kept h')"
      unfolding merged_def
    proof (intro conjI allI impI)
      fix q
      show "?kept h' q = None" if "queues S q = None" using that by simp
      show "?kept h' q = Some [] \<or> ?kept h' q = None \<and> q \<notin> ran (owner S)" if "queues S q = Some []"
        using that sc [of q] by auto
      show "?kept h' q = Some (r # rs) \<or> (?kept h' q = Some rs \<or> ?kept h' q = Some (stamped now r # rs))
          \<and> (\<forall>q' r' rs'. queues S q' = Some (r' # rs') \<longrightarrow>
               record_stamp r \<le> record_stamp r' \<and> (q' \<noteq> q \<longrightarrow> ?kept h' q' = queues S q'))"
        if "queues S q = Some (r # rs)" for r rs
        using that sc [of q] by auto
    qed
    then show ?thesis
    proof (rule refines)
      fix q
      show "heap s' q = None \<and> ?kept h' q = None
          \<or> (\<exists>b rs. heap s' q = Some b \<and> ?kept h' q = Some rs \<and> sb_records b rs)"
        using sc [of q] s' by (auto simp: after_scan_def)
    qed (simp_all add: s' after_scan_def getLogLevel_def)
  next
    case (choice h' m p)
    note sc = scan_queues [OF inv choice(2) sim]
    from it [unfolded choice(1)] have pr: "processLogBuffer w now p (after_scan s h') = Inr s'"
      by (auto simp: sum_bind_Inr_iff)
    obtain r rs where r: "queues S p = Some (r # rs)"
      "\<And>q r' rs'. queues S q = Some (r' # rs') \<Longrightarrow> record_stamp r \<le> record_stamp r'"
      using chosen_queue [OF sim choice(3) backend_invD(1) [OF inv]] by metis
    obtain b where b: "heap (after_scan s h') p = Some b" "sb_records b (r # rs)"
      using sc [of p] r(1) by (auto simp: after_scan_def)
    obtain b' rs' where e: "heap s' = (heap (after_scan s h'))(p \<mapsto> b')" "sb_records b' rs'"
      "processed now (r # rs) rs'" "staging_ptr s' = staging_ptr (after_scan s h')"
      using processLogBuffer_effect [OF b pr] by metis
    let ?qs = "(?kept h')(p \<mapsto> rs')"
    have keep: "?kept h' q = queues S q" if "queues S q = Some (r' # rs'')" for q r' rs''
      using sc [of q] that by auto
    have "merged now S ?qs"
      unfolding merged_def
    proof (intro conjI allI impI)
      fix q
      show "?qs q = None" if "queues S q = None" using that r(1) by auto
      show "?qs q = Some [] \<or> ?qs q = None \<and> q \<notin> ran (owner S)" if "queues S q = Some []"
        using that sc [of q] r(1) by auto
      fix r' rs''
      assume q: "queues S q = Some (r' # rs'')"
      show "?qs q = Some (r' # rs'') \<or> (?qs q = Some rs'' \<or> ?qs q = Some (stamped now r' # rs''))
          \<and> (\<forall>q' r0 rs0. queues S q' = Some (r0 # rs0) \<longrightarrow>
               record_stamp r' \<le> record_stamp r0 \<and> (q' \<noteq> q \<longrightarrow> ?qs q' = queues S q'))"
      proof (cases "q = p")
        case True
        with q r(1) have "r' = r" "rs'' = rs" by auto
        with True r(2) keep e(3) show ?thesis by (auto simp: processed_def)
      next
        case False
        with keep [OF q] q show ?thesis by simp
      qed
    qed
    then show ?thesis
    proof (rule refines)
      show "getLogLevel s' = getLogLevel s" using process_level [OF pr] by (simp add: after_scan_def getLogLevel_def)
      fix q
      show "heap s' q = None \<and> ?qs q = None \<or> (\<exists>b rs. heap s' q = Some b \<and> ?qs q = Some rs \<and> sb_records b rs)"
        using sc [of q] e(1,2) by (auto simp: after_scan_def)
    qed (use e(4) in \<open>simp add: after_scan_def\<close>)
  qed
qed

subsection \<open>Runs\<close>

text \<open>A forward simulation carries over from steps to runs.\<close>

locale forward_simulation =
  fixes step :: "'s \<Rightarrow> 'e \<Rightarrow> 's \<Rightarrow> bool"
    and astep :: "'a \<Rightarrow> 'e \<Rightarrow> 'a \<Rightarrow> bool"
    and inv :: "'s \<Rightarrow> bool"
    and R :: "'s \<Rightarrow> 'a \<Rightarrow> bool"
  assumes inv_step: "step s e s' \<Longrightarrow> inv s \<Longrightarrow> inv s'"
    and sim_step: "step s e s' \<Longrightarrow> inv s \<Longrightarrow> R s a \<Longrightarrow> \<exists>a'. astep a e a' \<and> R s' a'"
begin

lemma sim_run: "run step s es s' \<Longrightarrow> inv s \<Longrightarrow> R s a \<Longrightarrow> inv s' \<and> (\<exists>a'. run astep a es a' \<and> R s' a')"
proof (induction arbitrary: a rule: run.induct)
  case (run_Nil s)
  then show ?case using run.run_Nil [of astep a] by auto
next
  case (run_Cons s e s1 es s2)
  obtain a1 where a1: "astep a e a1" "R s1 a1" using sim_step [OF run_Cons.hyps(1) run_Cons.prems] by blast
  from run_Cons.IH [OF inv_step [OF run_Cons.hyps(1) run_Cons.prems(1)] a1(2)] obtain a2 where
    "inv s2" "run astep a1 es a2" "R s2 a2" by auto
  with run.run_Cons [of astep a e a1 es a2] a1(1) show ?case by auto
qed

end

lemma sim_backend_step:
  assumes "backend_step sites w can_open s e s'" "system_inv sites s" "simulates s S"
  shows "\<exists>S'. spec_step S e S' \<and> simulates s' S'"
  using assms(1)
proof cases
  case (step_log site args p t reads rdtsc x)
  then show ?thesis using sim_log [OF assms(2,3)] by blast
next
  case (step_preallocate p t)
  then show ?thesis using sim_preallocate [OF assms(2,3)] by simp
next
  case (step_exit t)
  then show ?thesis using spec_exit sim_exit [OF assms(3)] by metis
next
  case (step_level l)
  have "simulates (setLogLevel l s) (S\<lparr>spec_level := clamped l\<rparr>)"
    using assms(3) clamped_level [of l s] by (auto simp: simulates_def setLogLevel_def Let_def)
  with step_level show ?thesis using spec_set_level by blast
next
  case step_sync
  have "simulates (sync s) S" by (rule simulates_cong [OF assms(3)]) (simp_all add: sync_def getLogLevel_def)
  with step_sync show ?thesis using spec_sync by blast
next
  case (step_file f)
  have "simulates s' S" by (rule simulates_cong [OF assms(3) setLogFile_frame [OF step_file(2)]])
  with step_file show ?thesis using spec_set_file by blast
next
  case (step_poll now x)
  have "simulates (s\<lparr>fdflush := Running\<rparr>) S"
    by (rule simulates_cong [OF assms(3)]) (simp_all add: getLogLevel_def)
  moreover have "backend_inv (s\<lparr>fdflush := Running\<rparr>)"
    using system_invD(1) [OF assms(2)] by (simp add: backend_inv_def)
  ultimately show ?thesis using sim_poll [OF _ _ step_poll(4)] step_poll(1) by blast
qed

interpretation logger: forward_simulation "backend_step sites w can_open" spec_step
  "\<lambda>s. system_inv sites s \<and> inj_on param_size_addr sites" simulates
  for sites w can_open
  using backend_step_inv sim_backend_step by unfold_locales metis+

subsection \<open>Properties\<close>

text \<open>
  C1. Every run of the logger from its construction, with statements, preallocations, ends of threads,
  level changes, file changes and iterations of the worker in any order, is a run of the queues over the
  same events, and the records in every staging buffer are those of its queue.
\<close>

theorem logger_refines_queues:
  assumes "heap s0 = (\<lambda>_. None)" "staging_ptr s0 = (\<lambda>_. None)" "param_sizes s0 = (\<lambda>_. [])"
    and "StaticLogBackend can_open buffer s0 = Inr s1" "inj_on param_size_addr sites"
    and "run (backend_step sites w can_open) s1 es s2"
  shows "\<exists>S. run spec_step \<lparr>spec_level = kDEBUG, owner = (\<lambda>_. None), queues = (\<lambda>_. None)\<rparr> es S
    \<and> spec_level S = getLogLevel s2 \<and> owner S = staging_ptr s2
    \<and> (\<forall>p. rel_option sb_records (heap s2 p) (queues S p))"
proof -
  have "system_inv sites s1" using assms(1-4) by (rule start_inv)
  moreover have "simulates s1 \<lparr>spec_level = kDEBUG, owner = (\<lambda>_. None), queues = (\<lambda>_. None)\<rparr>"
    using assms(1,2,4) by (auto simp: simulates_def StaticLogBackend_def Let_def getLogLevel_def split: if_splits)
  ultimately show ?thesis
    using logger.sim_run [OF assms(6)] assms(5) unfolding simulates_def by blast
qed

theorem logger_refines_queues_witness:
  "\<exists>s2 S. run (backend_step {sample_site} sample_surroundings (\<lambda>_. True)) sample_backend
      [SetLevel 9, Log 1 sample_site [AStr 0 ''hi''] 99, Exit 1] s2
    \<and> run spec_step \<lparr>spec_level = kDEBUG, owner = (\<lambda>_. None), queues = (\<lambda>_. None)\<rparr>
        [SetLevel 9, Log 1 sample_site [AStr 0 ''hi''] 99, Exit 1] S
    \<and> (\<forall>p. rel_option sb_records (heap s2 p) (queues S p))"
proof -
  let ?step = "backend_step {sample_site} sample_surroundings (\<lambda>_. True)"
  let ?s0 = "sample_backend\<lparr>files := (\<lambda>_. None)\<rparr>"
  have s0: "heap ?s0 = (\<lambda>_. None)" "staging_ptr ?s0 = (\<lambda>_. None)" "param_sizes ?s0 = (\<lambda>_. [])"
    "StaticLogBackend (\<lambda>_. True) 4096 ?s0 = Inr sample_backend" "inj_on param_size_addr {sample_site}"
    by (simp_all add: StaticLogBackend_def Let_def open_log_def sample_backend_def sample_buffer_def)
  obtain s where s: "STATIC_LOG 1 5000 0 99 sample_site [AStr 0 ''hi''] sample_backend = Inr (Logged, s)"
    using sample_statement_logged by blast
  have l: "setLogLevel 9 sample_backend = sample_backend"
    by (simp add: setLogLevel_def Let_def sample_backend_def log_level_defs)
  have "?step sample_backend (SetLevel 9) sample_backend"
    using step_level [of "{sample_site}" sample_surroundings "\<lambda>_. True" sample_backend 9] unfolding l .
  moreover have "?step sample_backend (Log 1 sample_site [AStr 0 ''hi''] 99) s"
    using sample_statement_args s by (intro step_log) (auto simp: sample_backend_def)
  ultimately have r: "run ?step sample_backend [SetLevel 9, Log 1 sample_site [AStr 0 ''hi''] 99, Exit 1] (thread_exit 1 s)"
    by (intro run_Cons [where s' = sample_backend] run_Cons [where s' = s]
        run_Cons [where s' = "thread_exit 1 s"] run_Nil step_exit)
  from logger_refines_queues [OF s0 r] r show ?thesis by blast
qed

end
