(* ===== verification/Merge.thy ===== *)
theory Merge
  imports LogSystem "HOL-Library.Multiset" "HOL-Library.Sublist"
begin

section \<open>Merging queues by stamp\<close>

text \<open>
  The order in which a worker that always takes a front element with the smallest stamp empties a family
  of queues: if every queue is sorted, the result is sorted, it is made of exactly the elements of the
  queues, and every queue is a subsequence of it.
\<close>

inductive drains :: "('r \<Rightarrow> nat) \<Rightarrow> ('p \<Rightarrow> 'r list) \<Rightarrow> 'r list \<Rightarrow> bool" for stamp where
  drains_Nil: "\<forall>p. q p = [] \<Longrightarrow> drains stamp q []"
| drains_Cons: "q p = r # rs \<Longrightarrow> \<forall>p' r' rs'. q p' = r' # rs' \<longrightarrow> stamp r \<le> stamp r' \<Longrightarrow>
     drains stamp (q(p := rs)) out \<Longrightarrow> drains stamp q (r # out)"

text \<open>All elements of a finite family.\<close>

definition all_of :: "'p set \<Rightarrow> ('p \<Rightarrow> 'r list) \<Rightarrow> 'r multiset" where
  "all_of P q = (\<Sum>p\<in>P. mset (q p))"

lemma all_of_empty: "\<forall>p \<in> P. q p = [] \<Longrightarrow> all_of P q = {#}"
  by (simp add: all_of_def)

lemma all_of_remove:
  assumes "finite P" "p \<in> P" "q p = r # rs"
  shows "all_of P q = add_mset r (all_of P (q(p := rs)))"
proof -
  have "(\<Sum>x\<in>P - {p}. mset ((q(p := rs)) x)) = (\<Sum>x\<in>P - {p}. mset (q x))"
    by (rule sum.cong) auto
  then show ?thesis using assms by (simp add: all_of_def sum.remove [OF assms(1,2)])
qed

lemma set_all_of: "finite P \<Longrightarrow> set_mset (all_of P q) = (\<Union>p\<in>P. set (q p))"
  by (induction P rule: finite_induct) (auto simp: all_of_def)

lemma size_all_of: "finite P \<Longrightarrow> size (all_of P q) = (\<Sum>p\<in>P. length (q p))"
  by (induction P rule: finite_induct) (auto simp: all_of_def)

lemma drains_mset:
  "drains stamp q out \<Longrightarrow> finite P \<Longrightarrow> \<forall>p. q p \<noteq> [] \<longrightarrow> p \<in> P \<Longrightarrow> mset out = all_of P q"
proof (induction rule: drains.induct)
  case (drains_Nil q)
  then show ?case by (simp add: all_of_empty)
next
  case (drains_Cons q p r rs out)
  then have "p \<in> P" by auto
  moreover have "\<forall>p'. (q(p := rs)) p' \<noteq> [] \<longrightarrow> p' \<in> P" using drains_Cons.prems(2) \<open>p \<in> P\<close> by auto
  ultimately show ?case
    using drains_Cons.IH drains_Cons.prems(1) all_of_remove [of P p q r rs] drains_Cons.hyps(1)
    by (simp del: fun_upd_apply)
qed

text \<open>The element taken first has the smallest stamp of all elements.\<close>

lemma sorted_queues_min:
  assumes "\<forall>p. sorted (map stamp (q p))" "\<forall>p' r' rs'. q p' = r' # rs' \<longrightarrow> k \<le> stamp r'" "x \<in> set (q p)"
  shows "k \<le> stamp x"
proof -
  obtain r rs where r: "q p = r # rs" using assms(3) by (cases "q p") auto
  then have "stamp r \<le> stamp x" using assms(1,3) by (metis list.simps(9) order_refl set_ConsD sorted_simps(2) imageI list.set_map)
  with assms(2) r show ?thesis by (meson order_trans)
qed

lemma drains_elements: "drains stamp q out \<Longrightarrow> x \<in> set out \<Longrightarrow> \<exists>p. x \<in> set (q p)"
proof (induction rule: drains.induct)
  case (drains_Cons q p r rs out)
  show ?case
  proof (cases "x = r")
    case True
    with drains_Cons.hyps(1) show ?thesis by (metis list.set_intros(1))
  next
    case False
    with drains_Cons obtain p' where "x \<in> set ((q(p := rs)) p')" by auto
    with drains_Cons.hyps(1) show ?thesis by (metis fun_upd_apply list.set_intros(2))
  qed
qed simp

lemma drains_sorted:
  "drains stamp q out \<Longrightarrow> \<forall>p. sorted (map stamp (q p)) \<Longrightarrow> sorted (map stamp out)"
proof (induction rule: drains.induct)
  case (drains_Cons q p r rs out)
  have s: "sorted (map stamp ((q(p := rs)) p'))" for p'
    using spec [OF drains_Cons.prems, of p'] drains_Cons.hyps(1) by auto
  have "stamp r \<le> stamp x" if x: "x \<in> set out" for x
  proof -
    obtain p' where "x \<in> set ((q(p := rs)) p')" using drains_elements [OF drains_Cons.hyps(3) x] by blast
    then have "x \<in> set (q p')" using drains_Cons.hyps(1) by (auto split: if_splits)
    then show ?thesis by (rule sorted_queues_min [OF drains_Cons.prems drains_Cons.hyps(2)])
  qed
  with drains_Cons.IH s show ?case by auto
qed simp

lemma drains_subseq: "drains stamp q out \<Longrightarrow> subseq (q p) out"
proof (induction rule: drains.induct)
  case (drains_Cons q p' r rs out)
  then show ?case by (cases "p = p'") auto
qed simp

subsection \<open>A worker that merges\<close>

text \<open>The outputs for the elements taken, one at each of the times given.\<close>

definition outputs :: "('t \<Rightarrow> 'r \<Rightarrow> 'o \<Rightarrow> bool) \<Rightarrow> 't list \<Rightarrow> 'r list \<Rightarrow> 'o list \<Rightarrow> bool" where
  "outputs written nows out ls \<longleftrightarrow> length out = length nows \<and>
     list_all2 (\<lambda>(now, r) l. written now r l) (zip nows out) ls"

lemma outputs_simps [simp]:
  "outputs written [] [] []"
  "outputs written (now # nows) (r # out) (l # ls) \<longleftrightarrow> written now r l \<and> outputs written nows out ls"
  by (auto simp: outputs_def)

lemma outputs_length: "outputs written nows out ls \<Longrightarrow> length ls = length nows"
  by (auto simp: outputs_def dest: list_all2_lengthD)

text \<open>
  The contract: while elements are pending, a step at a good time takes a front element with the smallest
  stamp and writes something for it. Then as many steps as there are elements empty the queues.
\<close>

locale merging_worker =
  fixes ready :: "('p \<Rightarrow> 'r list) \<Rightarrow> 's \<Rightarrow> bool"
    and step :: "'s \<Rightarrow> 't \<times> 'o \<Rightarrow> 's \<Rightarrow> bool"
    and good :: "'t \<Rightarrow> bool"
    and written :: "'t \<Rightarrow> 'r \<Rightarrow> 'o \<Rightarrow> bool"
    and stamp :: "'r \<Rightarrow> nat"
  assumes takes_oldest: "ready q s \<Longrightarrow> good now \<Longrightarrow> q p0 \<noteq> [] \<Longrightarrow>
    \<exists>p r rs l s'. step s (now, l) s' \<and> q p = r # rs
      \<and> (\<forall>p' r' rs'. q p' = r' # rs' \<longrightarrow> stamp r \<le> stamp r') \<and> written now r l \<and> ready (q(p := rs)) s'"

context merging_worker
begin

lemma empties:
  assumes "ready q s" "\<forall>now \<in> set nows. good now" "finite P" "\<forall>p. q p \<noteq> [] \<longrightarrow> p \<in> P"
    and "length nows = (\<Sum>p\<in>P. length (q p))"
  shows "\<exists>out ls s'. run step s (zip nows ls) s' \<and> drains stamp q out \<and> outputs written nows out ls
    \<and> ready (\<lambda>_. []) s'"
  using assms
proof (induction nows arbitrary: q s)
  case Nil
  have "\<forall>p \<in> P. q p = []" using Nil.prems(3,5) by simp
  with Nil.prems(4) have e: "q p = []" for p by blast
  then have "q = (\<lambda>_. [])" by auto
  moreover have "drains stamp q []" using e by (intro drains_Nil) simp
  ultimately show ?case
    using Nil.prems(1) by (intro exI [of _ "[]"] exI [of _ s]) (simp add: run_Nil)
next
  case (Cons now nows)
  have "\<exists>p. q p \<noteq> []"
  proof (rule ccontr)
    assume "\<nexists>p. q p \<noteq> []"
    with Cons.prems(5) show False by simp
  qed
  then obtain p0 where p0: "q p0 \<noteq> []" by blast
  have now: "good now" "\<forall>now \<in> set nows. good now" using Cons.prems(2) by simp_all
  obtain p r rs l s1 where i: "step s (now, l) s1" "q p = r # rs"
    "\<forall>p' r' rs'. q p' = r' # rs' \<longrightarrow> stamp r \<le> stamp r'" "written now r l" "ready (q(p := rs)) s1"
    using takes_oldest [OF Cons.prems(1) now(1) p0] by (elim exE conjE)
  have P: "p \<in> P" using Cons.prems(4) i(2) by auto
  have "size (all_of P q) = size (all_of P (q(p := rs))) + 1"
    using all_of_remove [of P p q r rs] Cons.prems(3) P i(2) by simp
  then have len: "length nows = (\<Sum>p'\<in>P. length ((q(p := rs)) p'))"
    using Cons.prems(3,5) by (simp add: size_all_of del: fun_upd_apply)
  have P': "\<forall>p'. (q(p := rs)) p' \<noteq> [] \<longrightarrow> p' \<in> P" using Cons.prems(4) P by auto
  obtain out ls s' where IH: "run step s1 (zip nows ls) s'" "drains stamp (q(p := rs)) out"
    "outputs written nows out ls" "ready (\<lambda>_. []) s'"
    using Cons.IH [OF i(5) now(2) Cons.prems(3) P' len] by (elim exE conjE)
  have "run step s (zip (now # nows) (l # ls)) s'" using run_Cons [OF i(1) IH(1)] by simp
  moreover have "drains stamp q (r # out)" using i(2,3) IH(2) by (rule drains_Cons)
  moreover have "outputs written (now # nows) (r # out) (l # ls)" using i(4) IH(3) by simp
  ultimately show ?case using IH(4) by blast
qed

end

end
