(* ===== verification/Drain.thy ===== *)
theory Drain
  imports QueueSpec Merge
begin

section \<open>The worker empties the buffers in the order of the stamps\<close>

text \<open>
  While the threads are quiet the worker takes one record in each iteration: the line of the record with
  the smallest stamp is appended to what has been written, until every buffer is empty. The records are
  those of statements the backend can format, the log buffer has room for their lines, and the clock is
  in the range of the broken-down times.
\<close>

subsection \<open>Members and buffers that an iteration keeps\<close>

lemma io_scan_heap:
  "io_scan ps h e = Inr (kept, h', e') \<Longrightarrow> distinct ps \<Longrightarrow>
     h' q = (if q \<in> set ps then Option.bind (h q) (\<lambda>b. map_option fst (visit_buffer b)) else h q)"
proof (induction ps arbitrary: h e kept)
  case (Cons p ps)
  then obtain b where b: "h p = Some b" by (cases "h p") auto
  show ?case
  proof (cases "visit_buffer b")
    case None
    with Cons.prems b have "io_scan ps (h(p := None)) e = Inr (kept, h', e')" "p \<notin> set ps" "distinct ps"
      by simp_all
    from Cons.IH [OF this(1,3)] this(2) b None show ?thesis by auto
  next
    case (Some x)
    obtain b' y where x: "x = (b', y)" by (cases x)
    with Cons.prems b Some obtain kept' where
      "io_scan ps (h(p \<mapsto> b')) (earlier y p e) = Inr (kept', h', e')" "p \<notin> set ps" "distinct ps"
      by (auto simp: sum_bind_Inr_iff)
    from Cons.IH [OF this(1,3)] this(2) b Some x show ?thesis by auto
  qed
qed simp

lemma write_log_members [simp]:
  "staging_ptr (write_log l s) = staging_ptr s" "is_exit (write_log l s) = is_exit s"
  "is_stop (write_log l s) = is_stop s" "heap (write_log l s) = heap s"
  "current_log_level (write_log l s) = current_log_level s"
  by (auto simp: write_log_def split: option.split)

lemma processLogBuffer_members:
  "processLogBuffer w now p s = Inr s' \<Longrightarrow>
     staging_ptr s' = staging_ptr s \<and> is_exit s' = is_exit s \<and> is_stop s' = is_stop s
       \<and> current_log_level s' = current_log_level s"
  by (auto simp: processLogBuffer_def Let_def sum_bind_Inr_iff split: if_splits option.splits prod.splits)

lemma ioPoll_iteration_frame:
  "ioPoll_iteration w now s = Inr (x, s') \<Longrightarrow>
     staging_ptr s' = staging_ptr s \<and> is_exit s' = is_exit s \<and> is_stop s' = is_stop s
       \<and> current_log_level s' = current_log_level s"
  by (auto simp: ioPoll_iteration_def Let_def sum_bind_Inr_iff split: if_splits option.splits
      dest!: processLogBuffer_members)

lemma after_scan_members [simp]:
  "is_exit (after_scan s h') = is_exit s" "is_stop (after_scan s h') = is_stop s"
  "files (after_scan s h') = files s" "outfd (after_scan s h') = outfd s"
  "fdflush_joinable (after_scan s h') = fdflush_joinable s" "heap (after_scan s h') = h'"
  "staging_ptr (after_scan s h') = staging_ptr s"
  by (simp_all add: after_scan_def)

subsection \<open>Statements and lines\<close>

definition clock_ok :: "surroundings \<Rightarrow> nat \<Rightarrow> bool" where
  "clock_ok w now \<longleftrightarrow> now < 2 ^ 64 \<and> (\<exists>t. localtime_of w (now div 1000000000) = Some t \<and> tm_ok t)"

text \<open>
  An executed statement: its call site, the items of the format, the arguments, the message \<^verbatim>\<open>printf\<close>
  gives for them and the cycle counter. The queues of this theory hold statements.
\<close>

datatype statement =
  Statement (st_site: call_site) (st_items: "item list") (st_args: "arg list") (st_message: string) (st_stamp: nat)

definition st_info :: "statement \<Rightarrow> StaticInfo" where
  "st_info st = site_info (st_site st) (st_items st)"

definition record_of :: "statement \<Rightarrow> byte list" where
  "record_of st = statement_record (st_site st) (st_info st) (st_args st) (st_stamp st)"

lemma record_stamp_of: "st_stamp st < UINT64_MAX \<Longrightarrow> record_stamp (record_of st) = st_stamp st"
  by (simp add: record_of_def record_stamp_statement)

text \<open>The statement is one the worker can format in a log buffer of the size given.\<close>

definition formattable :: "surroundings \<Rightarrow> nat \<Rightarrow> statement \<Rightarrow> bool" where
  "formattable w room st \<longleftrightarrow> statement_ok w (st_site st) (st_items st) (st_args st) (st_message st)
     \<and> 2 * (TIEMSTAMP_PREFIX_LEN + length (call_info_text (st_info st))) + length (st_message st) < room
     \<and> st_stamp st < UINT64_MAX"

definition printable :: "surroundings \<Rightarrow> (nat \<Rightarrow> 64 word list) \<Rightarrow> nat \<Rightarrow> statement \<Rightarrow> bool" where
  "printable w sizes room st \<longleftrightarrow> formattable w room st
     \<and> sizes_match (st_args st) (map unat (sizes (param_size_addr (st_site st))))"

text \<open>The line written for a statement at a time.\<close>

definition line_of :: "surroundings \<Rightarrow> nat \<Rightarrow> statement \<Rightarrow> string \<Rightarrow> bool" where
  "line_of w now st line_text \<longleftrightarrow>
     (\<exists>t gap. localtime_of w (now div 1000000000) = Some t
        \<and> line_text = line_prefix t now (st_info st) @ st_message st @ gap @ [CHR 0x0A]
        \<and> length gap = length (line_prefix t now (st_info st)))"

lemma process_printable:
  assumes b: "heap s p = Some b" "sb_records b (record_of st # rs)"
    and pr: "printable w (param_sizes s) (bufflen (log_buf s)) st" and now: "clock_ok w now"
    and room: "bufflen (log_buf s) < 2 ^ 31" and out: "outfd s \<noteq> None"
  shows "\<exists>l lb' b'. processLogBuffer w now p s =
      Inr ((write_log l (s\<lparr>log_buf := lb'\<rparr>))\<lparr>heap := (heap s)(p \<mapsto> b')\<rparr>)
    \<and> sb_records b' rs \<and> should_deallocate b' = should_deallocate b
    \<and> bufflen lb' = bufflen (log_buf s) \<and> line_of w now st l"
proof -
  let ?info = "site_info (st_site st) (st_items st)"
  have ok: "statement_ok w (st_site st) (st_items st) (st_args st) (st_message st)"
    and sizes: "sizes_match (st_args st) (map unat (param_sizes s (param_size_addr (st_site st))))"
    and fits: "2 * (TIEMSTAMP_PREFIX_LEN + length (call_info_text ?info)) + length (st_message st)
      < bufflen (log_buf s)"
    using pr by (simp_all add: printable_def formattable_def st_info_def)
  obtain t where t: "now < 2 ^ 64" "localtime_of w (now div 1000000000) = Some t" "tm_ok t"
    using now by (auto simp: clock_ok_def)
  have "length (time_text t (now mod 1000000000)) = TIEMSTAMP_PREFIX_LEN"
    using t(3) by (rule length_time_text) simp
  then have "2 * length (line_prefix t now ?info) + length (st_message st) < bufflen (log_buf s)"
    using fits by (simp add: line_prefix_def)
  from processLogBuffer_statement [OF ok refl b(1) b(2) [unfolded record_of_def st_info_def] t sizes refl this room out]
  obtain lb' b' gap where p: "processLogBuffer w now p s =
      Inr ((write_log (line_prefix t now ?info @ st_message st @ gap @ [CHR 0x0A]) (s\<lparr>log_buf := lb'\<rparr>))
             \<lparr>heap := (heap s)(p \<mapsto> b')\<rparr>)"
    "sb_records b' rs" "should_deallocate b' = should_deallocate b"
    "length gap = length (line_prefix t now ?info)" "bufflen lb' = bufflen (log_buf s)"
    by blast
  have "line_of w now st (line_prefix t now ?info @ st_message st @ gap @ [CHR 0x0A])"
    unfolding line_of_def st_info_def using t(2) p(4) by blast
  then show ?thesis using p(1-3,5) by (intro exI conjI)
qed

subsection \<open>A backend that only has to write\<close>

definition holds_queues :: "backend \<Rightarrow> (nat \<Rightarrow> byte list list) \<Rightarrow> bool" where
  "holds_queues s q \<longleftrightarrow> (\<forall>p. case heap s p of None \<Rightarrow> q p = [] | Some b \<Rightarrow> sb_records b (q p))"

definition records_of :: "(nat \<Rightarrow> statement list) \<Rightarrow> nat \<Rightarrow> byte list list" where
  "records_of q p = map record_of (q p)"

lemma records_of_upd: "records_of (q(p := sts)) = (records_of q)(p := map record_of sts)"
  by (simp add: records_of_def fun_eq_iff)

lemma records_of_Nil [simp]: "records_of (\<lambda>_. []) = (\<lambda>_. [])" "records_of q p = [] \<longleftrightarrow> q p = []"
  by (simp_all add: records_of_def fun_eq_iff)

definition drainable :: "surroundings \<Rightarrow> (nat \<Rightarrow> statement list) \<Rightarrow> backend \<Rightarrow> bool" where
  "drainable w q s \<longleftrightarrow> backend_inv s \<and> \<not> is_exit s \<and> holds_queues s (records_of q)
     \<and> bufflen (log_buf s) < 2 ^ 31 \<and> (\<exists>f off c. outfd s = Some (f, off) \<and> files s f = Some c)
     \<and> (\<forall>p. \<forall>st \<in> set (q p). printable w (param_sizes s) (bufflen (log_buf s)) st)"

definition as_spec :: "backend \<Rightarrow> (nat \<Rightarrow> byte list list) \<Rightarrow> spec" where
  "as_spec s q = \<lparr>spec_level = getLogLevel s, owner = staging_ptr s,
     queues = (\<lambda>p. if heap s p = None then None else Some (q p))\<rparr>"

lemma holds_queuesD: "holds_queues s q \<Longrightarrow> heap s p = Some b \<Longrightarrow> sb_records b (q p)"
  unfolding holds_queues_def by (drule spec [of _ p]) simp

lemma holds_queues_nonempty: "holds_queues s q \<Longrightarrow> q p \<noteq> [] \<Longrightarrow> \<exists>b. heap s p = Some b"
  unfolding holds_queues_def by (drule spec [of _ p], cases "heap s p") simp_all

lemma holds_queuesI:
  assumes "\<And>p. heap s p = None \<Longrightarrow> q p = []" "\<And>p b. heap s p = Some b \<Longrightarrow> sb_records b (q p)"
  shows "holds_queues s q"
  using assms by (auto simp: holds_queues_def split: option.split)

lemma simulates_as_spec: "holds_queues s q \<Longrightarrow> simulates s (as_spec s q)"
  by (rule simulatesI) (auto simp: as_spec_def dest: holds_queuesD)

text \<open>What the scan leaves of the queues.\<close>

lemma holds_queues_scan:
  assumes "backend_inv s" "scanned (heap s) (thread_buffers s) h'" "holds_queues s q"
  shows "holds_queues (after_scan s h') q"
proof (rule holds_queuesI)
  note sc = scan_queues [OF assms(1,2) simulates_as_spec [OF assms(3)]]
  fix p
  show "q p = []" if "heap (after_scan s h') p = None"
    using sc [of p] that holds_queues_nonempty [OF assms(3), of p]
    by (auto simp: after_scan_def as_spec_def split: if_splits)
  show "sb_records b (q p)" if "heap (after_scan s h') p = Some b" for b
    using sc [of p] that by (auto simp: after_scan_def as_spec_def split: if_splits)
qed

text \<open>The thread of every buffer after the scan has ended exactly if it had before.\<close>

definition same_owners :: "backend \<Rightarrow> backend \<Rightarrow> bool" where
  "same_owners s s' \<longleftrightarrow> (\<forall>p b'. heap s' p = Some b' \<longrightarrow>
     (\<exists>b. heap s p = Some b \<and> should_deallocate b' = should_deallocate b))"

lemma same_owners_trans: "same_owners s s1 \<Longrightarrow> same_owners s1 s2 \<Longrightarrow> same_owners s s2"
  unfolding same_owners_def by metis

lemma same_owners_scan:
  assumes "backend_inv s" "scanned (heap s) (thread_buffers s) h'"
  shows "same_owners s (after_scan s h')"
  unfolding same_owners_def
proof (intro allI impI)
  fix p b'
  assume b': "heap (after_scan s h') p = Some b'"
  note reg = backend_invD(1) [OF assms(1)]
  have p: "p \<in> set (thread_buffers s)"
  proof (rule ccontr)
    assume n: "p \<notin> set (thread_buffers s)"
    with registered_iff [OF reg, of p] have "heap s p = None" by simp
    with scanned_other [OF assms(2) n] b' show False by (simp add: after_scan_def)
  qed
  then obtain b where b: "heap s p = Some b" using registered_iff [OF reg] by blast
  obtain rs where "sb_records b rs" using registered_records [OF reg b] by blast
  with scanned_kept [OF assms(2) p _ b] scanned_deleted [OF assms(2) p] b b'
  show "\<exists>b. heap s p = Some b \<and> should_deallocate b' = should_deallocate b"
    by (cases "deletable (heap s) p") (auto simp: after_scan_def)
qed

subsection \<open>One iteration\<close>

lemma drain_iteration:
  assumes dr: "drainable w q s" and now: "clock_ok w now" and ne: "q p0 \<noteq> []"
    and out: "outfd s = Some (f, off)" "files s f = Some c"
  shows "\<exists>p st sts l s'. ioPoll_iteration w now s = Inr (Processed p, s') \<and> q p = st # sts
    \<and> (\<forall>p' st' sts'. q p' = st' # sts' \<longrightarrow> st_stamp st \<le> st_stamp st')
    \<and> line_of w now st l \<and> drainable w (q(p := sts)) s' \<and> same_owners s s' \<and> is_stop s' = is_stop s
    \<and> outfd s' = Some (f, off + length l) \<and> files s' = (files s)(f \<mapsto> overwrite c off l)
    \<and> bufflen (log_buf s') = bufflen (log_buf s)"
proof -
  note dr' = dr [unfolded drainable_def]
  have inv: "backend_inv s" and hq: "holds_queues s (records_of q)" and run: "\<not> is_exit s"
    and room: "bufflen (log_buf s) < 2 ^ 31"
    and pr: "\<And>p st. st \<in> set (q p) \<Longrightarrow> printable w (param_sizes s) (bufflen (log_buf s)) st"
    using dr' by auto
  have st: "record_stamp (record_of st) = st_stamp st" "st_stamp st < UINT64_MAX" if "st \<in> set (q p)" for st p
    using pr [OF that] by (auto simp: printable_def formattable_def record_stamp_of)
  note reg = backend_invD(1) [OF inv]
  obtain b0 where b0: "heap s p0 = Some b0" using holds_queues_nonempty [OF hq, of p0] ne by auto
  then have p0: "p0 \<in> set (thread_buffers s)" using registered_iff [OF reg] by blast
  then have loop: "\<not> is_stop s \<or> thread_buffers s \<noteq> []" by auto
  obtain r0 rs0 where r0: "q p0 = r0 # rs0" using ne by (cases "q p0") auto
  have rec0: "sb_records b0 (record_of r0 # map record_of rs0)"
    using holds_queuesD [OF hq b0] r0 by (simp add: records_of_def)
  from inv run loop show ?thesis
  proof (cases rule: ioPoll_iteration_cases [where w = w and now = now])
    case (wait h' m)
    with p0 b0 rec0 have "UINT64_MAX \<le> record_stamp (record_of r0)" by (auto simp: oldest_choice_def)
    with st [of r0 p0] r0 show ?thesis by simp
  next
    case (choice h' m p)
    obtain r rs where r: "queues (as_spec s (records_of q)) p = Some (r # rs)" "record_stamp r = m"
      "\<And>p' r' rs'. queues (as_spec s (records_of q)) p' = Some (r' # rs') \<Longrightarrow> m \<le> record_stamp r'"
      using chosen_queue [OF simulates_as_spec [OF hq] choice(3) reg] by metis
    then obtain x xs where qp: "q p = x # xs" "r = record_of x" "rs = map record_of xs"
      by (auto simp: as_spec_def records_of_def split: if_splits)
    have m: "m = st_stamp x" using r(2) st [of x p] qp by simp
    have min: "st_stamp x \<le> st_stamp st'" if q': "q p' = st' # sts'" for p' st' sts'
    proof -
      obtain b where "heap s p' = Some b" using holds_queues_nonempty [OF hq, of p'] q' by auto
      with q' m r(3) [of p' "record_of st'" "map record_of sts'"] st [of st' p'] show ?thesis
        by (simp add: as_spec_def records_of_def)
    qed
    let ?s = "after_scan s h'"
    have hq': "holds_queues ?s (records_of q)" by (rule holds_queues_scan [OF inv choice(2) hq])
    have inv': "backend_inv ?s" by (rule after_scan_inv [OF inv choice(2)])
    have same: "param_sizes ?s = param_sizes s" "log_buf ?s = log_buf s" "outfd ?s = Some (f, off)"
      "files ?s = files s" "files s f = Some c" "is_exit ?s = is_exit s" "is_stop ?s = is_stop s"
      using out by (simp_all add: after_scan_def)
    obtain b where b: "heap ?s p = Some b" using holds_queues_nonempty [OF hq', of p] qp by auto
    have rec: "sb_records b (record_of x # rs)" using holds_queuesD [OF hq' b] qp by (simp add: records_of_def)
    obtain l lb' b' where p: "processLogBuffer w now p ?s =
        Inr ((write_log l (?s\<lparr>log_buf := lb'\<rparr>))\<lparr>heap := (heap ?s)(p \<mapsto> b')\<rparr>)" (is "_ = Inr ?s'")
      "sb_records b' rs" "should_deallocate b' = should_deallocate b"
      "bufflen lb' = bufflen (log_buf s)" "line_of w now x l"
      using process_printable [OF b rec _ now, unfolded same] pr [of x p] qp room by auto
    have "holds_queues ?s' (records_of (q(p := xs)))"
      unfolding records_of_upd
    proof (rule holds_queuesI)
      fix p'
      show "((records_of q)(p := map record_of xs)) p' = []" if "heap ?s' p' = None"
        using that holds_queues_nonempty [OF hq', of p'] by (auto split: if_splits)
      show "sb_records a (((records_of q)(p := map record_of xs)) p')" if "heap ?s' p' = Some a" for a
        using that p(2) qp(3) holds_queuesD [OF hq', of p'] by (auto split: if_splits)
    qed
    moreover have "backend_inv ?s'" using inv' p(1) by (rule process_inv)
    moreover have sub: "set ((q(p := xs)) p') \<subseteq> set (q p')" for p' using qp by auto
    have "\<forall>p'. \<forall>st \<in> set ((q(p := xs)) p'). printable w (param_sizes s) (bufflen (log_buf s)) st"
      using pr sub by blast
    ultimately have "drainable w (q(p := xs)) ?s'"
      using run room p(4) same by (simp add: drainable_def write_log_def)
    moreover have "same_owners ?s ?s'" using p(3) b by (auto simp: same_owners_def)
    then have "same_owners s ?s'" using same_owners_scan [OF inv choice(2)] same_owners_trans by blast
    moreover have "outfd ?s' = Some (f, off + length l)" "files ?s' = (files s)(f \<mapsto> overwrite c off l)"
      "is_stop ?s' = is_stop s" "bufflen (log_buf ?s') = bufflen (log_buf s)"
      using same p(4) by (simp_all add: write_log_def)
    moreover have "ioPoll_iteration w now s = Inr (Processed p, ?s')" using choice(1) p(1) by simp
    ultimately show ?thesis using qp(1) min p(5) by blast
  qed
qed

subsection \<open>Until nothing is pending\<close>

lemma overwrite_Nil: "off \<le> length c \<Longrightarrow> overwrite c off [] = c"
  by (simp add: overwrite_def)

lemma overwrite_append: "overwrite (overwrite c off a) (off + length a) b = overwrite c off (a @ b)"
proof -
  have "min (length c) off + (off - length c) = off" by simp
  then show ?thesis by (simp add: overwrite_def ac_simps)
qed

lemma length_overwrite: "off + length a \<le> length (overwrite c off a)"
  by (simp add: overwrite_def)

lemma drainable_upd [simp]:
  "drainable w q (s\<lparr>fdflush := x\<rparr>) = drainable w q s" "drainable w q (s\<lparr>is_stop := y\<rparr>) = drainable w q s"
  by (simp_all add: drainable_def backend_inv_def holds_queues_def)

lemma same_owners_upd [simp]: "same_owners (s\<lparr>fdflush := x\<rparr>) s' = same_owners s s'"
  by (simp add: same_owners_def)

text \<open>
  One iteration as a step of the merging worker: the time and the line it writes. The lines of \<open>lines_of\<close>
  are those of the statements taken, at the times of their processing.
\<close>

definition poll_writes :: "surroundings \<Rightarrow> backend \<Rightarrow> nat \<times> string \<Rightarrow> backend \<Rightarrow> bool" where
  "poll_writes w s e s' \<longleftrightarrow>
     (\<exists>p. ioPoll_iteration w (fst e) (s\<lparr>fdflush := Running\<rparr>) = Inr (Processed p, s'))
     \<and> (\<forall>f off c. outfd s = Some (f, off) \<longrightarrow> files s f = Some c \<longrightarrow>
          outfd s' = Some (f, off + length (snd e)) \<and> files s' = (files s)(f \<mapsto> overwrite c off (snd e)))
     \<and> same_owners s s' \<and> is_stop s' = is_stop s"

definition lines_of :: "surroundings \<Rightarrow> nat list \<Rightarrow> statement list \<Rightarrow> string list \<Rightarrow> bool" where
  "lines_of w = outputs (line_of w)"

interpretation poll: merging_worker "drainable w" "poll_writes w" "clock_ok w" "line_of w" st_stamp for w
proof unfold_locales
  fix q s now p0
  assume dr: "drainable w q s" and now: "clock_ok w now" and ne: "q p0 \<noteq> []"
  let ?s = "s\<lparr>fdflush := Running\<rparr>"
  obtain f off c where out: "outfd s = Some (f, off)" "files s f = Some c"
    using dr by (auto simp: drainable_def)
  have d: "drainable w q ?s" "outfd ?s = Some (f, off)" "files ?s f = Some c" using dr out by simp_all
  obtain p st sts l s' where i: "ioPoll_iteration w now ?s = Inr (Processed p, s')" "q p = st # sts"
    "\<forall>p' st' sts'. q p' = st' # sts' \<longrightarrow> st_stamp st \<le> st_stamp st'" "line_of w now st l"
    "drainable w (q(p := sts)) s'" "same_owners ?s s'" "is_stop s' = is_stop ?s"
    "outfd s' = Some (f, off + length l)" "files s' = (files ?s)(f \<mapsto> overwrite c off l)"
    "bufflen (log_buf s') = bufflen (log_buf ?s)"
    using drain_iteration [OF d(1) now ne d(2,3)] by (elim exE conjE)
  have "poll_writes w s (now, l) s'" using i(1,6-9) out by (simp add: poll_writes_def)
  then show "\<exists>p r rs l s'. poll_writes w s (now, l) s' \<and> q p = r # rs
      \<and> (\<forall>p' r' rs'. q p' = r' # rs' \<longrightarrow> st_stamp r \<le> st_stamp r') \<and> line_of w now r l \<and> drainable w (q(p := rs)) s'"
    using i(2-5) by blast
qed

text \<open>A run of such steps is a run of \<^verbatim>\<open>ioPoll\<close>, and its lines stand one after the other in the file.\<close>

lemma run_poll_writes:
  "run (poll_writes w) s (zip nows ls) s' \<Longrightarrow> length ls = length nows \<Longrightarrow>
     outfd s = Some (f, off) \<Longrightarrow> files s f = Some c \<Longrightarrow> off \<le> length c \<Longrightarrow>
     ioPoll w nows s = Inr (Wait, s') \<and> files s' = (files s)(f \<mapsto> overwrite c off (concat ls)) \<and> same_owners s s'
       \<and> is_stop s' = is_stop s"
proof (induction nows arbitrary: s ls c off)
  case Nil
  then show ?case by (auto simp: overwrite_Nil fun_upd_idem same_owners_def elim: run.cases)
next
  case (Cons now nows)
  then obtain l ls' where ls: "ls = l # ls'" "length ls' = length nows" by (cases ls) auto
  with Cons.prems(1) obtain s1 where s1: "poll_writes w s (now, l) s1" "run (poll_writes w) s1 (zip nows ls') s'"
    by (auto elim: run.cases)
  obtain p where p: "ioPoll_iteration w now (s\<lparr>fdflush := Running\<rparr>) = Inr (Processed p, s1)"
    and o: "outfd s1 = Some (f, off + length l)" "files s1 = (files s)(f \<mapsto> overwrite c off l)"
    and k: "same_owners s s1" "is_stop s1 = is_stop s"
    using s1(1) Cons.prems(3,4) by (auto simp: poll_writes_def)
  have "files s1 f = Some (overwrite c off l)" using o(2) by simp
  note IH = Cons.IH [OF s1(2) ls(2) o(1) this length_overwrite]
  then have "files s' = (files s)(f \<mapsto> overwrite c off (concat ls))" using o(2) ls(1) by (simp add: overwrite_append del: fun_upd_apply)
  with IH p k same_owners_trans [OF k(1)] show ?case by simp
qed

lemma ioPoll_drains:
  assumes "drainable w q s" "outfd s = Some (f, off)" "files s f = Some c" "off \<le> length c"
    and "\<forall>now \<in> set nows. clock_ok w now" "finite P" "\<forall>p. q p \<noteq> [] \<longrightarrow> p \<in> P"
    and "length nows = (\<Sum>p\<in>P. length (q p))"
  shows "\<exists>out ls s'. ioPoll w nows s = Inr (Wait, s') \<and> drains st_stamp q out \<and> lines_of w nows out ls
    \<and> files s' = (files s)(f \<mapsto> overwrite c off (concat ls)) \<and> drainable w (\<lambda>_. []) s' \<and> same_owners s s'
    \<and> is_stop s' = is_stop s"
proof -
  obtain out ls s' where e: "run (poll_writes w) s (zip nows ls) s'" "drains st_stamp q out"
    "outputs (line_of w) nows out ls" "drainable w (\<lambda>_. []) s'"
    using poll.empties [OF assms(1,5-8)] by (elim exE conjE)
  from run_poll_writes [OF e(1) outputs_length [OF e(3)] assms(2-4)] e(2-4) show ?thesis
    by (intro exI [of _ out] exI [of _ ls] exI [of _ s']) (simp add: lines_of_def)
qed

end
