(* ===== verification/Burst.thy ===== *)
theory Burst
  imports Drain
begin

section \<open>Statements that never wait\<close>

text \<open>
  A producer waits only when its own count of free space, \<^verbatim>\<open>min_free_space_\<close>, is used up. The worker never
  changes that count, nor do the other threads, so a thread whose records since its buffer was created
  are smaller than the buffer never waits, whatever the rest of the logger does in the meantime.
\<close>

subsection \<open>The free space of a thread\<close>

text \<open>A thread without a buffer gets a new one with its next statement.\<close>

definition free_space :: "backend \<Rightarrow> nat \<Rightarrow> nat" where
  "free_space s t =
     (case staging_ptr s t of
        None \<Rightarrow> kSTAGING_BUFFER_SIZE
      | Some q \<Rightarrow> (case heap s q of None \<Rightarrow> 0 | Some b \<Rightarrow> min_free_space b))"

lemma free_space_upd [simp]: "free_space (s\<lparr>param_sizes := x\<rparr>) t = free_space s t"
  by (simp add: free_space_def split: option.split)

lemma ensure_free_space: "free_space (ensureStagingBufferAllocated t p s) t = free_space s t"
  by (auto simp: free_space_def ensureStagingBufferAllocated_def Let_def new_StagingBuffer_def)

lemma reserveAlloc_room:
  assumes "reserveAlloc t p n k s = Inr (x, s1)" "n < free_space s t"
  shows "\<exists>q. x = Reserved q" "free_space s1 t = free_space s t"
proof -
  let ?s = "ensureStagingBufferAllocated t p s"
  have eq: "(if staging_ptr s t = None then ?s else s) = ?s"
    by (simp add: ensureStagingBufferAllocated_def)
  obtain q where q: "staging_ptr ?s t = Some q"
    by (cases "staging_ptr s t") (auto simp: ensureStagingBufferAllocated_def Let_def)
  with assms(1) eq obtain b where b: "heap ?s q = Some b"
    unfolding reserveAlloc_def by (simp only: Let_def) (auto split: option.splits)
  have "n < min_free_space b" using assms(2) ensure_free_space [of t p s] q b by (simp add: free_space_def)
  with assms(1) eq q b show "\<exists>q. x = Reserved q" "free_space s1 t = free_space s t"
    unfolding reserveAlloc_def using ensure_free_space [of t p s]
    by (auto simp: Let_def reserveProducerSpace_def free_space_def)
qed

lemma finishAlloc_space: "finishAlloc t n s = Inr s' \<Longrightarrow> free_space s' t = free_space s t - n"
  by (auto simp: finishAlloc_def finishReservation_def free_space_def split: option.splits sum.splits if_splits)

lemma STATIC_LOG_room:
  assumes info: "static_info_of site = Inr info" and lev: "\<not> getLogLevel s < severity site"
    and args: "list_all arg_ok args" "length args \<le> num_params info"
    and img: "length (args_image 0 (param_types info) (- 1) args) < 2 ^ 31"
    and arr: "length (param_size_array site (num_params info) s) = num_params info + 1"
    and log: "STATIC_LOG t p reads rdtsc site args s = Inr (x, s')"
    and room: "length (statement_record site info args rdtsc) < free_space s t"
  shows "x = Logged" "free_space s' t = free_space s t - length (statement_record site info args rdtsc)"
proof -
  have len: "length (param_types info) = num_params info"
    using info by (rule static_info_of_Inr) simp
  let ?r = "statement_record site info args rdtsc"
  obtain tot pp sizes where g: "getArgSizes 0 (param_types info) (- 1)
      (param_size_array site (num_params info) s) args = Inr (tot, pp, sizes)"
    and sz: "size_arguments site info args s = Inr (tot + of_nat sizeof_LogEntry,
       s\<lparr>param_sizes := (param_sizes s)(param_size_addr site := sizes)\<rparr>)"
    using size_arguments_Inr [of args info site s] args(2) arr len by auto
  let ?a = "tot + of_nat sizeof_LogEntry" and ?s = "s\<lparr>param_sizes := (param_sizes s)(param_size_addr site := sizes)\<rparr>"
  have a: "unat ?a = length ?r" by (rule write_record_image(1) [OF args(1) g img refl])
  obtain y s1 where r: "reserveAlloc t p (length ?r) reads ?s = Inr (y, s1)"
    using log info lev sz a by (auto simp: STATIC_LOG_def sum_bind_Inr_iff lift_error_Inr_iff)
  have "length ?r < free_space ?s t" using room by simp
  note rr = reserveAlloc_room [OF r this]
  then obtain wp where y: "y = Reserved wp" by blast
  with log info lev sz a r obtain q b m where q: "staging_ptr s1 t = Some q" "heap s1 q = Some b" and
    f: "finishAlloc t (length ?r) (s1\<lparr>heap := (heap s1)(q \<mapsto> b\<lparr>storage := m\<rparr>)\<rparr>) = Inr s'" and x: "x = Logged"
    by (auto simp: STATIC_LOG_def sum_bind_Inr_iff lift_error_Inr_iff split: option.splits Option.bind_splits)
  show "x = Logged" by (rule x)
  have "free_space (s1\<lparr>heap := (heap s1)(q \<mapsto> b\<lparr>storage := m\<rparr>)\<rparr>) t = free_space s1 t"
    using q by (simp add: free_space_def)
  with finishAlloc_space [OF f] rr(2) show "free_space s' t = free_space s t - length ?r" by simp
qed

subsection \<open>What the worker and the other threads do with it\<close>

lemma visit_buffer_space: "visit_buffer b = Some (b', x) \<Longrightarrow> min_free_space b' = min_free_space b"
  by (auto simp: visit_buffer_def peek_def Let_def split: if_splits prod.splits)

lemma processLogBuffer_space:
  assumes "processLogBuffer w now p s = Inr s'"
  obtains b b' where "heap s p = Some b" "heap s' = (heap s)(p \<mapsto> b')" "min_free_space b' = min_free_space b"
proof -
  from assms obtain b where b: "heap s p = Some b" by (cases "heap s p") (auto simp: processLogBuffer_def)
  obtain raw avail b1 where pk: "peek b = ((raw, avail), b1)" by (metis prod.exhaust)
  then have "min_free_space b1 = min_free_space b" by (auto simp: peek_def Let_def split: if_splits)
  with assms b pk that show thesis
    by (auto simp: processLogBuffer_def Let_def sum_bind_Inr_iff consume_def split: if_splits)
qed

lemma free_spaceI:
  assumes "staging_ptr s' t = staging_ptr s t"
    and "\<And>q b. staging_ptr s t = Some q \<Longrightarrow> heap s q = Some b \<Longrightarrow>
      \<exists>b'. heap s' q = Some b' \<and> min_free_space b' = min_free_space b"
    and "\<And>q. staging_ptr s t = Some q \<Longrightarrow> heap s q \<noteq> None"
  shows "free_space s' t = free_space s t"
proof (cases "staging_ptr s t")
  case None
  with assms(1) show ?thesis by (simp add: free_space_def)
next
  case (Some q)
  then obtain b where b: "heap s q = Some b" using assms(3) by blast
  from assms(2) [OF Some b] assms(1) Some b show ?thesis by (auto simp: free_space_def)
qed

lemma poll_free_space:
  assumes "backend_inv s" "ioPoll_iteration w now s = Inr (x, s')"
  shows "free_space s' t = free_space s t"
proof (rule free_spaceI)
  show "staging_ptr s' t = staging_ptr s t" using ioPoll_iteration_frame [OF assms(2)] by simp
  fix q
  assume q: "staging_ptr s t = Some q"
  obtain b0 where b0: "heap s q = Some b0" "\<not> should_deallocate b0"
    using stagedD [OF backend_invD(2) [OF assms(1)] q] by blast
  then show "heap s q \<noteq> None" by simp
  fix b
  assume b: "heap s q = Some b"
  note reg = backend_invD(1) [OF assms(1)]
  have d: "distinct (thread_buffers s)" "q \<in> set (thread_buffers s)"
    using reg registered_iff [OF reg] b by (auto simp: registered_def)
  show "\<exists>b'. heap s' q = Some b' \<and> min_free_space b' = min_free_space b"
  proof (cases "x = Leave")
    case True
    with assms(2) b show ?thesis
      by (auto simp: ioPoll_iteration_def Let_def sum_bind_Inr_iff split: if_splits option.splits)
  next
    case False
    with assms(2) obtain kept h e where sc: "io_scan (thread_buffers s) (heap s) (UINT64_MAX, None) = Inr (kept, h, e)"
      and s': "heap s' = h \<or> (\<exists>p. processLogBuffer w now p (s\<lparr>thread_buffers := kept, heap := h\<rparr>) = Inr s')"
      by (auto simp: ioPoll_iteration_def Let_def sum_bind_Inr_iff split: if_splits option.splits, blast+)
    obtain b1 y where v: "visit_buffer b = Some (b1, y)"
      using b b0 by (cases "peek b") (auto simp: visit_buffer_def checkCanDelete_def)
    then have h: "h q = Some b1" "min_free_space b1 = min_free_space b"
      using io_scan_heap [OF sc d(1), of q] d(2) b visit_buffer_space by auto
    from s' show ?thesis
    proof (elim disjE exE)
      fix p
      assume "processLogBuffer w now p (s\<lparr>thread_buffers := kept, heap := h\<rparr>) = Inr s'"
      then show ?thesis by (rule processLogBuffer_space) (use h in auto)
    qed (use h in simp)
  qed
qed

lemma others_free_space:
  assumes "others_same t' p s s'" "t' \<noteq> t" "backend_inv s" "heap s p = None"
  shows "free_space s' t = free_space s t"
proof (rule free_spaceI)
  note st = backend_invD(2) [OF assms(3)]
  show "staging_ptr s' t = staging_ptr s t" using assms(1,2) by (auto simp: others_same_def split: if_splits)
  fix q
  assume q: "staging_ptr s t = Some q"
  show some: "heap s q \<noteq> None" using stagedD [OF st q] by auto
  have "staging_ptr s' t' \<noteq> Some q"
    using assms(1,2,4) q some staged_inj [OF st, of t q t'] by (auto simp: others_same_def split: if_splits)
  then have "heap s' q = heap s q" using assms(1) by (simp add: others_same_def)
  then show "\<exists>b'. heap s' q = Some b' \<and> min_free_space b' = min_free_space b" if "heap s q = Some b" for b
    using that by simp
qed

lemma exit_free_space: "backend_inv s \<Longrightarrow> free_space s t \<le> kSTAGING_BUFFER_SIZE \<Longrightarrow>
   free_space s t \<le> free_space (thread_exit t' s) t"
  by (auto simp: free_space_def thread_exit_def split: option.split)

subsection \<open>The cost of an event\<close>

text \<open>What an event can take of the free space of thread \<open>t\<close>: the size of the record of its own statements.\<close>

definition record_size :: "call_site \<Rightarrow> arg list \<Rightarrow> nat" where
  "record_size site args =
     (case static_info_of site of
        Inl _ \<Rightarrow> 0
      | Inr info \<Rightarrow> sizeof_LogEntry + length (args_image 0 (param_types info) (- 1) args))"

fun event_cost :: "nat \<Rightarrow> event \<Rightarrow> nat" where
  "event_cost t (Log t' site args rdtsc) = (if t' = t then record_size site args else 0)"
| "event_cost t _ = 0"

lemma free_space_bound:
  assumes "backend_inv s"
  shows "free_space s t \<le> kSTAGING_BUFFER_SIZE"
proof (cases "staging_ptr s t")
  case (Some q)
  then obtain b where b: "heap s q = Some b" using stagedD [OF backend_invD(2) [OF assms]] by blast
  obtain rs where "sb_records b rs" using registered_records [OF backend_invD(1) [OF assms] b] by blast
  then have "sb_inv b" by (rule sb_records_inv)
  then have "min_free_space b \<le> kSTAGING_BUFFER_SIZE" by (auto simp: sb_inv_def split: if_splits)
  with Some b show ?thesis by (simp add: free_space_def)
qed (simp add: free_space_def)

text \<open>One statement of the thread itself.\<close>

lemma own_statement:
  assumes inv: "system_inv sites s" and site: "site \<in> sites" and args: "statement_args site args"
    and log: "STATIC_LOG t p reads rdtsc site args s = Inr (x, s')"
    and room: "record_size site args < free_space s t"
  shows "x \<noteq> Blocked" "free_space s t \<le> free_space s' t + record_size site args"
proof -
  obtain info where i: "static_info_of site = Inr info" "list_all arg_ok args" "length args \<le> num_params info"
    "length (args_image 0 (param_types info) (- 1) args) < 2 ^ 31"
    using args by (rule statement_argsE)
  have rs: "record_size site args = length (statement_record site info args rdtsc)"
    using i(1) by (simp add: record_size_def length_statement_record)
  have "x \<noteq> Blocked \<and> free_space s t \<le> free_space s' t + record_size site args"
  proof (cases "getLogLevel s < severity site")
    case True
    with log i(1) show ?thesis by (simp add: STATIC_LOG_def)
  next
    case False
    note r = STATIC_LOG_room [OF i(1) False i(2-4) arrays_okD [OF system_invD(2) [OF inv] site i(1)] log room [unfolded rs]]
    then show ?thesis using rs by simp
  qed
  then show "x \<noteq> Blocked" "free_space s t \<le> free_space s' t + record_size site args" by auto
qed

lemma step_free_space:
  assumes step: "backend_step sites w can_open s e s'" and inv: "system_inv sites s"
  shows "free_space s t \<le> free_space s' t + event_cost t e"
  using step
proof cases
  case (step_log site args p t' reads rdtsc x)
  show ?thesis
  proof (cases "t' = t")
    case True
    with step_log own_statement(2) [OF inv step_log(2,3,5) [unfolded True]] show ?thesis
      by (cases "record_size site args < free_space s t") auto
  next
    case False
    obtain info where i: "static_info_of site = Inr info" "list_all arg_ok args" "length args \<le> num_params info"
      using step_log(3) by (rule statement_argsE)
    have "free_space s' t = free_space s t"
    proof (cases "getLogLevel s < severity site")
      case True
      with step_log(5) i(1) show ?thesis by (simp add: STATIC_LOG_def)
    next
      case False
      have "others_same t' p s s'"
        by (rule STATIC_LOG_frame [OF step_log(5) i(1) False i(2,3) arrays_okD [OF system_invD(2) [OF inv] step_log(2) i(1)]])
      then show ?thesis by (rule others_free_space [OF _ \<open>t' \<noteq> t\<close> system_invD(1) [OF inv] step_log(4)])
    qed
    then show ?thesis by simp
  qed
next
  case (step_preallocate p t')
  have "free_space (ensureStagingBufferAllocated t' p s) t = free_space s t"
    using ensure_free_space [of t p s] ensure_frame(2) [of t' p s]
      others_free_space [OF _ _ system_invD(1) [OF inv] step_preallocate(3)] by (cases "t' = t") auto
  with step_preallocate show ?thesis by (simp add: preallocate_def)
next
  case (step_exit t')
  with exit_free_space [OF system_invD(1) [OF inv] free_space_bound [OF system_invD(1) [OF inv]]] show ?thesis
    by simp
next
  case (step_level l)
  then show ?thesis by (simp add: setLogLevel_def Let_def free_space_def split: option.split)
next
  case step_sync
  then show ?thesis by (simp add: sync_def free_space_def split: option.split)
next
  case (step_file f)
  then show ?thesis
    by (auto simp: setLogFile_def Let_def open_log_def free_space_def split: option.split if_splits)
next
  case (step_poll now x)
  have "backend_inv (s\<lparr>fdflush := Running\<rparr>)" using system_invD(1) [OF inv] by (simp add: backend_inv_def)
  from poll_free_space [OF this step_poll(4), of t] step_poll show ?thesis
    by (simp add: free_space_def split: option.splits)
qed

lemma run_free_space:
  "run (backend_step sites w can_open) s es s' \<Longrightarrow> system_inv sites s \<Longrightarrow> inj_on param_size_addr sites \<Longrightarrow>
     free_space s t \<le> free_space s' t + sum_list (map (event_cost t) es) \<and> system_inv sites s'"
proof (induction rule: run.induct)
  case (run_Cons s e s1 es s2)
  have "system_inv sites s1" using run_Cons.hyps(1) run_Cons.prems by (rule backend_step_inv)
  with run_Cons.IH run_Cons.prems(2) step_free_space [OF run_Cons.hyps(1) run_Cons.prems(1), of t]
  show ?case by simp
qed simp

lemma statement_not_waiting:
  assumes "reachable sites w can_open s" "inj_on param_size_addr sites"
    and "run (backend_step sites w can_open) s es s1"
    and "sum_list (map (event_cost t) es) + record_size site args < free_space s t"
    and "site \<in> sites" "statement_args site args"
  shows "\<exists>s2. STATIC_LOG t p reads rdtsc site args s1 =
      Inr (if getLogLevel s1 < severity site then Dropped else Logged, s2)"
proof -
  note inv = run_free_space [OF assms(3) reachable_inv [OF assms(1,2)] assms(2), of t]
  obtain info where i: "static_info_of site = Inr info" "list_all arg_ok args" "length args \<le> num_params info"
    "length (args_image 0 (param_types info) (- 1) args) < 2 ^ 31"
    using assms(6) by (rule statement_argsE)
  show ?thesis
  proof (cases "getLogLevel s1 < severity site")
    case True
    with i(1) show ?thesis by (simp add: STATIC_LOG_def)
  next
    case False
    have sys: "system_inv sites s1" using inv by blast
    obtain rs where "thread_records s1 t rs"
      using system_invD(1) [OF sys] by (rule thread_records_ex)
    from STATIC_LOG_effect [OF i(1) False i(2-4) arrays_okD [OF system_invD(2) [OF sys] assms(5) i(1)] this, of p reads rdtsc]
    obtain x s2 where x: "STATIC_LOG t p reads rdtsc site args s1 = Inr (x, s2)" "x = Logged \<or> x = Blocked" by blast
    have "record_size site args < free_space s1 t" using inv assms(4) by linarith
    from own_statement(1) [OF sys assms(5,6) x(1) this] x False show ?thesis by auto
  qed
qed

subsection \<open>Properties\<close>

text \<open>
  C12. A statement whose record, together with those of the thread's earlier statements in the run, is
  smaller than the thread's free space at the start (the whole buffer for a thread without one) is
  logged at once, or dropped by its level: it never waits, whatever the other threads and the worker
  did in between, and even if the worker did nothing.
\<close>

theorem statements_never_wait:
  assumes "reachable sites w can_open s" "inj_on param_size_addr sites"
    and "run (backend_step sites w can_open) s es s1"
    and "sum_list (map (event_cost t) es) + record_size site args < free_space s t"
    and "site \<in> sites" "statement_args site args"
  shows "\<exists>s2. STATIC_LOG t p reads rdtsc site args s1 =
      Inr (if getLogLevel s1 < severity site then Dropped else Logged, s2)"
  using assms by (rule statement_not_waiting)

theorem statements_never_wait_witness:
  "\<exists>s1 s2. run (backend_step {sample_site} sample_surroundings (\<lambda>_. True)) sample_backend
      [Log 1 sample_site [AStr 0 ''hi''] 99] s1
    \<and> STATIC_LOG 1 6000 0 100 sample_site [AStr 0 ''hi''] s1 =
        Inr (if getLogLevel s1 < severity sample_site then Dropped else Logged, s2)"
proof -
  obtain s1 where s1: "STATIC_LOG 1 5000 0 99 sample_site [AStr 0 ''hi''] sample_backend = Inr (Logged, s1)"
    using sample_statement_logged by blast
  have "backend_step {sample_site} sample_surroundings (\<lambda>_. True) sample_backend (Log 1 sample_site [AStr 0 ''hi''] 99) s1"
    by (rule step_log [OF _ sample_statement_args _ s1]) (simp_all add: sample_backend_def)
  then have r: "run (backend_step {sample_site} sample_surroundings (\<lambda>_. True)) sample_backend
      [Log 1 sample_site [AStr 0 ''hi''] 99] s1" by (rule run_Cons [OF _ run_Nil])
  have "record_size sample_site [AStr 0 ''hi''] = 38"
    by (simp add: record_size_def sample_static_info)
       (simp add: sample_info_def param_order stored_length_def sizeof_LogEntry_def)
  moreover have "free_space sample_backend 1 = 1048576"
    by (simp add: free_space_def sample_backend_def kSTAGING_BUFFER_SIZE_def)
  ultimately have room: "sum_list (map (event_cost 1) [Log 1 sample_site [AStr 0 ''hi''] 99])
      + record_size sample_site [AStr 0 ''hi''] < free_space sample_backend 1" by simp
  have "inj_on param_size_addr {sample_site}" by simp
  from statements_never_wait [OF sample_start this r room _ sample_statement_args, of 6000 0 100] r
  show ?thesis by blast
qed

end
