(* ===== verification/Concurrent.thy ===== *)
theory Concurrent
  imports QueueSpec Burst
begin

section \<open>Statements of several threads, interleaved\<close>

text \<open>
  In \<open>LogSystem\<close> a log statement is one step. Here it is executed the way the threads execute it: the
  level check and the sizing, the reservation, each further read of the consumer's position while it
  waits, the stores through \<^verbatim>\<open>write_pos\<close>, and \<^verbatim>\<open>finishAlloc\<close> are steps of their own, and between any two
  of them other threads execute steps of their statements, the worker its iterations, and any thread
  the functions of the interface. \<open>own t\<close> is the set of the statements in the code thread \<open>t\<close> runs.
\<close>

subsection \<open>The steps of a statement\<close>

text \<open>Where a thread is in the macro, with the values it keeps in registers or on its stack.\<close>

datatype pc =
    Outside
  | At_reserve call_site "arg list" "64 word" \<comment> \<open>\<^verbatim>\<open>alloc_size\<close> computed, \<^verbatim>\<open>param_size\<close> filled\<close>
  | At_spin call_site "arg list" "64 word" \<comment> \<open>in the loop of \<^verbatim>\<open>reserveSpaceInternal\<close>\<close>
  | At_stores call_site "arg list" "64 word" nat \<comment> \<open>with \<^verbatim>\<open>write_pos\<close>\<close>
  | At_finish call_site "arg list" "64 word" nat \<comment> \<open>with the cycle counter just stored\<close>
  | Failed log_error

definition begin_statement :: "call_site \<Rightarrow> arg list \<Rightarrow> backend \<Rightarrow> pc \<times> backend" where
  "begin_statement site args s =
     (case static_info_of site of
        Inl e \<Rightarrow> (Failed (Format_error e), s)
      | Inr info \<Rightarrow>
          if getLogLevel s < severity site then (Outside, s)
          else (case size_arguments site info args s of
                  Inl e \<Rightarrow> (Failed e, s)
                | Inr (alloc_size, s) \<Rightarrow> (At_reserve site args alloc_size, s)))"

text \<open>\<^verbatim>\<open>reserveAlloc\<close> up to the loop that waits.\<close>

definition reserve_step :: "nat \<Rightarrow> nat \<Rightarrow> call_site \<Rightarrow> arg list \<Rightarrow> 64 word \<Rightarrow> backend \<Rightarrow> pc \<times> backend" where
  "reserve_step t p site args alloc_size s =
     (case reserveAlloc t p (unat alloc_size) 0 s of
        Inl e \<Rightarrow> (Failed (Backend_error e), s)
      | Inr (Reserved write_pos, s) \<Rightarrow> (At_stores site args alloc_size write_pos, s)
      | Inr (_, s) \<Rightarrow> (At_spin site args alloc_size, s))"

text \<open>One iteration of that loop, with one read of \<^verbatim>\<open>consumer_pos_\<close>.\<close>

definition spin_step :: "nat \<Rightarrow> call_site \<Rightarrow> arg list \<Rightarrow> 64 word \<Rightarrow> backend \<Rightarrow> pc \<times> backend" where
  "spin_step t site args alloc_size s =
     (case Option.bind (staging_ptr s t) (\<lambda>q. map_option (Pair q) (heap s q)) of
        None \<Rightarrow> (Failed (Backend_error Null_dereference), s)
      | Some (q, b) \<Rightarrow>
          (case reserveSpaceInternal (unat alloc_size) True [consumer_pos b] b of
             (Reserved write_pos, b') \<Rightarrow> (At_stores site args alloc_size write_pos, s\<lparr>heap := (heap s)(q \<mapsto> b')\<rparr>)
           | (_, b') \<Rightarrow> (At_spin site args alloc_size, s\<lparr>heap := (heap s)(q \<mapsto> b')\<rparr>)))"

text \<open>The stores, with the lengths that are in \<^verbatim>\<open>param_size\<close> by then.\<close>

definition store_step ::
  "nat \<Rightarrow> nat \<Rightarrow> call_site \<Rightarrow> arg list \<Rightarrow> 64 word \<Rightarrow> nat \<Rightarrow> backend \<Rightarrow> pc \<times> backend" where
  "store_step t rdtsc site args alloc_size write_pos s =
     (case static_info_of site of
        Inl e \<Rightarrow> (Failed (Format_error e), s)
      | Inr info \<Rightarrow>
          (case Option.bind (staging_ptr s t) (\<lambda>q. map_option (Pair q) (heap s q)) of
             None \<Rightarrow> (Failed (Backend_error Null_dereference), s)
           | Some (q, b) \<Rightarrow>
               (case write_record site info args alloc_size
                       (param_sizes s (param_size_addr site)) rdtsc write_pos (storage b) of
                  Inl e \<Rightarrow> (Failed e, s)
                | Inr m \<Rightarrow> (At_finish site args alloc_size rdtsc, s\<lparr>heap := (heap s)(q \<mapsto> b\<lparr>storage := m\<rparr>)\<rparr>))))"

definition finish_step :: "nat \<Rightarrow> 64 word \<Rightarrow> backend \<Rightarrow> pc \<times> backend" where
  "finish_step t alloc_size s =
     (case finishAlloc t (unat alloc_size) s of
        Inl e \<Rightarrow> (Failed (Backend_error e), s)
      | Inr s \<Rightarrow> (Outside, s))"

subsection \<open>The interleaved system\<close>

record threads = logger_state :: backend
  pcs :: "nat \<Rightarrow> pc"

datatype thread_event =
    Begin nat call_site "arg list"
  | Reserve nat
  | Spin nat
  | Stores nat nat \<comment> \<open>thread and cycle counter\<close>
  | Finish nat call_site "arg list" nat
  | Other event

text \<open>Thread \<open>t\<close> has moved on to \<open>c\<close>.\<close>

definition moved :: "nat \<Rightarrow> pc \<times> backend \<Rightarrow> threads \<Rightarrow> threads" where
  "moved t r S = S\<lparr>logger_state := snd r, pcs := (pcs S)(t := fst r)\<rparr>"

inductive thread_step ::
  "(nat \<Rightarrow> call_site set) \<Rightarrow> surroundings \<Rightarrow> (string \<Rightarrow> bool) \<Rightarrow> threads \<Rightarrow> thread_event \<Rightarrow> threads \<Rightarrow> bool"
  for own w can_open where
  thread_begin: "pcs S t = Outside \<Longrightarrow> site \<in> own t \<Longrightarrow> statement_args site args \<Longrightarrow>
     thread_step own w can_open S (Begin t site args)
       (moved t (begin_statement site args (logger_state S)) S)"
| thread_reserve: "pcs S t = At_reserve site args n \<Longrightarrow> heap (logger_state S) p = None \<Longrightarrow>
     thread_step own w can_open S (Reserve t) (moved t (reserve_step t p site args n (logger_state S)) S)"
| thread_spin: "pcs S t = At_spin site args n \<Longrightarrow>
     thread_step own w can_open S (Spin t) (moved t (spin_step t site args n (logger_state S)) S)"
| thread_stores: "pcs S t = At_stores site args n write_pos \<Longrightarrow>
     thread_step own w can_open S (Stores t c)
       (moved t (store_step t c site args n write_pos (logger_state S)) S)"
| thread_finish: "pcs S t = At_finish site args n c \<Longrightarrow>
     thread_step own w can_open S (Finish t site args c) (moved t (finish_step t n (logger_state S)) S)"
| thread_other: "backend_step {} w can_open (logger_state S) e s' \<Longrightarrow>
     (\<And>t. e = Preallocate t \<or> e = Exit t \<Longrightarrow> pcs S t = Outside) \<Longrightarrow>
     thread_step own w can_open S (Other e) (S\<lparr>logger_state := s'\<rparr>)"

subsection \<open>What a producer relies on\<close>

text \<open>
  Between the steps of its statement a producer relies on three things of its buffer: its position, its
  count of free space, and the bytes of that space.
\<close>

definition reserved_same :: "staging_buffer \<Rightarrow> staging_buffer \<Rightarrow> bool" where
  "reserved_same b b' \<longleftrightarrow> producer_pos b' = producer_pos b \<and> min_free_space b' = min_free_space b
     \<and> (\<forall>i < min_free_space b. storage b' (producer_pos b + i) = storage b (producer_pos b + i))"

lemma reserved_same_refl: "reserved_same b b"
  by (simp add: reserved_same_def)

lemma reserved_same_trans: "reserved_same a b \<Longrightarrow> reserved_same b c \<Longrightarrow> reserved_same a c"
  by (simp add: reserved_same_def)

lemma reserved_same_read:
  assumes "reserved_same b b'" "n \<le> min_free_space b"
  shows "mem_read (storage b') (producer_pos b') n = mem_read (storage b) (producer_pos b) n"
  using assms by (intro nth_equalityI) (simp_all add: reserved_same_def)

lemma peek_reserved_same: "peek b = (x, b') \<Longrightarrow> reserved_same b b'"
  by (auto simp: peek_def Let_def reserved_same_def split: if_splits)

lemma consume_reserved_same: "reserved_same b (consume n b)"
  by (simp add: reserved_same_def consume_def)

text \<open>The worker's store of the wall clock time hits the front record, which lies apart from the free space.\<close>

lemma stamp_reserved_same:
  assumes "sb_records b (r # rs)" "first_segment b \<noteq> []"
  shows "reserved_same b (b\<lparr>storage := mem_write (storage b) (consumer_pos b) (le_bytes 8 now)\<rparr>)"
proof -
  have hb: "sb_holds b (r # rs)" and fr: "framed r" using assms(1) by (auto simp: sb_records_def)
  have inv: "sb_inv b" using hb by (rule sb_holds_inv)
  obtain rs1 where rs: "first_segment b = r @ concat rs1"
    using front_record [OF hb framed_not_Nil [OF fr] assms(2)] by metis
  have "8 \<le> length (first_segment b)" using fr by (simp add: rs framed_def sizeof_LogEntry_def)
  then have "consumer_pos b + 8 \<le> producer_pos b \<or> producer_pos b + min_free_space b \<le> consumer_pos b"
    using inv by (auto simp: first_segment_def sb_inv_def split: if_splits)
  then show ?thesis by (auto simp: reserved_same_def mem_write_def)
qed

lemma process_reserved_same:
  assumes "processLogBuffer w now p s = Inr s'" "heap s p = Some b" "sb_records b rs"
  obtains b' where "heap s' = (heap s)(p \<mapsto> b')" "reserved_same b b'"
proof -
  obtain pos avail b1 where pk: "peek b = ((pos, avail), b1)" by (metis prod.exhaust)
  let ?b2 = "b1\<lparr>storage := mem_write (storage b1) pos (le_bytes 8 now)\<rparr>"
  note s1 = peek_reserved_same [OF pk]
  have s2: "reserved_same b ?b2" if av: "0 < avail"
  proof -
    obtain r rs' where "rs = r # rs'" "pos = consumer_pos b1" "sb_records b1 rs" "first_segment b1 \<noteq> []"
      using peek_front [OF assms(3) pk av] by metis
    with stamp_reserved_same [of b1 r rs' now] show ?thesis by (auto intro: reserved_same_trans [OF s1])
  qed
  have "\<exists>b'. heap s' = (heap s)(p \<mapsto> b') \<and> (b' = b1 \<or> 0 < avail \<and> (b' = ?b2 \<or> (\<exists>n. b' = consume n ?b2)))"
    using assms(1,2) pk by (auto simp: processLogBuffer_def Let_def sum_bind_Inr_iff split: if_splits)
  then show thesis
    using that s1 s2 reserved_same_trans [OF s2 consume_reserved_same] by blast
qed

subsection \<open>Other threads and the worker keep a reservation\<close>

definition keeps_reservation :: "nat \<Rightarrow> backend \<Rightarrow> backend \<Rightarrow> bool" where
  "keeps_reservation t s s' \<longleftrightarrow> staging_ptr s' t = staging_ptr s t
     \<and> (\<forall>q b. staging_ptr s t = Some q \<longrightarrow> heap s q = Some b \<longrightarrow>
          (\<exists>b'. heap s' q = Some b' \<and> reserved_same b b'))"

lemma keeps_reservation_same:
  "staging_ptr s' t = staging_ptr s t \<Longrightarrow> heap s' = heap s \<Longrightarrow> keeps_reservation t s s'"
  using reserved_same_refl by (auto simp: keeps_reservation_def)

lemma others_keep_reservation:
  assumes "others_same t' p s s'" "t' \<noteq> t" "backend_inv s" "heap s p = None"
  shows "keeps_reservation t s s'"
proof -
  note st = backend_invD(2) [OF assms(3)]
  have "heap s' q = heap s q" if q: "staging_ptr s t = Some q" for q
  proof -
    have "staging_ptr s' t' \<noteq> Some q"
      using assms(1,2,4) q stagedD [OF st q] staged_inj [OF st, of t q t']
      by (auto simp: others_same_def split: if_splits)
    then show ?thesis using assms(1) by (simp add: others_same_def)
  qed
  moreover have "staging_ptr s' t = staging_ptr s t"
    using assms(1,2) by (auto simp: others_same_def split: if_splits)
  ultimately show ?thesis using reserved_same_refl by (simp add: keeps_reservation_def)
qed

lemma exit_keeps_reservation:
  assumes "t' \<noteq> t" "backend_inv s"
  shows "keeps_reservation t s (thread_exit t' s)"
proof -
  note st = backend_invD(2) [OF assms(2)]
  show ?thesis
    using assms(1) staged_inj [OF st, of t _ t'] reserved_same_refl
    by (auto simp: keeps_reservation_def thread_exit_def split: option.split)
qed

lemma visit_reserved_same: "visit_buffer b = Some (b', x) \<Longrightarrow> reserved_same b b'"
  by (auto simp: visit_buffer_def split: if_splits prod.splits dest: peek_reserved_same)

lemma poll_keeps_reservation:
  assumes "backend_inv s" "ioPoll_iteration w now s = Inr (x, s')"
  shows "keeps_reservation t s s'"
  unfolding keeps_reservation_def
proof (intro conjI allI impI)
  show "staging_ptr s' t = staging_ptr s t" using ioPoll_iteration_frame [OF assms(2)] by simp
  fix q b
  assume q: "staging_ptr s t = Some q" and b: "heap s q = Some b"
  note reg = backend_invD(1) [OF assms(1)]
  have d: "distinct (thread_buffers s)" "q \<in> set (thread_buffers s)"
    using reg registered_iff [OF reg] b by (auto simp: registered_def)
  show "\<exists>b'. heap s' q = Some b' \<and> reserved_same b b'"
  proof (cases "x = Leave")
    case True
    with assms(2) b reserved_same_refl show ?thesis
      by (auto simp: ioPoll_iteration_def Let_def sum_bind_Inr_iff split: if_splits option.splits)
  next
    case False
    with assms(2) obtain kept h e where sc: "io_scan (thread_buffers s) (heap s) (UINT64_MAX, None) = Inr (kept, h, e)"
      and s': "heap s' = h \<or> (\<exists>p. processLogBuffer w now p (s\<lparr>thread_buffers := kept, heap := h\<rparr>) = Inr s')"
      by (auto simp: ioPoll_iteration_def Let_def sum_bind_Inr_iff split: if_splits option.splits, blast+)
    obtain b1 y where v: "visit_buffer b = Some (b1, y)"
      using b stagedD [OF backend_invD(2) [OF assms(1)] q]
      by (cases "peek b") (auto simp: visit_buffer_def checkCanDelete_def)
    then have h: "h q = Some b1" "reserved_same b b1"
      using io_scan_heap [OF sc d(1), of q] d(2) b visit_reserved_same by auto
    from s' show ?thesis
    proof (elim disjE exE)
      fix p
      assume pr: "processLogBuffer w now p (s\<lparr>thread_buffers := kept, heap := h\<rparr>) = Inr s'"
      show ?thesis
      proof (cases "p = q")
        case True
        obtain rs where "sb_records b rs" using registered_records [OF reg b] by blast
        then have "sb_records b1 rs" using v visit_buffer_records [of b rs] by auto
        with True h(1) obtain b' where "heap s' = h(p \<mapsto> b')" "reserved_same b1 b'"
          by (elim process_reserved_same [OF pr, rotated]) simp_all
        with True reserved_same_trans [OF h(2)] show ?thesis by auto
      next
        case False
        obtain b' where "heap s' = h(p \<mapsto> b')" by (rule processLogBuffer_space [OF pr]) simp
        with False h show ?thesis by auto
      qed
    qed (use h in simp)
  qed
qed

subsection \<open>The invariant of the threads\<close>

definition thread_buffer :: "backend \<Rightarrow> nat \<Rightarrow> staging_buffer option" where
  "thread_buffer s t = Option.bind (staging_ptr s t) (heap s)"

lemma thread_buffer_Some: "thread_buffer s t = Some b \<longleftrightarrow> (\<exists>q. staging_ptr s t = Some q \<and> heap s q = Some b)"
  by (auto simp: thread_buffer_def bind_eq_Some_conv)

text \<open>The array holds the lengths of this statement's own arguments, and \<open>n\<close> is the size they give.\<close>

definition sized :: "call_site set \<Rightarrow> call_site \<Rightarrow> arg list \<Rightarrow> 64 word \<Rightarrow> backend \<Rightarrow> bool" where
  "sized sites site args n s \<longleftrightarrow> site \<in> sites \<and> statement_args site args
     \<and> (\<exists>info old tot pp. static_info_of site = Inr info
          \<and> getArgSizes 0 (param_types info) (- 1) old args = Inr (tot, pp, param_sizes s (param_size_addr site))
          \<and> n = tot + of_nat sizeof_LogEntry)"

text \<open>The thread's reservation of more than \<open>n\<close> bytes starts at \<open>a\<close>.\<close>

definition reserved_at :: "backend \<Rightarrow> nat \<Rightarrow> nat \<Rightarrow> nat \<Rightarrow> bool" where
  "reserved_at s t n a \<longleftrightarrow> (\<exists>b. thread_buffer s t = Some b \<and> producer_pos b = a \<and> n < min_free_space b)"

text \<open>The reservation already holds the record \<open>r\<close>.\<close>

definition filled :: "backend \<Rightarrow> nat \<Rightarrow> byte list \<Rightarrow> bool" where
  "filled s t r \<longleftrightarrow> framed r \<and> (\<exists>b. thread_buffer s t = Some b \<and> length r < min_free_space b
     \<and> mem_read (storage b) (producer_pos b) (length r) = r)"

fun pc_ok :: "call_site set \<Rightarrow> nat \<Rightarrow> backend \<Rightarrow> pc \<Rightarrow> bool" where
  "pc_ok sites t s Outside = True"
| "pc_ok sites t s (At_reserve site args n) = sized sites site args n s"
| "pc_ok sites t s (At_spin site args n) = (sized sites site args n s \<and> staging_ptr s t \<noteq> None)"
| "pc_ok sites t s (At_stores site args n a) = (sized sites site args n s \<and> reserved_at s t (unat n) a)"
| "pc_ok sites t s (At_finish site args n c) =
     (\<exists>info. static_info_of site = Inr info \<and> unat n = length (statement_record site info args c)
        \<and> filled s t (statement_record site info args c))"
| "pc_ok sites t s (Failed e) = False"

definition threads_inv :: "(nat \<Rightarrow> call_site set) \<Rightarrow> threads \<Rightarrow> bool" where
  "threads_inv own S \<longleftrightarrow> system_inv (\<Union>t. own t) (logger_state S)
     \<and> (\<forall>t. pc_ok (own t) t (logger_state S) (pcs S t))"

lemma threads_invD:
  "threads_inv own S \<Longrightarrow> system_inv (\<Union>t. own t) (logger_state S)"
  "threads_inv own S \<Longrightarrow> pc_ok (own t) t (logger_state S) (pcs S t)"
  by (simp_all add: threads_inv_def)

lemma keeps_buffer:
  assumes "keeps_reservation t s s'" "thread_buffer s t = Some b"
  obtains b' where "thread_buffer s' t = Some b'" "reserved_same b b'"
  using assms by (auto simp: keeps_reservation_def thread_buffer_Some)

lemma keeps_pc_ok:
  assumes "keeps_reservation t s s'" "pc_ok sites t s c"
    and "\<And>site. site \<in> sites \<Longrightarrow> param_sizes s' (param_size_addr site) = param_sizes s (param_size_addr site)"
  shows "pc_ok sites t s' c"
proof -
  have sz: "sized sites site args n s'" if "sized sites site args n s" for site args n
    using that assms(3) [of site] by (simp add: sized_def)
  have r: "reserved_at s' t n a" if "reserved_at s t n a" for n a
    using that by (auto simp: reserved_at_def reserved_same_def elim!: keeps_buffer [OF assms(1)])
  have f: "filled s' t rec" if fl: "filled s t rec" for rec
  proof -
    obtain b where b: "thread_buffer s t = Some b" "length rec < min_free_space b"
      "mem_read (storage b) (producer_pos b) (length rec) = rec" using fl by (auto simp: filled_def)
    obtain b' where b': "thread_buffer s' t = Some b'" "reserved_same b b'"
      using keeps_buffer [OF assms(1) b(1)] .
    have "mem_read (storage b') (producer_pos b') (length rec) = rec"
      using reserved_same_read [OF b'(2), of "length rec"] b(2,3) by simp
    with b b' fl show ?thesis by (auto simp: filled_def reserved_same_def)
  qed
  have "staging_ptr s' t = staging_ptr s t" using assms(1) by (simp add: keeps_reservation_def)
  then show ?thesis using assms(2) sz r f by (cases c) auto
qed

text \<open>A step of thread \<open>t\<close> keeps the invariant if it keeps that of the logger and of its own position.\<close>

lemma moved_inv:
  assumes inv: "threads_inv own S" and sys: "system_inv (\<Union>t. own t) s'" and pc: "pc_ok (own t) t s' c"
    and keep: "\<And>t'. t' \<noteq> t \<Longrightarrow> keeps_reservation t' (logger_state S) s'"
    and sizes: "\<And>t' site. t' \<noteq> t \<Longrightarrow> site \<in> own t' \<Longrightarrow>
      param_sizes s' (param_size_addr site) = param_sizes (logger_state S) (param_size_addr site)"
  shows "threads_inv own (moved t (c, s') S)"
  using sys pc keeps_pc_ok [OF keep threads_invD(2) [OF inv] sizes]
  by (auto simp: threads_inv_def moved_def)

subsection \<open>Each step\<close>

lemma set_queue_same:
  assumes "simulates s S" "staging_ptr s t = Some q" "heap s q = Some b"
  shows "set_queue t p (queue_of t S) S = S"
proof -
  have o: "owner S t = Some q" using simulatesD(2) [OF assms(1)] assms(2) by simp
  obtain rs where rs: "queues S q = Some rs" using simulatesD(3) [OF assms(1,3)] by blast
  have "(owner S)(t \<mapsto> q) = owner S" using o by auto
  moreover have "(queues S)(q \<mapsto> rs) = queues S" using rs by auto
  ultimately show ?thesis using o rs by (simp add: set_queue_def queue_of_def)
qed

text \<open>A step that only changes the thread's own buffer.\<close>

lemma own_buffer_step:
  assumes inv: "system_inv sites s" and sim: "simulates s S" and q: "staging_ptr s t = Some q" "heap s q = Some b"
    and rec: "sb_records b' (queue_of t S @ rs)" and sd: "should_deallocate b' = should_deallocate b"
  shows "system_inv sites (s\<lparr>heap := (heap s)(q \<mapsto> b')\<rparr>)"
    and "simulates (s\<lparr>heap := (heap s)(q \<mapsto> b')\<rparr>) (set_queue t p (queue_of t S @ rs) S)"
    and "t' \<noteq> t \<Longrightarrow> keeps_reservation t' s (s\<lparr>heap := (heap s)(q \<mapsto> b')\<rparr>)"
proof -
  let ?s = "s\<lparr>heap := (heap s)(q \<mapsto> b')\<rparr>"
  note I = system_invD [OF inv]
  note reg = backend_invD(1) [OF I(1)] and st = backend_invD(2) [OF I(1)]
  have "q \<in> set (thread_buffers s)" using registered_iff [OF reg] q(2) by blast
  then have "backend_inv ?s"
    using registered_upd [OF reg _ rec] staged_upd [OF st, of q b'] q(2) sd by (simp add: backend_inv_def)
  then show "system_inv sites ?s"
    using I arrays_ok_cong [of ?s s sites] by (simp add: system_inv_def)
  show "simulates ?s (set_queue t p (queue_of t S @ rs) S)"
    using simulates_set_queue [OF sim heap_upd_frame(2) [OF q(1)]] q(1) rec
    by (simp add: getLogLevel_def thread_records_def)
  show "keeps_reservation t' s ?s" if "t' \<noteq> t"
    using staged_inj [OF st q(1)] that reserved_same_refl by (auto simp: keeps_reservation_def)
qed

lemma simulates_buffer:
  assumes "simulates s S" "system_inv sites s" "staging_ptr s t = Some q"
  obtains b where "heap s q = Some b" "sb_records b (queue_of t S)"
  using simulates_thread [OF assms(1) system_invD(1) [OF assms(2)], of t] assms(3)
  by (auto simp: thread_records_def split: option.splits)

lemma begin_effect:
  assumes inv: "system_inv sites s" and inj: "inj_on param_size_addr sites"
    and site: "site \<in> own" "own \<subseteq> sites" and args: "statement_args site args"
    and eq: "begin_statement site args s = (c, s')"
  shows "system_inv sites s'" "pc_ok own t s' c" "heap s' = heap s" "staging_ptr s' = staging_ptr s"
    "getLogLevel s' = getLogLevel s" "a \<noteq> param_size_addr site \<Longrightarrow> param_sizes s' a = param_sizes s a"
    "c = Outside \<or> \<not> getLogLevel s < severity site \<and> (\<exists>n. c = At_reserve site args n)"
proof -
  from args obtain info where i: "static_info_of site = Inr info" "length args \<le> num_params info"
    by (rule statement_argsE)
  have site': "site \<in> sites" using site by blast
  note I = system_invD [OF inv]
  note arr = arrays_okD [OF I(2) site' i(1)]
  have len: "length (param_types info) = num_params info" using i(1) by (rule static_info_of_Inr) simp
  obtain tot pp sizes where g: "getArgSizes 0 (param_types info) (- 1)
      (param_size_array site (num_params info) s) args = Inr (tot, pp, sizes)"
    and sz: "size_arguments site info args s = Inr (tot + of_nat sizeof_LogEntry,
       s\<lparr>param_sizes := (param_sizes s)(param_size_addr site := sizes)\<rparr>)"
    using size_arguments_Inr [of args info site s] i(2) arr len by auto
  let ?s = "s\<lparr>param_sizes := (param_sizes s)(param_size_addr site := sizes)\<rparr>"
  have arr': "arrays_ok sites ?s"
    using arrays_ok_upd [OF I(2) inj site' i(1), of ?s sizes] getArgSizes_frame [OF g] arr by simp
  have "system_inv sites ?s" using I arr' by (simp add: system_inv_def backend_inv_def well_typed_def)
  moreover have "sized own site args (tot + of_nat sizeof_LogEntry) ?s"
    using site(1) args i(1) g by (auto simp: sized_def)
  moreover have r: "c = Outside \<and> s' = s
      \<or> \<not> getLogLevel s < severity site \<and> c = At_reserve site args (tot + of_nat sizeof_LogEntry) \<and> s' = ?s"
    using eq i(1) sz by (auto simp: begin_statement_def split: if_splits)
  ultimately show "system_inv sites s'" "pc_ok own t s' c" "heap s' = heap s" "staging_ptr s' = staging_ptr s"
    "getLogLevel s' = getLogLevel s" "a \<noteq> param_size_addr site \<Longrightarrow> param_sizes s' a = param_sizes s a"
    "c = Outside \<or> \<not> getLogLevel s < severity site \<and> (\<exists>n. c = At_reserve site args n)"
    using inv by (auto simp: getLogLevel_def)
qed

lemma reserve_effect:
  assumes inv: "system_inv sites s" and p: "heap s p = None" and sim: "simulates s S"
    and sz: "sized own site args n s" and eq: "reserve_step t p site args n s = (c, s')"
  shows "system_inv sites s'" "pc_ok own t s' c" "simulates s' (set_queue t p (queue_of t S) S)"
    "param_sizes s' = param_sizes s" "t' \<noteq> t \<Longrightarrow> keeps_reservation t' s s'"
    "(\<exists>a. c = At_stores site args n a) \<or> c = At_spin site args n"
proof -
  note I = system_invD [OF inv]
  have "thread_records s t (queue_of t S)" by (rule simulates_thread [OF sim I(1)])
  then obtain q b x b' where r: "staging_ptr (ensureStagingBufferAllocated t p s) t = Some q"
    "reserveAlloc t p (unat n) 0 s = Inr (x, (ensureStagingBufferAllocated t p s)
       \<lparr>heap := (heap (ensureStagingBufferAllocated t p s))(q \<mapsto> b')\<rparr>)" "sb_records b' (queue_of t S)"
    "\<And>q'. x = Reserved q' \<Longrightarrow> q' = producer_pos b' \<and> unat n < min_free_space b'"
    by (rule reserveAlloc_cases [where p = p and n = "unat n" and k = 0]) blast
  obtain s1 where s1: "s1 = (ensureStagingBufferAllocated t p s)
      \<lparr>heap := (heap (ensureStagingBufferAllocated t p s))(q \<mapsto> b')\<rparr>" by blast
  have t: "staging_ptr s1 t = Some q" "heap s1 q = Some b'" using r(1) by (simp_all add: s1)
  note eq1 = r(2) [folded s1]
  note f = reserveAlloc_frame [OF eq1]
  have "backend_inv s1" by (rule reserveAlloc_inv [OF I(1) p eq1])
  then have sys: "system_inv sites s1"
    using I(2) arrays_ok_cong [OF f(3), of sites] well_typed_same_output [OF I(3) f(1)]
    by (simp add: system_inv_def)
  have tb: "thread_buffer s1 t = Some b'" using t by (simp add: thread_buffer_def)
  have sim1: "simulates s1 (set_queue t p (queue_of t S) S)"
    by (rule simulates_set_queue [OF sim f(2)]) (use f(1) t r(3) in \<open>simp_all add: getLogLevel_def same_output_def thread_records_def\<close>)
  have res: "s' = s1" "(\<exists>a. c = At_stores site args n a \<and> x = Reserved a) \<or> c = At_spin site args n"
    using eq eq1 by (cases x; simp add: reserve_step_def)+
  have sz1: "sized own site args n s1" using sz f(3) by (simp add: sized_def)
  have "reserved_at s1 t (unat n) a" if "x = Reserved a" for a
    using r(4) [OF that] tb by (simp add: reserved_at_def)
  then show "pc_ok own t s' c" using res(2) sz1 t(1) unfolding res(1) by (elim disjE exE conjE) simp_all
  show "keeps_reservation t' s s'" if "t' \<noteq> t"
    using others_keep_reservation [OF f(2) not_sym [OF that] I(1) p] res(1) by simp
  show "system_inv sites s'" "simulates s' (set_queue t p (queue_of t S) S)" "param_sizes s' = param_sizes s"
    "(\<exists>a. c = At_stores site args n a) \<or> c = At_spin site args n"
    using sys sim1 f(3) res by auto
qed

lemma spin_effect:
  assumes inv: "system_inv sites s" and sim: "simulates s S"
    and sz: "sized own site args n s" and ptr: "staging_ptr s t = Some q" and eq: "spin_step t site args n s = (c, s')"
  shows "system_inv sites s'" "pc_ok own t s' c" "simulates s' S"
    "param_sizes s' = param_sizes s" "t' \<noteq> t \<Longrightarrow> keeps_reservation t' s s'"
    "(\<exists>a. c = At_stores site args n a) \<or> c = At_spin site args n"
proof -
  obtain b where b: "heap s q = Some b" "sb_records b (queue_of t S)" by (rule simulates_buffer [OF sim inv ptr])
  obtain x b' where x: "reserveSpaceInternal (unat n) True [consumer_pos b] b = (x, b')" by fastforce
  have hb: "sb_holds b (queue_of t S)" using b(2) by (simp add: sb_records_def)
  note h = reserveSpaceInternal_holds [OF hb _ x]
  have b': "sb_records b' (queue_of t S @ [])" using h b(2) by (simp add: sb_records_def)
  have sd: "should_deallocate b' = should_deallocate b" using reserveSpaceInternal_frame [OF x] by simp
  note o = own_buffer_step [OF inv sim ptr b(1) b' sd]
  have S: "set_queue t 0 (queue_of t S @ []) S = S" using set_queue_same [OF sim ptr b(1)] by simp
  let ?s = "s\<lparr>heap := (heap s)(q \<mapsto> b')\<rparr>"
  have "s' = ?s \<and> ((\<exists>a. c = At_stores site args n a \<and> x = Reserved a) \<or> c = At_spin site args n)"
    using eq x ptr b(1) by (cases x) (auto simp: spin_step_def)
  moreover have "sized own site args n ?s" using sz by (simp add: sized_def)
  moreover have "thread_buffer ?s t = Some b'" using ptr by (simp add: thread_buffer_def)
  ultimately show "system_inv sites s'" "pc_ok own t s' c" "simulates s' S"
    "param_sizes s' = param_sizes s" "t' \<noteq> t \<Longrightarrow> keeps_reservation t' s s'"
    "(\<exists>a. c = At_stores site args n a) \<or> c = At_spin site args n"
    using o(1,3) o(2) [of 0, unfolded S] h ptr by (auto simp: reserved_at_def)
qed

lemma stores_effect:
  assumes inv: "system_inv sites s" and sim: "simulates s S"
    and sz: "sized own site args n s" and at: "reserved_at s t (unat n) a"
    and eq: "store_step t rdtsc site args n a s = (c, s')"
  shows "system_inv sites s'" "pc_ok own t s' c" "simulates s' S"
    "param_sizes s' = param_sizes s" "t' \<noteq> t \<Longrightarrow> keeps_reservation t' s s'"
    "c = At_finish site args n rdtsc"
proof -
  from sz obtain info old tot pp where g: "static_info_of site = Inr info" "statement_args site args"
    "getArgSizes 0 (param_types info) (- 1) old args = Inr (tot, pp, param_sizes s (param_size_addr site))"
    "n = tot + of_nat sizeof_LogEntry" by (auto simp: sized_def)
  have a: "list_all arg_ok args" "length (args_image 0 (param_types info) (- 1) args) < 2 ^ 31"
    using g(1,2) by (auto simp: statement_args_def)
  let ?r = "statement_record site info args rdtsc"
  note w = write_record_image [OF a(1) g(3) a(2) g(4), of site rdtsc]
  have "length ?r < 2 ^ 64" using a(2) by (simp add: length_statement_record sizeof_LogEntry_def)
  then have fr: "framed ?r" by (rule framed_statement_record)
  from at obtain q b where b: "staging_ptr s t = Some q" "heap s q = Some b" "producer_pos b = a" "unat n < min_free_space b"
    by (auto simp: reserved_at_def thread_buffer_Some)
  have rec: "sb_records b (queue_of t S)"
    using simulates_buffer [OF sim inv b(1)] b(2) by force
  let ?b = "write_reserved ?r b"
  have b': "sb_records ?b (queue_of t S @ [])"
    using write_reserved_holds [of b "queue_of t S" ?r] rec b(4) w(1) by (simp add: sb_records_def)
  have sd: "should_deallocate ?b = should_deallocate b" by (simp add: write_reserved_def)
  note o = own_buffer_step [OF inv sim b(1,2) b' sd]
  have S: "set_queue t 0 (queue_of t S @ []) S = S" using set_queue_same [OF sim b(1,2)] by simp
  have res: "c = At_finish site args n rdtsc \<and> s' = s\<lparr>heap := (heap s)(q \<mapsto> ?b)\<rparr>"
    using eq g(1) b w(2) by (simp add: store_step_def write_reserved_def)
  moreover have "filled s' t ?r"
    using fr b w(1) res mem_read_write_same [of "storage b" a ?r]
    by (simp add: filled_def thread_buffer_def write_reserved_def)
  ultimately show "system_inv sites s'" "pc_ok own t s' c" "simulates s' S"
    "param_sizes s' = param_sizes s" "t' \<noteq> t \<Longrightarrow> keeps_reservation t' s s'"
    "c = At_finish site args n rdtsc"
    using o(1,3) o(2) [of 0, unfolded S] g(1) w(1) by auto
qed

lemma finish_effect:
  assumes inv: "system_inv sites s" and sim: "simulates s S"
    and n: "unat n = length r" and fl: "filled s t r" and eq: "finish_step t n s = (c, s')"
  shows "system_inv sites s'" "simulates s' (set_queue t p (queue_of t S @ [r]) S)"
    "param_sizes s' = param_sizes s" "t' \<noteq> t \<Longrightarrow> keeps_reservation t' s s'" "c = Outside"
proof -
  from fl obtain q b where b: "staging_ptr s t = Some q" "heap s q = Some b" "length r < min_free_space b"
    "mem_read (storage b) (producer_pos b) (length r) = r" "framed r"
    by (auto simp: filled_def thread_buffer_Some)
  have rec: "sb_records b (queue_of t S)"
    using simulates_buffer [OF sim inv b(1)] b(2) by force
  have "write_reserved r b = b" using mem_write_same [OF b(4)] by (simp add: write_reserved_def)
  with commit_holds [of b "queue_of t S" r] rec b(3) obtain b2 where
    b2: "finishReservation (length r) b = Inr b2" "sb_holds b2 (queue_of t S @ [r])"
    by (auto simp: sb_records_def)
  have b': "sb_records b2 (queue_of t S @ [r])" using b2(2) rec b(5) by (simp add: sb_records_def)
  have sd: "should_deallocate b2 = should_deallocate b"
    using b2(1) by (auto simp: finishReservation_def split: if_splits)
  have "c = Outside \<and> s' = s\<lparr>heap := (heap s)(q \<mapsto> b2)\<rparr>"
    using eq b(1,2) b2(1) n by (simp add: finish_step_def finishAlloc_def)
  with own_buffer_step [OF inv sim b(1,2) b' sd] show "system_inv sites s'"
    "simulates s' (set_queue t p (queue_of t S @ [r]) S)"
    "param_sizes s' = param_sizes s" "t' \<noteq> t \<Longrightarrow> keeps_reservation t' s s'" "c = Outside"
    by auto
qed

text \<open>The steps of the interface and of the worker.\<close>

lemma backend_step_mono: "backend_step {} w can_open s e s' \<Longrightarrow> backend_step sites w can_open s e s'"
  by (induction rule: backend_step.induct) (auto intro: backend_step.intros)

lemma process_param_sizes: "processLogBuffer w now p s = Inr s' \<Longrightarrow> param_sizes s' = param_sizes s"
  by (auto simp: processLogBuffer_def Let_def sum_bind_Inr_iff write_log_def split: option.splits prod.splits if_splits)

lemma poll_param_sizes: "ioPoll_iteration w now s = Inr (x, s') \<Longrightarrow> param_sizes s' = param_sizes s"
  by (auto simp: ioPoll_iteration_def Let_def sum_bind_Inr_iff split: option.splits if_splits dest!: process_param_sizes)

lemma other_keeps:
  assumes "backend_step {} w can_open s e s'" "backend_inv s" "\<not> (e = Preallocate t \<or> e = Exit t)"
  shows "keeps_reservation t s s'" "param_sizes s' = param_sizes s"
proof -
  from assms(1) have "keeps_reservation t s s' \<and> param_sizes s' = param_sizes s"
  proof cases
    case (step_preallocate p t')
    note f = ensure_frame [where s = s and t = t' and p = p]
    from step_preallocate assms(2,3) others_keep_reservation [OF f(2), of t] f(3) show ?thesis
      by (auto simp: preallocate_def)
  next
    case (step_exit t')
    with assms(2,3) exit_keeps_reservation [of t' t s] show ?thesis
      by (auto simp: thread_exit_def split: option.split)
  next
    case (step_file f)
    then have "param_sizes s' = param_sizes s" by (auto simp: setLogFile_def Let_def split: if_splits)
    with setLogFile_frame [OF step_file(2)] show ?thesis by (simp add: keeps_reservation_same)
  next
    case (step_poll now x)
    let ?s = "s\<lparr>fdflush := Running\<rparr>"
    have "backend_inv ?s" using assms(2) by (simp add: backend_inv_def)
    from poll_keeps_reservation [OF this step_poll(4), of t] have "keeps_reservation t s s'"
      by (simp add: keeps_reservation_def)
    moreover have "param_sizes s' = param_sizes s"
      using poll_param_sizes [OF step_poll(4)] by simp
    ultimately show ?thesis by simp
  qed (simp_all add: keeps_reservation_same setLogLevel_def Let_def sync_def)
  then show "keeps_reservation t s s'" "param_sizes s' = param_sizes s" by simp_all
qed

subsection \<open>Statements take effect when they finish\<close>

text \<open>The events of the atomic logger an interleaved event stands for.\<close>

fun serial :: "thread_event \<Rightarrow> event list" where
  "serial (Reserve t) = [Preallocate t]"
| "serial (Finish t site args c) = [Log t site args c]"
| "serial (Other e) = [e]"
| "serial _ = []"

text \<open>The queues when the level has been checked earlier.\<close>

inductive commit_step :: "spec \<Rightarrow> event \<Rightarrow> spec \<Rightarrow> bool" where
  commit_log: "queues S p = None \<Longrightarrow> static_info_of site = Inr info \<Longrightarrow>
     commit_step S (Log t site args c) (set_queue t p (queue_of t S @ [statement_record site info args c]) S)"
| commit_other: "spec_step S e S' \<Longrightarrow> (\<And>t site args c. e \<noteq> Log t site args c) \<Longrightarrow> commit_step S e S'"

lemma run_single: "step s e s' \<Longrightarrow> run step s [e] s'"
  by (rule run_Cons [OF _ run_Nil])

lemma run_append: "run step s es s1 \<Longrightarrow> run step s1 es' s2 \<Longrightarrow> run step s (es @ es') s2"
  by (induction rule: run.induct) (auto intro: run_Cons)

lemma run_concat:
  "run (\<lambda>s e s'. run step s (f e) s') s es s' \<Longrightarrow> run step s (concat (map f es)) s'"
  by (induction rule: run.induct) (auto intro: run_Nil run_append)

definition statements_disjoint :: "(nat \<Rightarrow> call_site set) \<Rightarrow> bool" where
  "statements_disjoint own \<longleftrightarrow> inj_on param_size_addr (\<Union>t. own t) \<and> (\<forall>t t'. t \<noteq> t' \<longrightarrow> own t \<inter> own t' = {})"

lemma statements_disjointD:
  "statements_disjoint own \<Longrightarrow> inj_on param_size_addr (\<Union>t. own t)"
  "statements_disjoint own \<Longrightarrow> site \<in> own t \<Longrightarrow> site' \<in> own t' \<Longrightarrow> t \<noteq> t' \<Longrightarrow>
     param_size_addr site \<noteq> param_size_addr site'"
  unfolding statements_disjoint_def by (blast, blast dest: inj_onD)

lemma spec_commit:
  assumes "queues A p = None" "static_info_of site = Inr info"
    and "A' = set_queue t p (queue_of t A @ [statement_record site info args c]) A"
  shows "run commit_step A (serial (Finish t site args c)) A'"
    and "\<not> spec_level A < severity site \<Longrightarrow> run spec_step A (serial (Finish t site args c)) A'"
  using assms by (auto intro!: run_single commit_log spec_log)

lemma spec_other: "spec_step A e A' \<Longrightarrow> (\<And>t site args c. e \<noteq> Log t site args c) \<Longrightarrow>
   run commit_step A [e] A' \<and> run spec_step A [e] A'"
  by (simp add: run_single commit_other)

text \<open>
  Each step keeps the invariant and is a step of the queues, or none; the record of a statement enters
  its queue at the end of the statement. The level is compared with the severity at the beginning only.
\<close>

definition level_holds :: "backend \<Rightarrow> thread_event \<Rightarrow> bool" where
  "level_holds s e \<longleftrightarrow> (\<forall>t site args c. e = Finish t site args c \<longrightarrow> \<not> getLogLevel s < severity site)"

lemma thread_step_effect:
  assumes step: "thread_step own w can_open S e S'" and inv: "threads_inv own S" and D: "statements_disjoint own"
    and sim: "simulates (logger_state S) A"
  shows "threads_inv own S' \<and> (\<exists>A'. simulates (logger_state S') A' \<and> run commit_step A (serial e) A'
    \<and> (level_holds (logger_state S) e \<longrightarrow> run spec_step A (serial e) A'))"
proof -
  note I = threads_invD [OF inv] and D = statements_disjointD [OF D] and M = moved_inv [OF inv]
  let ?s = "logger_state S"
  have lg: "logger_state (moved t (c, s') S) = s'" for t c s' by (simp add: moved_def)
  from step show ?thesis
  proof cases
    case (thread_begin t site args)
    obtain c s' where r: "begin_statement site args ?s = (c, s')" by fastforce
    have own: "own t \<subseteq> (\<Union>t. own t)" by blast
    note b = begin_effect [OF I(1) D(1) thread_begin(4) own thread_begin(5) r]
    have "threads_inv own (moved t (c, s') S)"
      using b(1-4) b(6) [OF not_sym [OF D(2) [OF thread_begin(4)]]] by (intro M) (auto intro: keeps_reservation_same)
    moreover have "simulates s' A" by (rule simulates_cong [OF sim b(5,4,3)])
    ultimately show ?thesis using thread_begin(1,2) r lg run_Nil by (auto intro!: exI [of _ A])
  next
    case (thread_reserve t site args n p)
    obtain c s' where r: "reserve_step t p site args n ?s = (c, s')" by fastforce
    have "sized (own t) site args n ?s" using I(2) [of t] thread_reserve(3) by simp
    note b = reserve_effect [OF I(1) thread_reserve(4) sim this r]
    have "threads_inv own (moved t (c, s') S)" using b by (intro M) auto
    moreover have "spec_step A (Preallocate t) (set_queue t p (queue_of t A) A)"
      using simulatesD(5) [OF sim, of p] thread_reserve(4) by (intro spec_preallocate) simp
    ultimately show ?thesis using thread_reserve(1,2) r lg b(3) spec_other [of A "Preallocate t"] by auto
  next
    case (thread_spin t site args n)
    obtain c s' where r: "spin_step t site args n ?s = (c, s')" by fastforce
    obtain q where q: "sized (own t) site args n ?s" "staging_ptr ?s t = Some q"
      using I(2) [of t] thread_spin(3) by auto
    note b = spin_effect [OF I(1) sim q r]
    have "threads_inv own (moved t (c, s') S)" using b by (intro M) auto
    then show ?thesis using thread_spin(1,2) r lg b(3) run_Nil by (auto intro!: exI [of _ A])
  next
    case (thread_stores t site args n a cc)
    obtain c s' where r: "store_step t cc site args n a ?s = (c, s')" by fastforce
    have "sized (own t) site args n ?s" "reserved_at ?s t (unat n) a"
      using I(2) [of t] thread_stores(3) by auto
    note b = stores_effect [OF I(1) sim this r]
    have "threads_inv own (moved t (c, s') S)" using b by (intro M) auto
    then show ?thesis using thread_stores(1,2) r lg b(3) run_Nil by (auto intro!: exI [of _ A])
  next
    case (thread_finish t site args n cc)
    obtain c s' where r: "finish_step t n ?s = (c, s')" by fastforce
    obtain info where i: "static_info_of site = Inr info" "unat n = length (statement_record site info args cc)"
      "filled ?s t (statement_record site info args cc)"
      using I(2) [of t] thread_finish(3) by auto
    note b = finish_effect [OF I(1) sim i(2,3) r]
    have "threads_inv own (moved t (c, s') S)" using b by (intro M) auto
    moreover obtain p where "heap ?s p = None" using fresh_address [OF system_invD(1) [OF I(1)]] .
    then have "queues A p = None" using simulatesD(5) [OF sim] by blast
    note sc = spec_commit [OF this i(1) refl, of t args cc]
    have "level_holds ?s e \<Longrightarrow> \<not> spec_level A < severity site"
      using thread_finish(1) simulatesD(1) [OF sim] by (simp add: level_holds_def)
    ultimately show ?thesis using thread_finish(1,2) r lg b(2) [of p] sc by auto
  next
    case (thread_other e s')
    note bi = system_invD(1) [OF I(1)]
    have st: "backend_step (\<Union>t. own t) w can_open ?s e s'" by (rule backend_step_mono [OF thread_other(3)])
    have "system_inv (\<Union>t. own t) s'" by (rule backend_step_inv [OF st I(1) D(1)])
    moreover have "pc_ok (own t) t s' (pcs S t)" for t
    proof (cases "e = Preallocate t \<or> e = Exit t")
      case True
      with thread_other(4) [of t] show ?thesis by simp
    next
      case False
      from keeps_pc_ok [OF other_keeps(1) [OF thread_other(3) bi this] I(2)] other_keeps(2) [OF thread_other(3) bi this]
      show ?thesis by simp
    qed
    moreover obtain A' where "spec_step A e A'" "simulates s' A'"
      using sim_backend_step [OF st I(1) sim] by blast
    moreover have "e \<noteq> Log t site args c" for t site args c
      using thread_other(3) by (auto elim: backend_stepE)
    ultimately show ?thesis using thread_other(1,2) spec_other [of A e A'] by (auto simp: threads_inv_def)
  qed
qed

lemma simulates_ex:
  assumes "backend_inv s"
  obtains A where "simulates s A"
proof -
  have "\<exists>rs. \<forall>b. heap s p = Some b \<longrightarrow> sb_records b rs" for p
    using registered_records [OF backend_invD(1) [OF assms], of p] by (cases "heap s p") auto
  then obtain f where f: "\<And>p b. heap s p = Some b \<Longrightarrow> sb_records b (f p)" by metis
  let ?A = "\<lparr>spec_level = getLogLevel s, owner = staging_ptr s, queues = (\<lambda>p. map_option (\<lambda>_. f p) (heap s p))\<rparr>"
  have "heap s p = None \<and> queues ?A p = None
      \<or> (\<exists>b rs. heap s p = Some b \<and> queues ?A p = Some rs \<and> sb_records b rs)" for p
    using f [of p] by (cases "heap s p") auto
  then have "simulates s ?A" by (intro simulatesI) simp_all
  then show thesis by (rule that)
qed

lemma thread_step_inv:
  assumes "thread_step own w can_open S e S'" "threads_inv own S" "statements_disjoint own"
  shows "threads_inv own S'"
proof -
  obtain A where "simulates (logger_state S) A"
    using simulates_ex [OF system_invD(1) [OF threads_invD(1) [OF assms(2)]]] .
  from thread_step_effect [OF assms this] show ?thesis by blast
qed

interpretation interleaved: forward_simulation "thread_step own w can_open"
  "\<lambda>A e A'. run commit_step A (serial e) A'" "\<lambda>S. threads_inv own S \<and> statements_disjoint own"
  "\<lambda>S A. simulates (logger_state S) A"
  for own w can_open
  using thread_step_inv thread_step_effect by unfold_locales (blast, metis)

subsection \<open>The level stays as it was checked\<close>

fun pc_site :: "pc \<Rightarrow> call_site option" where
  "pc_site (At_reserve site args n) = Some site"
| "pc_site (At_spin site args n) = Some site"
| "pc_site (At_stores site args n a) = Some site"
| "pc_site (At_finish site args n c) = Some site"
| "pc_site _ = None"

definition admitted :: "threads \<Rightarrow> bool" where
  "admitted S \<longleftrightarrow> (\<forall>t site. pc_site (pcs S t) = Some site \<longrightarrow> \<not> getLogLevel (logger_state S) < severity site)"

lemma step_pc_site:
  "begin_statement site args s = (c, s') \<Longrightarrow> pc_site c = Some a \<Longrightarrow> a = site \<and> \<not> getLogLevel s < severity a"
  "reserve_step t p site args n s = (c, s') \<Longrightarrow> pc_site c = Some a \<Longrightarrow> a = site"
  "spin_step t site args n s = (c, s') \<Longrightarrow> pc_site c = Some a \<Longrightarrow> a = site"
  "store_step t cc site args n q s = (c, s') \<Longrightarrow> pc_site c = Some a \<Longrightarrow> a = site"
  "finish_step t n s = (c, s') \<Longrightarrow> pc_site c \<noteq> Some a"
  by (auto simp: begin_statement_def reserve_step_def spin_step_def store_step_def finish_step_def
      split: sum.splits if_splits reservation.splits option.splits prod.splits)

lemma thread_step_pc_site:
  assumes "thread_step own w can_open S e S'" "pc_site (pcs S' t) = Some site"
  shows "pc_site (pcs S t) = Some site \<or> \<not> getLogLevel (logger_state S) < severity site"
proof -
  have m: "pc_site (pcs S t) = Some site \<or> t = t' \<and> pc_site (fst r) = Some site"
    if "S' = moved t' r S" for t' r
    using that assms(2) by (auto simp: moved_def split: if_splits)
  from assms(1) show ?thesis
  proof cases
    case (thread_begin t' site' args)
    with m [OF thread_begin(2)] show ?thesis
      using step_pc_site(1) [of site' args "logger_state S"] by (metis prod.collapse)
  next
    case (thread_reserve t' site' args n p)
    with m [OF thread_reserve(2)] show ?thesis
      using step_pc_site(2) [of t' p site' args n "logger_state S"] by (metis prod.collapse pc_site.simps(1))
  next
    case (thread_spin t' site' args n)
    with m [OF thread_spin(2)] show ?thesis
      using step_pc_site(3) [of t' site' args n "logger_state S"] by (metis prod.collapse pc_site.simps(2))
  next
    case (thread_stores t' site' args n a c)
    with m [OF thread_stores(2)] show ?thesis
      using step_pc_site(4) [of t' c site' args n a "logger_state S"] by (metis prod.collapse pc_site.simps(3))
  next
    case (thread_finish t' site' args n c)
    with m [OF thread_finish(2)] show ?thesis
      using step_pc_site(5) [of t' n "logger_state S"] by (metis prod.collapse)
  next
    case (thread_other e s')
    with assms(2) show ?thesis by simp
  qed
qed

lemma spec_step_level: "spec_step S e S' \<Longrightarrow> \<forall>l. e \<noteq> SetLevel l \<Longrightarrow> spec_level S' = spec_level S"
  by (induction rule: spec_step.induct) (simp_all add: set_queue_def Let_def)

lemma commit_run_level:
  "run commit_step A es A' \<Longrightarrow> \<forall>l. SetLevel l \<notin> set es \<Longrightarrow> spec_level A' = spec_level A"
proof (induction rule: run.induct)
  case (run_Cons A e A' es A'')
  from run_Cons.hyps(1) have "spec_level A' = spec_level A"
  proof cases
    case commit_other
    then show ?thesis using spec_step_level [of A e A'] run_Cons.prems by (metis list.set_intros(1))
  qed (simp add: set_queue_def Let_def)
  with run_Cons show ?case by simp
qed simp

lemma serial_level: "\<forall>l. e \<noteq> Other (SetLevel l) \<Longrightarrow> SetLevel l \<notin> set (serial e)"
  by (cases e) auto

text \<open>Without changes of the level a statement is never finished below it.\<close>

lemma admitted_step:
  assumes step: "thread_step own w can_open S e S'" and lev: "\<forall>l. e \<noteq> Other (SetLevel l)"
    and inv: "threads_inv own S" "statements_disjoint own" and adm: "admitted S"
    and sim: "simulates (logger_state S) A"
  shows "admitted S' \<and> (\<exists>A'. run spec_step A (serial e) A' \<and> simulates (logger_state S') A')"
proof -
  have "level_holds (logger_state S) e"
    unfolding level_holds_def
  proof (intro allI impI)
    fix t site args c
    assume "e = Finish t site args c"
    with step obtain n where "pcs S t = At_finish site args n c" by cases auto
    then have "pc_site (pcs S t) = Some site" by simp
    with adm show "\<not> getLogLevel (logger_state S) < severity site" unfolding admitted_def by blast
  qed
  with thread_step_effect [OF step inv sim] obtain A' where A': "simulates (logger_state S') A'"
    "run commit_step A (serial e) A'" "run spec_step A (serial e) A'" by blast
  have "getLogLevel (logger_state S') = getLogLevel (logger_state S)"
    using commit_run_level [OF A'(2)] serial_level [OF lev] simulatesD(1) [OF A'(1)] simulatesD(1) [OF sim] by simp
  then have "admitted S'"
    using thread_step_pc_site [OF step] adm by (auto simp: admitted_def)
  with A' show ?thesis by blast
qed

interpretation serialized: forward_simulation
  "\<lambda>S e S'. thread_step own w can_open S e S' \<and> (\<forall>l. e \<noteq> Other (SetLevel l))"
  "\<lambda>A e A'. run spec_step A (serial e) A'"
  "\<lambda>S. threads_inv own S \<and> statements_disjoint own \<and> admitted S" "\<lambda>S A. simulates (logger_state S) A"
  for own w can_open
proof
  fix S e S' and a :: spec
  assume st: "thread_step own w can_open S e S' \<and> (\<forall>l. e \<noteq> Other (SetLevel l))"
    and i: "threads_inv own S \<and> statements_disjoint own \<and> admitted S"
  obtain A where "simulates (logger_state S) A"
    using simulates_ex [OF system_invD(1) [OF threads_invD(1) [OF conjunct1 [OF i]]]] .
  with admitted_step [of own w can_open S e S' A] st i thread_step_inv [of own w can_open S e S']
  show "threads_inv own S' \<and> statements_disjoint own \<and> admitted S'" by blast
  assume "simulates (logger_state S) a"
  with admitted_step [of own w can_open S e S' a] st i
  show "\<exists>a'. run spec_step a (serial e) a' \<and> simulates (logger_state S') a'" by blast
qed

lemma run_restrict: "run step s es s' \<Longrightarrow> \<forall>e \<in> set es. P e \<Longrightarrow> run (\<lambda>s e s'. step s e s' \<and> P e) s es s'"
  by (induction rule: run.induct) (auto intro: run_Nil run_Cons)

abbreviation start_threads :: "backend \<Rightarrow> threads" where
  "start_threads s \<equiv> \<lparr>logger_state = s, pcs = (\<lambda>_. Outside)\<rparr>"

abbreviation start_queues :: spec where
  "start_queues \<equiv> \<lparr>spec_level = kDEBUG, owner = (\<lambda>_. None), queues = (\<lambda>_. None)\<rparr>"

lemma start_threads_inv:
  assumes "heap s0 = (\<lambda>_. None)" "staging_ptr s0 = (\<lambda>_. None)" "param_sizes s0 = (\<lambda>_. [])"
    and "StaticLogBackend can_open buffer s0 = Inr s1"
  shows "threads_inv own (start_threads s1)" "admitted (start_threads s1)" "simulates s1 start_queues"
proof -
  show "threads_inv own (start_threads s1)" using start_inv [OF assms] by (simp add: threads_inv_def)
  show "admitted (start_threads s1)" by (simp add: admitted_def)
  show "simulates s1 start_queues"
    using assms(1,2,4) by (auto simp: simulates_def StaticLogBackend_def Let_def getLogLevel_def split: if_splits)
qed

subsection \<open>The statement in one piece\<close>

text \<open>The waiting loop, one iteration after the other.\<close>

fun spins :: "nat \<Rightarrow> nat \<Rightarrow> staging_buffer \<Rightarrow> reservation \<times> staging_buffer \<Rightarrow> bool" where
  "spins 0 n b r \<longleftrightarrow> r = (Spinning, b)"
| "spins (Suc k) n b r \<longleftrightarrow> (case reserveSpaceInternal n True [consumer_pos b] b of
     (Reserved a, b') \<Rightarrow> k = 0 \<and> r = (Reserved a, b') | (_, b') \<Rightarrow> spins k n b' r)"

lemma reserve_iteration_consumer: "reserve_iteration n c b = (b', brk) \<Longrightarrow> consumer_pos b' = consumer_pos b"
  by (auto simp: reserve_iteration_def Let_def split: if_splits)

lemma reserveSpaceInternal_spins:
  assumes "min_free_space b \<le> n"
  shows "\<exists>k \<le> m. spins k n b (reserveSpaceInternal n True (replicate m (consumer_pos b)) b)"
  using assms
proof (induction m arbitrary: b)
  case 0
  then show ?case by simp
next
  case (Suc m)
  obtain b' brk where it: "reserve_iteration n (consumer_pos b) b = (b', brk)" by fastforce
  note c = reserve_iteration_consumer [OF it]
  show ?case
  proof (cases "brk \<or> n < min_free_space b'")
    case True
    then have r: "reserveSpaceInternal n True (consumer_pos b # cs) b = (Reserved (producer_pos b'), b')" for cs
      using Suc.prems it by (cases cs) (auto split: bool.splits)
    then have "spins 1 n b (reserveSpaceInternal n True (replicate (Suc m) (consumer_pos b)) b)"
      unfolding replicate_Suc by simp
    moreover have "1 \<le> Suc m" by simp
    ultimately show ?thesis by blast
  next
    case False
    then obtain k where k: "k \<le> m" "spins k n b' (reserveSpaceInternal n True (replicate m (consumer_pos b')) b')"
      using Suc.IH [of b'] by auto
    then have "spins (Suc k) n b (reserveSpaceInternal n True (replicate (Suc m) (consumer_pos b)) b)"
      using False it Suc.prems c by simp
    with k(1) show ?thesis by (intro exI [of _ "Suc k"]) simp
  qed
qed

text \<open>Where the thread is after a reservation.\<close>

fun after_wait :: "call_site \<Rightarrow> arg list \<Rightarrow> 64 word \<Rightarrow> reservation \<Rightarrow> pc" where
  "after_wait site args n (Reserved a) = At_stores site args n a"
| "after_wait site args n _ = At_spin site args n"

lemma reserve_step_eq: "reserveAlloc t p (unat n) 0 s = Inr (x, s') \<Longrightarrow>
   reserve_step t p site args n s = (after_wait site args n x, s')"
  by (cases x) (simp_all add: reserve_step_def)

lemma spin_step_eq: "staging_ptr s t = Some q \<Longrightarrow> heap s q = Some b \<Longrightarrow>
   reserveSpaceInternal (unat n) True [consumer_pos b] b = (x, b') \<Longrightarrow>
   spin_step t site args n s = (after_wait site args n x, s\<lparr>heap := (heap s)(q \<mapsto> b')\<rparr>)"
  by (cases x) (simp_all add: spin_step_def)

lemma moved_simps [simp]:
  "pcs (moved t r S) t = fst r" "logger_state (moved t r S) = snd r" "moved t r (moved t r' S) = moved t r S"
  by (simp_all add: moved_def)

lemma spin_run:
  "spins k (unat n) b (x, b') \<Longrightarrow> staging_ptr s t = Some q \<Longrightarrow> heap s q = Some b \<Longrightarrow>
     run (thread_step own w can_open) (moved t (At_spin site args n, s) S) (replicate k (Spin t))
       (moved t (after_wait site args n x, s\<lparr>heap := (heap s)(q \<mapsto> b')\<rparr>) S)"
proof (induction k arbitrary: b s)
  case 0
  then have e: "s\<lparr>heap := (heap s)(q \<mapsto> b')\<rparr> = s" by (simp add: fun_upd_idem)
  show ?case unfolding e using 0 run_Nil by simp
next
  case (Suc k)
  obtain y b1 where y: "reserveSpaceInternal (unat n) True [consumer_pos b] b = (y, b1)" by fastforce
  let ?s = "s\<lparr>heap := (heap s)(q \<mapsto> b1)\<rparr>"
  have st: "thread_step own w can_open (moved t (At_spin site args n, s) S) (Spin t)
      (moved t (after_wait site args n y, ?s) S)"
    using thread_spin [of "moved t (At_spin site args n, s) S" t site args n own w can_open]
      spin_step_eq [OF Suc.prems(2,3) y, of site args] by simp
  show ?case
  proof (cases "\<exists>a. y = Reserved a")
    case True
    with Suc.prems(1) y have "k = 0" "x = y" "b' = b1" by auto
    with run_single [of "thread_step own w can_open", OF st] show ?thesis by (simp del: fun_upd_apply)
  next
    case False
    then have "spins k (unat n) b1 (x, b')" "after_wait site args n y = At_spin site args n"
      using Suc.prems(1) y by (cases y; simp)+
    with Suc.IH [of b1 ?s] Suc.prems(2) run_Cons [where step = "thread_step own w can_open", OF st]
    show ?thesis by (simp del: fun_upd_apply add: fun_upd_same)
  qed
qed

lemma reserveAlloc_spins:
  assumes "reserveAlloc t p n reads s = Inr (x, s')"
  obtains a where "x = Reserved a" "reserveAlloc t p n 0 s = Inr (x, s')"
  | s1 q b b' k where "k \<le> reads" "reserveAlloc t p n 0 s = Inr (Spinning, s1)" "staging_ptr s1 t = Some q"
      "heap s1 q = Some b" "spins k n b (x, b')" "s' = s1\<lparr>heap := (heap s1)(q \<mapsto> b')\<rparr>"
proof -
  let ?s = "ensureStagingBufferAllocated t p s"
  have eq: "(if staging_ptr s t = None then ?s else s) = ?s" by (simp add: ensureStagingBufferAllocated_def)
  with assms obtain q b b' where q: "staging_ptr ?s t = Some q" "heap ?s q = Some b"
    "reserveProducerSpace n (replicate reads (consumer_pos b)) b = (x, b')"
    "s' = ?s\<lparr>heap := (heap ?s)(q \<mapsto> b')\<rparr>"
    unfolding reserveAlloc_def by (simp only: Let_def) (auto split: option.splits prod.splits)
  let ?b = "b\<lparr>num_allocations := (num_allocations b + 1) mod 2 ^ 64\<rparr>"
  let ?s1 = "?s\<lparr>heap := (heap ?s)(q \<mapsto> ?b)\<rparr>"
  show thesis
  proof (cases "n < min_free_space b")
    case True
    with q(3) have "x = Reserved (producer_pos ?b)" "b' = ?b" by (auto simp: reserveProducerSpace_def Let_def)
    moreover from True q(1,2) this q(4) have "reserveAlloc t p n 0 s = Inr (x, s')"
      unfolding reserveAlloc_def by (simp only: Let_def eq) (simp add: reserveProducerSpace_def Let_def)
    ultimately show thesis using that(1) by blast
  next
    case False
    have r0: "reserveAlloc t p n 0 s = Inr (Spinning, ?s1)"
      using False q(1,2) unfolding reserveAlloc_def
      by (simp only: Let_def eq) (simp add: reserveProducerSpace_def Let_def)
    have "reserveSpaceInternal n True (replicate reads (consumer_pos ?b)) ?b = (x, b')"
      using q(3) False by (simp add: reserveProducerSpace_def Let_def)
    then obtain k where "k \<le> reads" "spins k n ?b (x, b')"
      using reserveSpaceInternal_spins [of ?b n reads] False by auto
    moreover have "s' = ?s1\<lparr>heap := (heap ?s1)(q \<mapsto> b')\<rparr>" using q(4) by simp
    ultimately show thesis using that(2) [OF _ r0, of k q ?b b'] q(1) by simp
  qed
qed

text \<open>The steps of a whole statement, waiting for \<open>k\<close> reads of the consumer's position.\<close>

abbreviation waiting_steps :: "nat \<Rightarrow> nat \<Rightarrow> call_site \<Rightarrow> arg list \<Rightarrow> thread_event list" where
  "waiting_steps t k site args \<equiv> Begin t site args # Reserve t # replicate k (Spin t)"

lemma statement_in_steps:
  assumes log: "STATIC_LOG t p reads c site args s = Inr (x, s')" and site: "site \<in> own t" "statement_args site args"
    and p: "heap s p = None" and S: "logger_state S = s" "pcs S t = Outside"
  shows "(x = Dropped \<and> s' = s \<and> run (thread_step own w can_open) S [Begin t site args] S)
    \<or> (\<exists>k \<le> reads. (x = Blocked \<and> (\<exists>n. run (thread_step own w can_open) S (waiting_steps t k site args)
           (moved t (At_spin site args n, s') S)))
       \<or> (x = Logged \<and> run (thread_step own w can_open) S
           (waiting_steps t k site args @ [Stores t c, Finish t site args c]) (moved t (Outside, s') S)))"
proof -
  let ?step = "thread_step own w can_open"
  note C = run_Cons [where step = ?step] and C1 = run_single [where step = ?step]
  have id: "moved t (Outside, s) S = S" using S by (simp add: moved_def fun_upd_idem)
  have b: "?step S (Begin t site args) (moved t (begin_statement site args s) S)"
    using thread_begin [of S t site own args w can_open] S site by simp
  obtain info where i: "static_info_of site = Inr info" using site(2) by (rule statement_argsE)
  show ?thesis
  proof (cases "getLogLevel s < severity site")
    case True
    with log i have "x = Dropped \<and> s' = s" by (simp add: STATIC_LOG_def)
    moreover have "begin_statement site args s = (Outside, s)" using True i by (simp add: begin_statement_def)
    ultimately show ?thesis using C1 [OF b] id by simp
  next
    case False
    with log i obtain n s1 y s2 where sz: "size_arguments site info args s = Inr (n, s1)"
      and r: "reserveAlloc t p (unat n) reads s1 = Inr (y, s2)"
      and rest: "(case y of
             Reserved write_pos \<Rightarrow>
               (case Option.bind (staging_ptr s2 t) (\<lambda>q. map_option (Pair q) (heap s2 q)) of
                  None \<Rightarrow> Inl (Backend_error Null_dereference)
                | Some (q, b) \<Rightarrow>
                    sum_bind (write_record site info args n (param_sizes s2 (param_size_addr site)) c write_pos (storage b))
                     (\<lambda>m. sum_bind (lift_error Backend_error
                        (finishAlloc t (unat n) (s2\<lparr>heap := (heap s2)(q \<mapsto> b\<lparr>storage := m\<rparr>)\<rparr>)))
                      (\<lambda>s. Inr (Logged, s))))
           | _ \<Rightarrow> Inr (Blocked, s2)) = Inr (x, s')"
      by (auto simp: STATIC_LOG_def sum_bind_Inr_iff lift_error_Inr_iff)
    have "heap s1 = heap s" using sz by (auto simp: size_arguments_def sum_bind_Inr_iff)
    then have p1: "heap s1 p = None" using p by simp
    have "begin_statement site args s = (At_reserve site args n, s1)"
      using False i sz by (simp add: begin_statement_def)
    with b have b: "?step S (Begin t site args) (moved t (At_reserve site args n, s1) S)" by simp
    have res: "?step (moved t (At_reserve site args n, s1) S) (Reserve t) (moved t (after_wait site args n z, s3) S)"
      if "reserveAlloc t p (unat n) 0 s1 = Inr (z, s3)" for z s3
      using thread_reserve [of "moved t (At_reserve site args n, s1) S" t site args n p own w can_open]
        reserve_step_eq [OF that, of site args] p1 by simp
    from r have wait: "\<exists>k \<le> reads. run ?step S (waiting_steps t k site args) (moved t (after_wait site args n y, s2) S)"
    proof (cases rule: reserveAlloc_spins)
      case (1 a)
      have "run ?step S (waiting_steps t 0 site args) (moved t (after_wait site args n y, s2) S)"
        unfolding replicate_0 by (rule C [OF b C1 [OF res [OF 1(2)]]])
      then show ?thesis by (intro exI [of _ 0]) simp
    next
      case (2 s3 q bq b' k)
      have "?step (moved t (At_reserve site args n, s1) S) (Reserve t) (moved t (At_spin site args n, s3) S)"
        using res [OF 2(2)] by simp
      from C [OF b C [OF this spin_run [OF 2(5,3,4)]]] 2(1,6)
      show ?thesis by (intro exI [of _ k]) simp
    qed
    show ?thesis
    proof (cases y)
      case (Reserved a)
      with rest obtain q bq m s4 where f: "staging_ptr s2 t = Some q" "heap s2 q = Some bq"
        "write_record site info args n (param_sizes s2 (param_size_addr site)) c a (storage bq) = Inr m"
        "finishAlloc t (unat n) (s2\<lparr>heap := (heap s2)(q \<mapsto> bq\<lparr>storage := m\<rparr>)\<rparr>) = Inr s4"
        "x = Logged" "s' = s4"
        by (auto simp: sum_bind_Inr_iff lift_error_Inr_iff bind_eq_Some_conv split: option.splits)
      let ?s3 = "s2\<lparr>heap := (heap s2)(q \<mapsto> bq\<lparr>storage := m\<rparr>)\<rparr>"
      have "store_step t c site args n a s2 = (At_finish site args n c, ?s3)"
        using f(1-3) i by (simp add: store_step_def)
      then have st: "?step (moved t (At_stores site args n a, s2) S) (Stores t c) (moved t (At_finish site args n c, ?s3) S)"
        using thread_stores [of "moved t (At_stores site args n a, s2) S" t site args n a own w can_open c] by simp
      have "finish_step t n ?s3 = (Outside, s4)" using f(4) by (simp add: finish_step_def)
      then have fi: "?step (moved t (At_finish site args n c, ?s3) S) (Finish t site args c) (moved t (Outside, s4) S)"
        using thread_finish [of "moved t (At_finish site args n c, ?s3) S" t site args n c own w can_open] by simp
      obtain k where k: "k \<le> reads" "run ?step S (waiting_steps t k site args) (moved t (At_stores site args n a, s2) S)"
        using wait Reserved by auto
      have "run ?step S (waiting_steps t k site args @ [Stores t c, Finish t site args c]) (moved t (Outside, s4) S)"
        by (rule run_append [OF k(2) C [OF st C1 [OF fi]]])
      with f(5,6) k(1) show ?thesis by blast
    qed (use rest wait in auto)
  qed
qed

subsection \<open>Two threads at one statement\<close>

lemma reserve_room:
  assumes "system_inv sites s" "unat n < free_space s t" "heap s p = None"
  obtains q b a s' where "reserve_step t p site args n s = (At_stores site args n a, s')"
    "staging_ptr s' t = Some q" "heap s' q = Some b" "param_sizes s' = param_sizes s"
proof -
  obtain rs where rs: "thread_records s t rs" by (rule thread_records_ex [OF system_invD(1) [OF assms(1)]])
  obtain x s' where x: "reserveAlloc t p (unat n) 0 s = Inr (x, s')" "thread_records s' t rs"
    using log_space.reserve_total [OF rs] by blast
  note f = reserveAlloc_frame [OF x(1)]
  obtain q where q: "staging_ptr s' t = Some q" using others_same_ptr [OF f(2)] by blast
  obtain b where b: "heap s' q = Some b" using x(2) q by (auto simp: thread_records_def split: option.splits)
  obtain a where "x = Reserved a" using reserveAlloc_room(1) [OF x(1) assms(2)] by blast
  with reserve_step_eq [OF x(1), of site args] show thesis by (intro that [OF _ q b f(3)]) simp
qed

lemma begin_one_string:
  assumes inv: "system_inv sites s" and inj: "inj_on param_size_addr sites" and site: "site \<in> sites"
    and i: "static_info_of site = Inr info" "param_types info = [kSTRING_WITH_NO_PRECISION]" "num_params info = 1"
    and lev: "\<not> getLogLevel s < severity site" and args: "statement_args site [AStr a str]"
  obtains n s' where "begin_statement site [AStr a str] s = (At_reserve site [AStr a str] n, s')"
    "size_arguments site info [AStr a str] s = Inr (n, s')" "system_inv sites s'" "heap s' = heap s"
    "staging_ptr s' = staging_ptr s" "getLogLevel s' = getLogLevel s" "unat n = 36 + length str"
proof -
  have arr: "length (param_size_array site 1 s) = 2"
    using arrays_okD [OF system_invD(2) [OF inv] site i(1)] i(3) by simp
  have "length str + 4 < 2 ^ 31" using args i by (simp add: statement_args_def param_order stored_length_def)
  then have len: "length str < 2 ^ 31" "36 + length str < 2 ^ 32" by simp_all
  obtain n s' where sz: "size_arguments site info [AStr a str] s = Inr (n, s')" "n = of_nat (length str) + 36"
    using size_one_string [OF i(2,3) _ arr, of str a] len by auto
  have b: "begin_statement site [AStr a str] s = (At_reserve site [AStr a str] n, s')"
    using i(1) lev sz(1) by (simp add: begin_statement_def)
  have "n = of_nat (36 + length str)" using sz(2) by simp
  then have "unat n = 36 + length str" using unat_of_nat_64 [OF len(2)] by simp
  moreover have own: "site \<in> {site}" "{site} \<subseteq> sites" using site by simp_all
  note ef = begin_effect(1,3-5) [OF inv inj own args b]
  ultimately show thesis using that [OF b sz(1)] ef by blast
qed

text \<open>The sample statement, step by step.\<close>

abbreviation sample_thread_step :: "threads \<Rightarrow> thread_event \<Rightarrow> threads \<Rightarrow> bool" where
  "sample_thread_step \<equiv> thread_step ((\<lambda>_. {})(1 := {sample_site})) sample_surroundings (\<lambda>_. True)"

abbreviation sample_steps :: "thread_event list" where
  "sample_steps \<equiv> [Begin 1 sample_site [AStr 0 ''hi''], Reserve 1, Stores 1 99]"

lemma sample_start_facts:
  "heap (sample_backend\<lparr>files := (\<lambda>_. None)\<rparr>) = (\<lambda>_. None)"
  "staging_ptr (sample_backend\<lparr>files := (\<lambda>_. None)\<rparr>) = (\<lambda>_. None)"
  "param_sizes (sample_backend\<lparr>files := (\<lambda>_. None)\<rparr>) = (\<lambda>_. [])"
  "StaticLogBackend (\<lambda>_. True) 4096 (sample_backend\<lparr>files := (\<lambda>_. None)\<rparr>) = Inr sample_backend"
  by (simp_all add: StaticLogBackend_def Let_def open_log_def sample_backend_def sample_buffer_def)

lemma sample_disjoint: "statements_disjoint ((\<lambda>_. {})(1 := {sample_site}))"
  by (auto simp: statements_disjoint_def inj_on_def)

lemma run_split: "run step s (es @ es') s2 \<Longrightarrow> \<exists>s1. run step s es s1 \<and> run step s1 es' s2"
proof (induction es arbitrary: s)
  case Nil
  then show ?case using run_Nil [of step s] by auto
next
  case (Cons e es)
  then obtain s1 where "step s e s1" "run step s1 (es @ es') s2" by (auto elim: run.cases)
  with Cons.IH [of s1] show ?case by (auto intro: run_Cons)
qed

lemma sample_thread_run:
  obtains S1 S2 where "run sample_thread_step (start_threads sample_backend) sample_steps S1"
    "sample_thread_step S1 (Finish 1 sample_site [AStr 0 ''hi''] 99) S2" "pcs S2 1 = Outside"
    "\<forall>u. u \<noteq> 1 \<longrightarrow> staging_ptr (logger_state S2) u = None"
proof -
  obtain s where s: "STATIC_LOG 1 5000 0 99 sample_site [AStr 0 ''hi''] sample_backend = Inr (Logged, s)"
    using sample_statement_logged by blast
  have "\<not> getLogLevel sample_backend < severity sample_site" "list_all arg_ok [AStr 0 ''hi'']"
    "length [AStr 0 ''hi''] \<le> num_params sample_info"
    "length (param_size_array sample_site (num_params sample_info) sample_backend) = num_params sample_info + 1"
    by (simp_all add: sample_backend_def sample_site_def sample_info_def getLogLevel_def log_level_defs param_size_array_def)
  then obtain "others_same 1 5000 sample_backend s" by (rule STATIC_LOG_frame [OF s sample_static_info])
  then have others: "\<forall>u. u \<noteq> 1 \<longrightarrow> staging_ptr s u = None" by (simp add: others_same_def sample_backend_def)
  have h: "heap sample_backend 5000 = None" by (simp add: sample_backend_def)
  let ?S = "moved 1 (Outside, s) (start_threads sample_backend)"
  have "run sample_thread_step (start_threads sample_backend)
      (sample_steps @ [Finish 1 sample_site [AStr 0 ''hi''] 99]) ?S"
    using statement_in_steps [OF s _ sample_statement_args h, of "(\<lambda>_. {})(1 := {sample_site})"
      "start_threads sample_backend" sample_surroundings "\<lambda>_. True"] by simp
  from run_split [OF this] obtain S1 where S1: "run sample_thread_step (start_threads sample_backend) sample_steps S1"
    "run sample_thread_step S1 [Finish 1 sample_site [AStr 0 ''hi''] 99] ?S" by blast
  from S1(2) obtain S3 where "sample_thread_step S1 (Finish 1 sample_site [AStr 0 ''hi''] 99) S3"
    "run sample_thread_step S3 [] ?S" by (auto elim: run.cases)
  moreover from this(2) have "S3 = ?S" by (auto elim: run.cases)
  ultimately show thesis using that [OF S1(1)] others by simp
qed

subsection \<open>Properties\<close>

text \<open>
  C3. Threads that share no statement execute theirs step by step, with the worker and the functions of the
  interface in between at any point: as long as the level is not changed, the queues are those of a run in
  which each statement is executed in one piece at the moment it finishes. A record is therefore visible to
  the worker as a whole or not at all, each thread's records are in the order of its statements, and none is
  lost. Threads at one statement race on its \<^verbatim>\<open>param_size\<close> array and are excluded.
\<close>

theorem statements_serialize:
  assumes "heap s0 = (\<lambda>_. None)" "staging_ptr s0 = (\<lambda>_. None)" "param_sizes s0 = (\<lambda>_. [])"
    and "StaticLogBackend can_open buffer s0 = Inr s1" "statements_disjoint own"
    and "run (thread_step own w can_open) (start_threads s1) es S2" "\<forall>l. Other (SetLevel l) \<notin> set es"
  shows "\<exists>Q. run spec_step start_queues (concat (map serial es)) Q
    \<and> owner Q = staging_ptr (logger_state S2)
    \<and> (\<forall>p. rel_option sb_records (heap (logger_state S2) p) (queues Q p))"
proof -
  note st = start_threads_inv [OF assms(1-4)]
  have r: "run (\<lambda>S e S'. thread_step own w can_open S e S' \<and> (\<forall>l. e \<noteq> Other (SetLevel l))) (start_threads s1) es S2"
    by (rule run_restrict [OF assms(6)]) (use assms(7) in auto)
  obtain Q where Q: "run (\<lambda>A e A'. run spec_step A (serial e) A') start_queues es Q" "simulates (logger_state S2) Q"
    using serialized.sim_run [OF r, of start_queues] st assms(5) by auto
  from run_concat [where f = serial and step = spec_step, OF Q(1)] Q(2) show ?thesis
    unfolding simulates_def by blast
qed

theorem statements_serialize_witness:
  "\<exists>S2 Q. run (thread_step ((\<lambda>_. {})(1 := {sample_site})) sample_surroundings (\<lambda>_. True))
      (start_threads sample_backend) (sample_steps @ [Finish 1 sample_site [AStr 0 ''hi''] 99, Other (Exit 1)]) S2
    \<and> run spec_step start_queues [Preallocate 1, Log 1 sample_site [AStr 0 ''hi''] 99, Exit 1] Q
    \<and> owner Q = staging_ptr (logger_state S2)
    \<and> (\<forall>p. rel_option sb_records (heap (logger_state S2) p) (queues Q p))"
proof -
  obtain S1 S2 where r: "run sample_thread_step (start_threads sample_backend) sample_steps S1"
    "sample_thread_step S1 (Finish 1 sample_site [AStr 0 ''hi''] 99) S2" "pcs S2 1 = Outside" by (rule sample_thread_run)
  obtain S3 where S3: "sample_thread_step S2 (Other (Exit 1)) S3"
    using thread_other [where S = S2 and e = "Exit 1", OF step_exit] r(3) by auto
  note x = run_append [OF r(1) run_Cons [where step = sample_thread_step, OF r(2) run_single [where step = sample_thread_step, OF S3]]]
  have e: "concat (map serial (sample_steps @ [Finish 1 sample_site [AStr 0 ''hi''] 99, Other (Exit 1)])) =
      [Preallocate 1, Log 1 sample_site [AStr 0 ''hi''] 99, Exit 1]" by simp
  have "\<forall>l. Other (SetLevel l) \<notin> set (sample_steps @ [Finish 1 sample_site [AStr 0 ''hi''] 99, Other (Exit 1)])"
    by simp
  from statements_serialize [OF sample_start_facts sample_disjoint x this] x show ?thesis unfolding e by blast
qed

text \<open>
  C8. However the steps of the threads, of the worker and of the interface are interleaved, level changes
  included, no step of a statement fails: no pointer is null, no assertion of the staging buffer is
  violated, no argument is read beyond its end; and when a thread is about to finish, the bytes behind its
  buffer's producer are exactly the record of its statement.
\<close>

theorem interleaved_statements_safe:
  assumes "heap s0 = (\<lambda>_. None)" "staging_ptr s0 = (\<lambda>_. None)" "param_sizes s0 = (\<lambda>_. [])"
    and "StaticLogBackend can_open buffer s0 = Inr s1" "statements_disjoint own"
    and "run (thread_step own w can_open) (start_threads s1) es S2"
  shows "pcs S2 t \<noteq> Failed err
    \<and> (pcs S2 t = At_finish site args n c \<longrightarrow> (\<exists>info q b. static_info_of site = Inr info
         \<and> staging_ptr (logger_state S2) t = Some q \<and> heap (logger_state S2) q = Some b
         \<and> unat n < min_free_space b
         \<and> mem_read (storage b) (producer_pos b) (unat n) = statement_record site info args c))"
proof -
  note st = start_threads_inv [OF assms(1-4)]
  have "threads_inv own S2"
    using interleaved.sim_run [OF assms(6), of start_queues] st assms(5) by simp
  note I = threads_invD(2) [OF this, of t]
  have "pcs S2 t \<noteq> Failed err" using I by (cases "pcs S2 t") auto
  then show ?thesis using I by (auto simp: filled_def thread_buffer_Some)
qed

theorem interleaved_statements_safe_witness:
  "\<exists>S2 n info q b. run (thread_step ((\<lambda>_. {})(1 := {sample_site})) sample_surroundings (\<lambda>_. True))
      (start_threads sample_backend) sample_steps S2
    \<and> pcs S2 1 = At_finish sample_site [AStr 0 ''hi''] n 99 \<and> static_info_of sample_site = Inr info
    \<and> staging_ptr (logger_state S2) 1 = Some q \<and> heap (logger_state S2) q = Some b
    \<and> mem_read (storage b) (producer_pos b) (unat n) = statement_record sample_site info [AStr 0 ''hi''] 99"
proof -
  obtain S1 S2 where r: "run sample_thread_step (start_threads sample_backend) sample_steps S1"
    "sample_thread_step S1 (Finish 1 sample_site [AStr 0 ''hi''] 99) S2" by (rule sample_thread_run)
  obtain n where n: "pcs S1 1 = At_finish sample_site [AStr 0 ''hi''] n 99" using r(2) by cases auto
  from interleaved_statements_safe [OF sample_start_facts sample_disjoint r(1),
      of 1 "Store_error Read_past_string" sample_site "[AStr 0 ''hi'']" n 99] n r(1)
  show ?thesis by blast
qed

text \<open>
  C10. A statement executed in one piece, as in the other theories, is an interleaving in which no other
  thread takes a step between its beginning and its end.
\<close>

theorem atomic_statement_is_interleaving:
  assumes "STATIC_LOG t p reads c site args s = Inr (x, s')" "site \<in> own t" "statement_args site args"
    and "heap s p = None" "logger_state S = s" "pcs S t = Outside"
  shows "(x = Dropped \<and> s' = s \<and> run (thread_step own w can_open) S [Begin t site args] S)
    \<or> (\<exists>k \<le> reads. (x = Blocked \<and> (\<exists>n. run (thread_step own w can_open) S (waiting_steps t k site args)
           (moved t (At_spin site args n, s') S)))
       \<or> (x = Logged \<and> run (thread_step own w can_open) S
           (waiting_steps t k site args @ [Stores t c, Finish t site args c]) (moved t (Outside, s') S)))"
  using assms by (rule statement_in_steps)

theorem atomic_statement_is_interleaving_witness:
  "\<exists>s. STATIC_LOG 1 5000 0 99 sample_site [AStr 0 ''hi''] sample_backend = Inr (Logged, s)
    \<and> run (thread_step (\<lambda>_. {sample_site}) sample_surroundings (\<lambda>_. True)) (start_threads sample_backend)
        (waiting_steps 1 0 sample_site [AStr 0 ''hi''] @ [Stores 1 99, Finish 1 sample_site [AStr 0 ''hi''] 99])
        (moved 1 (Outside, s) (start_threads sample_backend))"
proof -
  obtain s where s: "STATIC_LOG 1 5000 0 99 sample_site [AStr 0 ''hi''] sample_backend = Inr (Logged, s)"
    using sample_statement_logged by blast
  have h: "heap sample_backend 5000 = None" by (simp add: sample_backend_def)
  from atomic_statement_is_interleaving [OF s _ sample_statement_args h, of "\<lambda>_. {sample_site}"
      "start_threads sample_backend" sample_surroundings "\<lambda>_. True"] s
  show ?thesis by simp
qed

text \<open>
  C9. Two threads at one statement: if the second thread fills the shared \<^verbatim>\<open>param_size\<close> array with a longer
  string after the first has computed its own sizes, the first thread's stores read beyond its string.
\<close>

theorem shared_statement_reads_past_string:
  assumes "static_info_of site = Inr info" "param_types info = [kSTRING_WITH_NO_PRECISION]" "num_params info = 1"
    and "site \<in> own t" "site \<in> own t'" "t \<noteq> t'" "pcs S t = Outside" "pcs S t' = Outside"
    and "system_inv sites (logger_state S)" "inj_on param_size_addr sites" "site \<in> sites"
    and "\<not> getLogLevel (logger_state S) < severity site"
    and "statement_args site [AStr a str]" "statement_args site [AStr a' str']"
    and "length str + 1 < length str'" "36 + length str < free_space (logger_state S) t"
  shows "\<exists>S'. run (thread_step own w can_open) S
      [Begin t site [AStr a str], Begin t' site [AStr a' str'], Reserve t, Stores t c] S'
    \<and> pcs S' t = Failed (Store_error Read_past_string)"
proof -
  let ?step = "thread_step own w can_open" and ?x = "[AStr a str]" and ?x' = "[AStr a' str']"
  note i = assms(1-3)
  obtain n s1 where s1: "begin_statement site ?x (logger_state S) = (At_reserve site ?x n, s1)"
    "size_arguments site info ?x (logger_state S) = Inr (n, s1)" "system_inv sites s1" "heap s1 = heap (logger_state S)"
    "staging_ptr s1 = staging_ptr (logger_state S)" "getLogLevel s1 = getLogLevel (logger_state S)" "unat n = 36 + length str"
    by (rule begin_one_string [OF assms(9-11) i assms(12,13)])
  have lev1: "\<not> getLogLevel s1 < severity site" using assms(12) s1(6) by simp
  obtain n' s2 where s2: "begin_statement site ?x' s1 = (At_reserve site ?x' n', s2)"
    "size_arguments site info ?x' s1 = Inr (n', s2)" "system_inv sites s2" "heap s2 = heap s1"
    "staging_ptr s2 = staging_ptr s1" "unat n' = 36 + length str'"
    by (rule begin_one_string [OF s1(3) assms(10,11) i lev1 assms(14)])
  obtain p where p: "heap s2 p = None" using fresh_address [OF system_invD(1) [OF s2(3)]] .
  have "free_space s2 t = free_space (logger_state S) t"
    unfolding free_space_def s2(4,5) s1(4,5) by (rule refl)
  then have room: "unat n < free_space s2 t" using assms(16) s1(7) by simp
  obtain q b d s3 where s3: "reserve_step t p site ?x n s2 = (At_stores site ?x n d, s3)"
    "staging_ptr s3 t = Some q" "heap s3 q = Some b" "param_sizes s3 = param_sizes s2"
    by (rule reserve_room [OF s2(3) room p])
  have arr: "length (param_size_array site 1 (logger_state S)) = 2"
    using arrays_okD [OF system_invD(2) [OF assms(9)] assms(11) i(1)] i(3) by simp
  have "length str < 2 ^ 31" "length str' < 2 ^ 31"
    using assms(13,14) i by (auto simp: statement_args_def param_order stored_length_def)
  from shared_param_size_race [OF i(2,3) arr this s1(2) s2(2), of c d "storage b"] assms(15)
  have "write_record site info ?x n (param_sizes s3 (param_size_addr site)) c d (storage b) =
      Inl (Store_error Read_past_string)"
    unfolding s3(4) by blast
  then have s4: "store_step t c site ?x n d s3 = (Failed (Store_error Read_past_string), s3)"
    using i(1) s3(2,3) by (simp add: store_step_def)
  let ?S1 = "moved t (At_reserve site ?x n, s1) S"
  let ?S2 = "moved t' (At_reserve site ?x' n', s2) ?S1"
  let ?S3 = "moved t (At_stores site ?x n d, s3) ?S2"
  have pc: "pcs ?S1 t' = Outside" "pcs ?S2 t = At_reserve site ?x n" "logger_state ?S2 = s2"
    using assms(6,8) by (simp_all add: moved_def)
  note C = run_Cons [where step = ?step]
  have st1: "?step S (Begin t site ?x) ?S1"
    using thread_begin [of S t site own ?x w can_open] assms(4,7,13) s1(1) by simp
  have st2: "?step ?S1 (Begin t' site ?x') ?S2"
    using thread_begin [of ?S1 t' site own ?x' w can_open] pc(1) assms(5,14) s2(1) by simp
  have st3: "?step ?S2 (Reserve t) ?S3"
    using thread_reserve [of ?S2 t site ?x n p own w can_open] pc(2,3) p s3(1) by simp
  have st4: "?step ?S3 (Stores t c) (moved t (Failed (Store_error Read_past_string), s3) ?S3)"
    using thread_stores [of ?S3 t site ?x n d own w can_open c] s4 by simp
  show ?thesis
    by (rule exI, rule conjI, rule C [OF st1 C [OF st2 C [OF st3 C [OF st4 run_Nil]]]]) simp
qed

theorem shared_statement_reads_past_string_witness:
  "\<exists>S'. run (thread_step (\<lambda>_. {sample_site}) sample_surroundings (\<lambda>_. True)) (start_threads sample_backend)
      [Begin 1 sample_site [AStr 0 ''a''], Begin 2 sample_site [AStr 0 ''four''], Reserve 1, Stores 1 99] S'
    \<and> pcs S' 1 = Failed (Store_error Read_past_string)"
proof -
  have i: "param_types sample_info = [kSTRING_WITH_NO_PRECISION]" "num_params sample_info = 1"
    by (simp_all add: sample_info_def)
  have sys: "system_inv {sample_site} (logger_state (start_threads sample_backend))"
    using start_inv [OF sample_start_facts] by simp
  have a: "statement_args sample_site [AStr 0 ''a'']" "statement_args sample_site [AStr 0 ''four'']"
    using i by (simp_all add: statement_args_def sample_static_info) (simp_all add: i param_order stored_length_def)
  have "\<not> getLogLevel (logger_state (start_threads sample_backend)) < severity sample_site"
    by (simp add: getLogLevel_def sample_backend_def sample_site_def log_level_defs)
  moreover have "36 + length ''a'' < free_space (logger_state (start_threads sample_backend)) 1"
    by (simp add: free_space_def sample_backend_def kSTAGING_BUFFER_SIZE_def)
  ultimately show ?thesis
    using shared_statement_reads_past_string [OF sample_static_info i, of "\<lambda>_. {sample_site}" 1 2
        "start_threads sample_backend" "{sample_site}" 0 "''a''" 0 "''four''" sample_surroundings "\<lambda>_. True" 99] sys a
    by simp
qed

end
