(* ===== verification/Shutdown.thy ===== *)
theory Shutdown
  imports Drain
begin

section \<open>The end of the process\<close>

text \<open>
  The destructor of \<^verbatim>\<open>StaticLogBackend\<close> sets \<^verbatim>\<open>is_stop_\<close> and joins the worker, whose loop goes on until the
  vector of buffers is empty: when every thread has ended, all that is pending is written, the buffers
  are deleted and the destructor returns; while a thread with a buffer lives it never does.
\<close>

subsection \<open>What the scan does with each buffer\<close>

lemma wait_heap:
  assumes "ioPoll_iteration w now s = Inr (Wait, s')" "distinct (thread_buffers s)"
  shows "heap s' q = (if q \<in> set (thread_buffers s)
    then Option.bind (heap s q) (\<lambda>b. map_option fst (visit_buffer b)) else heap s q)"
proof -
  from assms(1) obtain kept h e where "io_scan (thread_buffers s) (heap s) (UINT64_MAX, None) = Inr (kept, h, e)"
    "heap s' = h"
    by (auto simp: ioPoll_iteration_def Let_def sum_bind_Inr_iff split: if_splits option.splits)
  with io_scan_heap [OF _ assms(2)] show ?thesis by blast
qed

lemma visit_empty:
  assumes "sb_records b []" "should_deallocate b" "visit_buffer b = Some (b', x)"
  shows "checkCanDelete b'"
  using ended_empty_peek [OF assms(1,2)] assms(3) by (auto simp: visit_buffer_def split: if_splits prod.splits)

subsection \<open>The last iterations\<close>

lemma empty_iteration:
  assumes "backend_inv s" "\<not> is_exit s" "\<not> is_stop s \<or> thread_buffers s \<noteq> []" "holds_queues s (\<lambda>_. [])"
  obtains h' where "ioPoll_iteration w now s = Inr (Wait, (after_scan s h')\<lparr>fdflush := Waiting\<rparr>)"
    "scanned (heap s) (thread_buffers s) h'"
proof -
  from assms(1-3) show thesis
  proof (cases rule: ioPoll_iteration_cases [where w = w and now = now])
    case (wait h' m)
    with that show thesis by blast
  next
    case (choice h' m p)
    obtain r rs where "queues (as_spec s (\<lambda>_. [])) p = Some (r # rs)"
      by (rule chosen_queue [OF simulates_as_spec [OF assms(4)] choice(3) backend_invD(1) [OF assms(1)]])
    then show thesis by (simp add: as_spec_def split: if_splits)
  qed
qed

text \<open>Every thread has ended, nothing is pending, and the worker has been told to stop.\<close>

definition ending :: "backend \<Rightarrow> bool" where
  "ending s \<longleftrightarrow> backend_inv s \<and> \<not> is_exit s \<and> is_stop s \<and> holds_queues s (\<lambda>_. [])
     \<and> (\<forall>p b. heap s p = Some b \<longrightarrow> should_deallocate b)"

definition same_files :: "backend \<Rightarrow> backend \<Rightarrow> bool" where
  "same_files s s' \<longleftrightarrow> files s' = files s \<and> outfd s' = outfd s \<and> fdflush_joinable s' = fdflush_joinable s"

definition all_deletable :: "backend \<Rightarrow> bool" where
  "all_deletable s \<longleftrightarrow> (\<forall>p b. heap s p = Some b \<longrightarrow> checkCanDelete b)"

lemma ending_upd [simp]:
  "ending (s\<lparr>fdflush := x\<rparr>) = ending s" "all_deletable (s\<lparr>fdflush := x\<rparr>) = all_deletable s"
  "same_files (s\<lparr>fdflush := x\<rparr>) s' = same_files s s'"
  by (simp_all add: ending_def holds_queues_def all_deletable_def same_files_def backend_inv_def)

lemma same_files_trans: "same_files s s1 \<Longrightarrow> same_files s1 s2 \<Longrightarrow> same_files s s2"
  by (simp add: same_files_def)

lemma no_heap_no_buffers: "backend_inv s \<Longrightarrow> heap s = (\<lambda>_. None) \<longleftrightarrow> thread_buffers s = []"
  using registered_iff [OF backend_invD(1), of s] by (cases "thread_buffers s") (auto simp: fun_eq_iff, blast)

lemma ending_iteration:
  assumes e: "ending s" and ne: "thread_buffers s \<noteq> []"
  obtains s' where "ioPoll_iteration w now s = Inr (Wait, s')" "ending s'" "same_files s s'" "all_deletable s'"
    "all_deletable s \<Longrightarrow> thread_buffers s' = []"
proof -
  note e' = e [unfolded ending_def]
  have inv: "backend_inv s" and q: "holds_queues s (\<lambda>_. [])" using e' by auto
  have c: "\<not> is_exit s" "\<not> is_stop s \<or> thread_buffers s \<noteq> []" using e' ne by auto
  obtain h' where i: "ioPoll_iteration w now s = Inr (Wait, (after_scan s h')\<lparr>fdflush := Waiting\<rparr>)"
    "scanned (heap s) (thread_buffers s) h'"
    by (rule empty_iteration [OF inv c q])
  let ?s = "(after_scan s h')\<lparr>fdflush := Waiting\<rparr>"
  note inv' = after_scan_inv [OF inv i(2)] and q' = holds_queues_scan [OF inv i(2) q]
  have own: "same_owners s (after_scan s h')" by (rule same_owners_scan [OF inv i(2)])
  have "should_deallocate b'" if "heap (after_scan s h') p = Some b'" for p b'
    using own that e' unfolding same_owners_def by metis
  then have "ending (after_scan s h')" using inv' q' e' by (simp add: ending_def)
  then have "ending ?s" by simp
  moreover have "same_files s ?s" by (simp add: same_files_def)
  moreover have "all_deletable ?s"
    unfolding all_deletable_def
  proof (intro allI impI)
    fix p b'
    assume b': "heap ?s p = Some b'"
    have "distinct (thread_buffers s)" using backend_invD(1) [OF inv] by (simp add: registered_def)
    note h = wait_heap [OF i(1) this, of p]
    obtain b where b: "heap s p = Some b"
      using own b' by (auto simp: same_owners_def)
    then have "p \<in> set (thread_buffers s)" using registered_iff [OF backend_invD(1) [OF inv]] by blast
    with h b b' obtain x where "visit_buffer b = Some (b', x)" by auto
    then show "checkCanDelete b'"
      using visit_empty holds_queuesD [OF q b] e' b by blast
  qed
  moreover have "thread_buffers ?s = []" if "all_deletable s"
  proof -
    have "deletable (heap s) p" if p: "p \<in> set (thread_buffers s)" for p
    proof -
      obtain b where "heap s p = Some b" using p registered_iff [OF backend_invD(1) [OF inv]] by blast
      with \<open>all_deletable s\<close> show ?thesis by (simp add: deletable_def all_deletable_def)
    qed
    then show ?thesis by (simp add: after_scan_def filter_empty_conv)
  qed
  ultimately show thesis using that i(1) by blast
qed

lemma ending_leaves:
  assumes "ending s" "thread_buffers s = []"
  shows "\<exists>s1. ioPoll w (now # nows) s = Inr (Leave, s1) \<and> heap s1 = (\<lambda>_. None) \<and> thread_buffers s1 = []
    \<and> same_files s s1"
  using assms no_heap_no_buffers [of s]
  by (simp add: ioPoll_iteration_def ending_def same_files_def)

lemma empty_iterations_end:
  assumes "ending s"
  shows "\<exists>s1. ioPoll w (na # nb # nc # nows) s = Inr (Leave, s1) \<and> heap s1 = (\<lambda>_. None) \<and> thread_buffers s1 = []
    \<and> same_files s s1"
proof (cases "thread_buffers s = []")
  case True
  then show ?thesis by (rule ending_leaves [OF assms])
next
  case False
  have e: "ending (s\<lparr>fdflush := Running\<rparr>)" "thread_buffers (s\<lparr>fdflush := Running\<rparr>) \<noteq> []"
    using assms False by simp_all
  obtain s1 where s1: "ioPoll_iteration w na (s\<lparr>fdflush := Running\<rparr>) = Inr (Wait, s1)" "ending s1" "same_files s s1"
    "all_deletable s1"
    by (rule ending_iteration [OF e, where w = w and now = na]) simp
  show ?thesis
  proof (cases "thread_buffers s1 = []")
    case True
    from ending_leaves [OF s1(2) this, of w nb "nc # nows"] obtain s2 where
      "ioPoll w (nb # nc # nows) s1 = Inr (Leave, s2)" "heap s2 = (\<lambda>_. None)" "thread_buffers s2 = []"
      "same_files s1 s2" by (elim exE conjE)
    with s1(1) same_files_trans [OF s1(3)] show ?thesis by simp
  next
    case False
    have e1: "ending (s1\<lparr>fdflush := Running\<rparr>)" "thread_buffers (s1\<lparr>fdflush := Running\<rparr>) \<noteq> []"
      using s1(2) False by simp_all
    obtain s2 where s2: "ioPoll_iteration w nb (s1\<lparr>fdflush := Running\<rparr>) = Inr (Wait, s2)" "ending s2"
      "same_files s1 s2" "thread_buffers s2 = []"
      by (rule ending_iteration [OF e1, where w = w and now = nb]) (use s1(4) in simp)
    from ending_leaves [OF s2(2,4), of w nc nows] obtain s3 where
      "ioPoll w (nc # nows) s2 = Inr (Leave, s3)" "heap s3 = (\<lambda>_. None)" "thread_buffers s3 = []"
      "same_files s2 s3" by (elim exE conjE)
    with s1(1) s2(1) same_files_trans [OF same_files_trans [OF s1(3) s2(3)]] show ?thesis by simp
  qed
qed

subsection \<open>The destructor\<close>

text \<open>
  The result is none if the destructor still waits in \<^verbatim>\<open>join\<close> after the worker's iterations at the times
  given. A worker that has left already, or was not restarted, is not waited for.
\<close>

definition shutdown_StaticLogBackend ::
  "surroundings \<Rightarrow> nat list \<Rightarrow> backend \<Rightarrow> worker_error + backend option" where
  "shutdown_StaticLogBackend w nows s =
     (let s = s\<lparr>is_stop := True\<rparr>
      in if fdflush_joinable s \<and> fdflush s \<noteq> Finished
         then sum_bind (ioPoll w nows s) (\<lambda>(r, s).
                Inr (if r = Leave then Some (destroy_StaticLogBackend s) else None))
         else Inr (Some (destroy_StaticLogBackend s)))"

lemma ioPoll_append:
  "ioPoll w ns s = Inr (Wait, s1) \<Longrightarrow> ioPoll w ms s1 = r \<Longrightarrow> ioPoll w (ns @ ms) s = r"
proof (induction ns arbitrary: s)
  case Nil
  then show ?case by simp
next
  case (Cons n ns)
  then obtain x s' where "ioPoll_iteration w n (s\<lparr>fdflush := Running\<rparr>) = Inr (x, s')" "x \<noteq> Leave"
    "ioPoll w ns s' = Inr (Wait, s1)"
    by (auto simp: sum_bind_Inr_iff split: if_splits)
  with Cons.IH Cons.prems(2) show ?case by simp
qed

lemma drainable_registered:
  assumes "drainable w q s"
  shows "\<forall>p. q p \<noteq> [] \<longrightarrow> p \<in> set (thread_buffers s)"
proof (intro allI impI)
  fix p
  assume "q p \<noteq> []"
  have hq: "holds_queues s (records_of q)" and inv: "backend_inv s" using assms by (simp_all add: drainable_def)
  from holds_queues_nonempty [OF hq, of p] \<open>q p \<noteq> []\<close> obtain b where "heap s p = Some b" by auto
  then show "p \<in> set (thread_buffers s)" using registered_iff [OF backend_invD(1) [OF inv]] by blast
qed

text \<open>The iterations while the worker has been told to stop: all pending lines, then three more.\<close>

lemma stopped_worker_drains:
  assumes "drainable w q s" "is_stop s" "outfd s = Some (f, off)" "files s f = Some c" "off \<le> length c"
    and "\<forall>p b. heap s p = Some b \<longrightarrow> should_deallocate b"
    and "\<forall>now \<in> set nows. clock_ok w now" "length nows = (\<Sum>p\<in>set (thread_buffers s). length (q p))"
  shows "\<exists>out ls s'. ioPoll w (nows @ na # nb # nc # ns) s = Inr (Leave, s') \<and> drains st_stamp q out
    \<and> lines_of w nows out ls \<and> files s' = (files s)(f \<mapsto> overwrite c off (concat ls))
    \<and> heap s' = (\<lambda>_. None) \<and> thread_buffers s' = []"
proof -
  note P = drainable_registered [OF assms(1)]
  obtain out ls s1 where s1: "ioPoll w nows s = Inr (Wait, s1)" "drains st_stamp q out"
    "lines_of w nows out ls" "files s1 = (files s)(f \<mapsto> overwrite c off (concat ls))"
    "drainable w (\<lambda>_. []) s1" "same_owners s s1" "is_stop s1 = is_stop s"
    using ioPoll_drains [OF assms(1,3-5,7) finite_set P assms(8)] by (elim exE conjE)
  have "should_deallocate b'" if "heap s1 p = Some b'" for p b'
    using s1(6) that assms(6) unfolding same_owners_def by metis
  then have "ending s1" using s1(5,7) assms(2) by (simp add: ending_def drainable_def)
  from empty_iterations_end [OF this, of w na nb nc ns] obtain s2 where
    s2: "ioPoll w (na # nb # nc # ns) s1 = Inr (Leave, s2)" "heap s2 = (\<lambda>_. None)" "thread_buffers s2 = []"
      "same_files s1 s2" by (elim exE conjE)
  with ioPoll_append [OF s1(1) s2(1)] s1(2-4) show ?thesis
    by (intro exI [of _ out] exI [of _ ls] exI [of _ s2]) (simp add: same_files_def)
qed

text \<open>A live thread keeps the worker in its loop.\<close>

lemma live_thread_keeps_worker:
  "backend_inv s \<Longrightarrow> \<not> is_exit s \<Longrightarrow> staging_ptr s t = Some p \<Longrightarrow> ioPoll w nows s = Inr (x, s') \<Longrightarrow> x \<noteq> Leave"
proof (induction nows arbitrary: s)
  case Nil
  then show ?case by simp
next
  case (Cons now nows)
  let ?s = "s\<lparr>fdflush := Running\<rparr>"
  have inv: "backend_inv ?s" using Cons.prems(1) by (simp add: backend_inv_def)
  obtain b where "heap s p = Some b" using stagedD [OF backend_invD(2) [OF Cons.prems(1)] Cons.prems(3)] by blast
  then have ne: "thread_buffers ?s \<noteq> []"
    using registered_iff [OF backend_invD(1) [OF Cons.prems(1)], of p] by auto
  obtain y s1 where i: "ioPoll_iteration w now ?s = Inr (y, s1)"
    "(if y = Leave then Inr (y, s1) else ioPoll w nows s1) = Inr (x, s')"
    using Cons.prems(4) by (auto simp: sum_bind_Inr_iff)
  note fr = ioPoll_iteration_frame [OF i(1)]
  have "y \<noteq> Leave"
    using i(1) ne Cons.prems(2)
    by (auto simp: ioPoll_iteration_def Let_def sum_bind_Inr_iff split: if_splits option.splits)
  with Cons.IH [OF ioPoll_iteration_inv [OF inv i(1)]] fr i(2) Cons.prems(2,3) show ?case by simp
qed

end
