(* ===== verification/Program.thy ===== *)
theory Program
  imports Shutdown Burst
begin

section \<open>Whole programs\<close>

text \<open>
  A thread that executes a list of statements, ends, and the destructor that follows: what the log file
  holds when the process has ended.
\<close>

subsection \<open>A statement on a backend that only has to write\<close>

text \<open>
  The arguments of two executions of one call site have the same C++ types, so the entries of the
  shared \<^verbatim>\<open>param_size\<close> array that the decoder uses stay as they are.
\<close>

definition same_kinds :: "arg list \<Rightarrow> arg list \<Rightarrow> bool" where
  "same_kinds as bs \<longleftrightarrow> list_all2 (\<lambda>a b. is_str a = is_str b \<and> sizeof_arg a = sizeof_arg b) as bs"

lemma sizes_match_same_kinds: "same_kinds as bs \<Longrightarrow> sizes_match bs sizes \<Longrightarrow> sizes_match as sizes"
  by (auto simp: same_kinds_def sizes_match_def list_all2_conv_all_nth)

definition uniform :: "statement set \<Rightarrow> bool" where
  "uniform sts \<longleftrightarrow> (\<forall>st \<in> sts. \<forall>st' \<in> sts.
     param_size_addr (st_site st) = param_size_addr (st_site st') \<longrightarrow> same_kinds (st_args st) (st_args st'))"

lemma uniform_mono: "uniform A \<Longrightarrow> B \<subseteq> A \<Longrightarrow> uniform B"
  by (simp add: uniform_def subset_iff)

text \<open>The buffer thread \<open>t\<close> uses next, \<open>p\<close> being the address of a new one.\<close>

definition buffer_for :: "backend \<Rightarrow> nat \<Rightarrow> nat \<Rightarrow> nat" where
  "buffer_for s t p = (case staging_ptr s t of None \<Rightarrow> p | Some q \<Rightarrow> q)"

lemma buffer_records:
  assumes "backend_inv s" "holds_queues s q" "heap s p = None"
  shows "thread_records s t (q (buffer_for s t p))"
proof (cases "staging_ptr s t")
  case None
  have "q p = []" using assms(2,3) holds_queues_nonempty by fastforce
  with None show ?thesis by (simp add: thread_records_def buffer_for_def)
next
  case (Some x)
  obtain b where b: "heap s x = Some b" using stagedD [OF backend_invD(2) [OF assms(1)] Some] by blast
  with Some holds_queuesD [OF assms(2) b] show ?thesis by (simp add: thread_records_def buffer_for_def)
qed

lemma printable_after:
  assumes "printable w sizes room st" "param_size_addr (st_site st) = a \<Longrightarrow> same_kinds (st_args st) args"
    "sizes_match args (map unat new)"
  shows "printable w (sizes(a := new)) room st"
  using assms sizes_match_same_kinds by (auto simp: printable_def)

lemma logged_drainable:
  assumes dr: "drainable w q s" and p: "heap s p = None"
    and st: "formattable w (bufflen (log_buf s)) st"
    and arr: "length (param_size_array (st_site st) (num_params (st_info st)) s) = num_params (st_info st) + 1"
    and log: "STATIC_LOG t p reads (st_stamp st) (st_site st) (st_args st) s = Inr (Logged, s')"
    and un: "\<And>x st'. st' \<in> set (q x) \<Longrightarrow> param_size_addr (st_site st') = param_size_addr (st_site st) \<Longrightarrow>
      same_kinds (st_args st') (st_args st)"
  shows "drainable w (q(buffer_for s t p := q (buffer_for s t p) @ [st])) s'"
    "staging_ptr s' t = Some (buffer_for s t p)"
    "same_output s s'" "others_same t p s s'"
proof -
  let ?p = "buffer_for s t p" and ?info = "st_info st"
  note dr' = dr [unfolded drainable_def]
  have inv: "backend_inv s" and hq: "holds_queues s (records_of q)" using dr' by auto
  have ok: "statement_ok w (st_site st) (st_items st) (st_args st) (st_message st)"
    using st by (simp add: formattable_def)
  note si = statement_okD [OF ok, folded st_info_def]
  have img: "length (args_image 0 (param_types ?info) (- 1) (st_args st)) < 2 ^ 31"
    using ok by (simp add: statement_ok_def st_info_def site_info_def)
  have lev: "\<not> getLogLevel s < severity (st_site st)" using log si(1) by (auto simp: STATIC_LOG_def)
  have args: "length (st_args st) \<le> num_params ?info" using si(3) by simp
  have "thread_records s' t (records_of q ?p @ [statement_record (st_site st) ?info (st_args st) (st_stamp st)])
      \<and> backend_inv s'"
    using STATIC_LOG_effect [OF si(1) lev si(2) args img arr buffer_records [OF inv hq p], of t p reads "st_stamp st"]
      log inv p by auto
  then have rec: "thread_records s' t (records_of q ?p @ [record_of st])" and inv': "backend_inv s'"
    by (auto simp: record_of_def)
  obtain sizes where fr: "same_output s s'" "others_same t p s s'"
    "param_sizes s' = (param_sizes s)(param_size_addr (st_site st) := sizes)"
    "sizes_match (st_args st) (map unat sizes)"
    by (rule STATIC_LOG_frame [OF log si(1) lev si(2) args arr]) simp
  show "same_output s s'" "others_same t p s s'" by (rule fr)+
  show ptr: "staging_ptr s' t = Some ?p"
    using fr(2) by (auto simp: others_same_def buffer_for_def split: option.split)
  have "holds_queues s' (records_of (q(?p := q ?p @ [st])))"
    unfolding records_of_upd
  proof (rule holds_queuesI)
    fix x
    have same: "heap s' x = heap s x" if "x \<noteq> ?p" using fr(2) ptr that by (simp add: others_same_def)
    show "((records_of q)(?p := map record_of (q ?p @ [st]))) x = []" if "heap s' x = None"
      using that same holds_queues_nonempty [OF hq, of x] rec ptr by (cases "x = ?p") (auto simp: thread_records_def)
    show "sb_records b (((records_of q)(?p := map record_of (q ?p @ [st]))) x)" if "heap s' x = Some b" for b
      using that same holds_queuesD [OF hq, of x b] rec ptr
      by (cases "x = ?p") (auto simp: thread_records_def records_of_def)
  qed
  moreover have "printable w (param_sizes s') (bufflen (log_buf s)) st'"
    if "st' \<in> set ((q(?p := q ?p @ [st])) x)" for st' x
  proof (cases "st' = st")
    case True
    with st fr(3,4) show ?thesis by (simp add: printable_def)
  next
    case False
    with that have "st' \<in> set (q x)" by (auto split: if_splits)
    with dr' un show ?thesis unfolding fr(3) by (intro printable_after [OF _ _ fr(4)]) auto
  qed
  ultimately show "drainable w (q(?p := q ?p @ [st])) s'"
    using dr' fr(1) inv' by (simp add: drainable_def same_output_def del: fun_upd_apply)
qed

subsection \<open>A list of statements\<close>

text \<open>The results of the statements, executed one after the other by thread \<open>t\<close>.\<close>

fun log_statements ::
  "nat \<Rightarrow> nat \<Rightarrow> nat \<Rightarrow> statement list \<Rightarrow> backend \<Rightarrow> log_error + (log_result list \<times> backend)" where
  "log_statements t p reads [] s = Inr ([], s)"
| "log_statements t p reads (st # sts) s =
     sum_bind (STATIC_LOG t p reads (st_stamp st) (st_site st) (st_args st) s) (\<lambda>(x, s).
     sum_bind (log_statements t p reads sts s) (\<lambda>(xs, s). Inr (x # xs, s)))"

text \<open>Only a thread without a buffer uses the address of a new one.\<close>

lemma STATIC_LOG_address:
  assumes "staging_ptr s t = Some q"
  shows "STATIC_LOG t p reads rdtsc site args s = STATIC_LOG t p' reads rdtsc site args s"
proof (cases "static_info_of site")
  case (Inr info)
  show ?thesis
  proof (cases "size_arguments site info args s")
    case (Inr x)
    obtain a s1 where x: "x = (a, s1)" by (cases x)
    with Inr have "staging_ptr s1 = staging_ptr s"
      by (auto simp: size_arguments_def sum_bind_Inr_iff lift_error_Inr_iff)
    then have "reserveAlloc t p n reads s1 = reserveAlloc t p' n reads s1" for n
      using assms by (simp add: reserveAlloc_def)
    with \<open>static_info_of site = Inr info\<close> Inr x show ?thesis by (simp add: STATIC_LOG_def)
  qed (use Inr in \<open>simp add: STATIC_LOG_def\<close>)
qed (simp add: STATIC_LOG_def)

lemma formattable_args:
  assumes "formattable w room st"
  shows "static_info_of (st_site st) = Inr (st_info st)" "statement_args (st_site st) (st_args st)"
proof -
  have ok: "statement_ok w (st_site st) (st_items st) (st_args st) (st_message st)"
    using assms by (simp add: formattable_def)
  note si = statement_okD [OF ok, folded st_info_def]
  have "length (args_image 0 (param_types (st_info st)) (- 1) (st_args st)) < 2 ^ 31"
    using ok by (simp add: statement_ok_def st_info_def site_info_def)
  with si show "static_info_of (st_site st) = Inr (st_info st)" "statement_args (st_site st) (st_args st)"
    by (simp_all add: statement_args_def)
qed

text \<open>What a thread can log now: into its own buffer, or into a new one.\<close>

definition can_log :: "backend \<Rightarrow> nat \<Rightarrow> nat \<Rightarrow> bool" where
  "can_log s t p \<longleftrightarrow> staging_ptr s t \<noteq> None \<or> heap s p = None"

lemma one_statement:
  assumes dr: "drainable w q s" and sys: "system_inv sites s" "inj_on param_size_addr sites"
    and p: "can_log s t p" and st: "formattable w (bufflen (log_buf s)) st" "st_site st \<in> sites"
    and lev: "severity (st_site st) \<le> getLogLevel s"
    and room: "record_size (st_site st) (st_args st) < free_space s t"
    and un: "\<And>x st'. st' \<in> set (q x) \<Longrightarrow> param_size_addr (st_site st') = param_size_addr (st_site st) \<Longrightarrow>
      same_kinds (st_args st') (st_args st)"
  obtains s' where "STATIC_LOG t p reads (st_stamp st) (st_site st) (st_args st) s = Inr (Logged, s')"
    "drainable w (q(buffer_for s t p := q (buffer_for s t p) @ [st])) s'" "system_inv sites s'"
    "staging_ptr s' t = Some (buffer_for s t p)" "same_output s s'"
    "\<forall>u. u \<noteq> t \<longrightarrow> staging_ptr s' u = staging_ptr s u" "\<forall>x. x \<noteq> buffer_for s t p \<longrightarrow> heap s' x = heap s x"
    "free_space s t \<le> free_space s' t + record_size (st_site st) (st_args st)"
proof -
  note fa = formattable_args [OF st(1)]
  obtain p' where p': "heap s p' = None" "buffer_for s t p' = buffer_for s t p"
    "STATIC_LOG t p reads (st_stamp st) (st_site st) (st_args st) s =
     STATIC_LOG t p' reads (st_stamp st) (st_site st) (st_args st) s"
  proof (cases "staging_ptr s t")
    case None
    with p that [of p] show thesis by (simp add: can_log_def)
  next
    case (Some x)
    obtain p' where "heap s p' = None" by (rule fresh_address [OF system_invD(1) [OF sys(1)]])
    with that [of p'] Some STATIC_LOG_address [OF Some] show thesis by (simp add: buffer_for_def)
  qed
  note arr = arrays_okD [OF system_invD(2) [OF sys(1)] st(2) fa(1)]
  obtain info where i: "static_info_of (st_site st) = Inr info" "list_all arg_ok (st_args st)"
    "length (st_args st) \<le> num_params info" "length (args_image 0 (param_types info) (- 1) (st_args st)) < 2 ^ 31"
    using fa(2) by (rule statement_argsE)
  obtain rs where rs: "thread_records s t rs" using system_invD(1) [OF sys(1)] by (rule thread_records_ex)
  have nlev: "\<not> getLogLevel s < severity (st_site st)" using lev by simp
  obtain x s' where x: "STATIC_LOG t p' reads (st_stamp st) (st_site st) (st_args st) s = Inr (x, s')"
    "x = Logged \<or> x = Blocked"
    using STATIC_LOG_effect [OF i(1) nlev i(2-4) arrays_okD [OF system_invD(2) [OF sys(1)] st(2) i(1)] rs,
      of p' reads "st_stamp st"] by auto
  note own = own_statement [OF sys(1) st(2) fa(2) x(1) room]
  have log: "STATIC_LOG t p' reads (st_stamp st) (st_site st) (st_args st) s = Inr (Logged, s')"
    using x own(1) by auto
  note L = logged_drainable [OF dr p'(1) st(1) arr log un, unfolded p'(2)]
  have "staging_ptr s' u = staging_ptr s u" if "u \<noteq> t" for u
    using L(4) that by (auto simp: others_same_def split: if_splits)
  moreover have "heap s' x = heap s x" if "x \<noteq> buffer_for s t p" for x
    using L(2,4) that by (auto simp: others_same_def)
  ultimately show thesis
    using that [of s'] log p'(3) L(1-3) log_system_inv [OF sys st(2) fa(2) p'(1) log] own(2) by auto
qed

definition total_size :: "statement list \<Rightarrow> nat" where
  "total_size sts = sum_list (map (\<lambda>st. record_size (st_site st) (st_args st)) sts)"

text \<open>Statements a thread can execute on a backend.\<close>

definition executable :: "surroundings \<Rightarrow> call_site set \<Rightarrow> backend \<Rightarrow> statement list \<Rightarrow> bool" where
  "executable w sites s sts \<longleftrightarrow> (\<forall>st \<in> set sts. formattable w (bufflen (log_buf s)) st \<and> st_site st \<in> sites
     \<and> severity (st_site st) \<le> getLogLevel s)"

lemma executable_Cons:
  "executable w sites s (st # sts) \<longleftrightarrow> formattable w (bufflen (log_buf s)) st \<and> st_site st \<in> sites
     \<and> severity (st_site st) \<le> getLogLevel s \<and> executable w sites s sts"
  by (auto simp: executable_def)

lemma executable_same_output: "same_output s s' \<Longrightarrow> executable w sites s' sts = executable w sites s sts"
  by (simp add: executable_def same_output_def getLogLevel_def)

lemma all_logged:
  assumes "drainable w q s" "system_inv sites s" "inj_on param_size_addr sites" "can_log s t p"
    and "executable w sites s sts" "uniform (set sts \<union> (\<Union>x. set (q x)))" "total_size sts < free_space s t"
  shows "\<exists>s'. log_statements t p reads sts s = Inr (replicate (length sts) Logged, s')
    \<and> drainable w (q(buffer_for s t p := q (buffer_for s t p) @ sts)) s' \<and> system_inv sites s'
    \<and> (sts = [] \<or> staging_ptr s' t = Some (buffer_for s t p)) \<and> same_output s s'
    \<and> (\<forall>u. u \<noteq> t \<longrightarrow> staging_ptr s' u = staging_ptr s u) \<and> (\<forall>x. x \<noteq> buffer_for s t p \<longrightarrow> heap s' x = heap s x)"
  using assms
proof (induction sts arbitrary: q s)
  case Nil
  then show ?case by (simp add: same_output_def)
next
  case (Cons st sts)
  let ?p = "buffer_for s t p" and ?q = "q(buffer_for s t p := q (buffer_for s t p) @ [st])"
  have ex: "formattable w (bufflen (log_buf s)) st" "st_site st \<in> sites" "severity (st_site st) \<le> getLogLevel s"
    "executable w sites s sts" using Cons.prems(5) by (simp_all add: executable_Cons)
  have room: "record_size (st_site st) (st_args st) < free_space s t"
    "total_size sts + record_size (st_site st) (st_args st) < free_space s t"
    using Cons.prems(7) by (simp_all add: total_size_def)
  have un: "same_kinds (st_args st') (st_args st)"
    if "st' \<in> set (q x)" "param_size_addr (st_site st') = param_size_addr (st_site st)" for x st'
    using Cons.prems(6) that by (auto simp: uniform_def)
  obtain s1 where s1: "STATIC_LOG t p reads (st_stamp st) (st_site st) (st_args st) s = Inr (Logged, s1)"
    "drainable w ?q s1" "system_inv sites s1" "staging_ptr s1 t = Some ?p" "same_output s s1"
    "\<forall>u. u \<noteq> t \<longrightarrow> staging_ptr s1 u = staging_ptr s u" "\<forall>x. x \<noteq> ?p \<longrightarrow> heap s1 x = heap s x"
    "free_space s t \<le> free_space s1 t + record_size (st_site st) (st_args st)"
    by (rule one_statement [OF Cons.prems(1-4) ex(1-3) room(1) un, where reads = reads]) auto
  have bf: "buffer_for s1 t p = ?p" and cl: "can_log s1 t p" using s1(4) by (simp_all add: buffer_for_def can_log_def)
  have "set sts \<union> (\<Union>x. set (?q x)) \<subseteq> set (st # sts) \<union> (\<Union>x. set (q x))" by (auto split: if_splits)
  with Cons.prems(6) have u1: "uniform (set sts \<union> (\<Union>x. set (?q x)))" by (rule uniform_mono)
  have t1: "total_size sts < free_space s1 t" using room(2) s1(8) by linarith
  have e1: "executable w sites s1 sts" using ex(4) executable_same_output [OF s1(5)] by simp
  obtain s2 where s2: "log_statements t p reads sts s1 = Inr (replicate (length sts) Logged, s2)"
    "drainable w (?q(?p := ?q ?p @ sts)) s2" "system_inv sites s2" "sts = [] \<or> staging_ptr s2 t = Some ?p"
    "same_output s1 s2" "\<forall>u. u \<noteq> t \<longrightarrow> staging_ptr s2 u = staging_ptr s1 u"
    "\<forall>x. x \<noteq> ?p \<longrightarrow> heap s2 x = heap s1 x"
    using Cons.IH [OF s1(2,3) Cons.prems(3) cl e1 u1 t1, unfolded bf] by (elim exE conjE)
  have "?q(?p := ?q ?p @ sts) = q(?p := q ?p @ st # sts)" by simp
  moreover have "staging_ptr s2 t = Some ?p" using s2(1,4) s1(4) by (cases sts) auto
  ultimately show ?case
    using s1(1,6,7) s2 same_output_trans [OF s1(5) s2(5)] by (intro exI [of _ s2]) (simp del: fun_upd_apply)
qed

subsection \<open>The end of the thread and of the process\<close>

lemma exit_drainable:
  assumes "drainable w q s"
  shows "drainable w q (thread_exit t s)"
proof (cases "staging_ptr s t")
  case None
  with assms show ?thesis by (simp add: thread_exit_def)
next
  case (Some x)
  have inv: "backend_inv s" and hq: "holds_queues s (records_of q)" using assms by (simp_all add: drainable_def)
  have "holds_queues (thread_exit t s) (records_of q)"
  proof (rule holds_queuesI)
    fix y
    show "records_of q y = []" if "heap (thread_exit t s) y = None"
      using that Some holds_queues_nonempty [OF hq, of y] by (auto simp: thread_exit_def split: if_splits)
    show "sb_records b (records_of q y)" if "heap (thread_exit t s) y = Some b" for b
      using that Some holds_queuesD [OF hq, of y] sb_records_ended by (auto simp: thread_exit_def split: if_splits)
  qed
  with assms thread_exit_inv [OF inv, of t] Some show ?thesis by (simp add: drainable_def thread_exit_def)
qed

lemma setLogFile_drainable:
  assumes "drainable w q s" "fdflush_joinable s" "can_open g"
  obtains s1 where "setLogFile can_open g s = Inr s1" "drainable w q s1" "outfd s1 = Some (g, 0)"
    "files s1 = (files s)(g \<mapsto> (case files s g of None \<Rightarrow> [] | Some c \<Rightarrow> c))"
    "thread_buffers s1 = thread_buffers s" "heap s1 = heap s" "staging_ptr s1 = staging_ptr s"
    "fdflush_joinable s1" "fdflush s1 = Running"
proof -
  let ?s1 = "s\<lparr>is_stop := True, is_exit := False, outfd := Some (g, 0),
    files := (files s)(g \<mapsto> (case files s g of None \<Rightarrow> [] | Some c \<Rightarrow> c)), fdflush_joinable := True, fdflush := Running\<rparr>"
  have "setLogFile can_open g s = Inr ?s1"
    using assms(2,3) by (simp add: setLogFile_def Let_def open_log_def split: option.split)
  moreover have "drainable w q ?s1"
    using assms(1) by (simp add: drainable_def backend_inv_def holds_queues_def)
  ultimately show thesis by (intro that [of ?s1]) simp_all
qed

lemma preallocate_drainable:
  assumes "drainable w q s" "heap s p = None"
  shows "drainable w q (preallocate t p s)"
proof -
  have inv: "backend_inv s" and hq: "holds_queues s (records_of q)" using assms(1) by (simp_all add: drainable_def)
  have "records_of q p = []" using hq assms(2) holds_queues_nonempty by fastforce
  have "holds_queues (preallocate t p s) (records_of q)"
  proof (rule holds_queuesI)
    fix x
    show "records_of q x = []" if "heap (preallocate t p s) x = None"
      using that holds_queues_nonempty [OF hq, of x]
      by (auto simp: preallocate_def ensureStagingBufferAllocated_def Let_def split: if_splits)
    show "sb_records b (records_of q x)" if "heap (preallocate t p s) x = Some b" for b
      using that holds_queuesD [OF hq, of x b] \<open>records_of q p = []\<close> sbq.init_holds
      by (auto simp: preallocate_def ensureStagingBufferAllocated_def Let_def records_of_def split: if_splits)
  qed
  then show ?thesis
    using assms(1) ensure_inv [OF inv assms(2), of t]
    by (auto simp: drainable_def preallocate_def ensureStagingBufferAllocated_def Let_def)
qed

lemma setLogLevel_drainable: "drainable w q (setLogLevel l s) = drainable w q s"
  by (simp add: setLogLevel_def Let_def drainable_def backend_inv_def holds_queues_def)

lemma drains_single: "drains stamp ((\<lambda>_. [])(p := xs)) out \<Longrightarrow> out = xs"
proof -
  assume d: "drains stamp ((\<lambda>_. [])(p := xs)) out"
  have "mset out = all_of {p} ((\<lambda>_. [])(p := xs))" by (rule drains_mset [OF d]) auto
  then have "length out = length xs" by (metis (no_types, lifting) all_of_def fun_upd_same size_mset sum.empty
    sum.insert finite.emptyI empty_iff add.right_neutral)
  moreover have "subseq xs out" using drains_subseq [OF d, of p] by simp
  ultimately show "out = xs" using subseq_same_length by metis
qed

text \<open>The end of the only thread with a buffer, then the destructor: the file gets the pending lines.\<close>

lemma exit_and_shutdown:
  assumes dr: "drainable w ((\<lambda>_. [])(p := sts)) s" and fd: "fdflush_joinable s" "fdflush s \<noteq> Finished"
    and out: "outfd s = Some (f, off)" "files s f = Some c" "off \<le> length c"
    and own: "\<forall>x b. heap s x = Some b \<longrightarrow> staging_ptr s t = Some x"
    and nows: "\<forall>now \<in> set nows. clock_ok w now" "length nows = length sts"
  shows "\<exists>ls s2. shutdown_StaticLogBackend w (nows @ [na, nb, nc]) (thread_exit t s) = Inr (Some s2)
    \<and> lines_of w nows sts ls \<and> files s2 = (files s)(f \<mapsto> overwrite c off (concat ls))
    \<and> heap s2 = (\<lambda>_. None) \<and> thread_buffers s2 = []"
proof -
  let ?s = "(thread_exit t s)\<lparr>is_stop := True\<rparr>" and ?q = "(\<lambda>_. [])(p := sts)"
  have ex: "outfd (thread_exit t s) = outfd s" "files (thread_exit t s) = files s"
    "thread_buffers (thread_exit t s) = thread_buffers s" "fdflush (thread_exit t s) = fdflush s"
    "fdflush_joinable (thread_exit t s) = fdflush_joinable s"
    by (simp_all add: thread_exit_def split: option.split)
  have ended: "\<forall>x b. heap ?s x = Some b \<longrightarrow> should_deallocate b"
    using own by (auto simp: thread_exit_def split: option.splits if_splits)
  have dr1: "drainable w ?q ?s" using exit_drainable [OF dr] by simp
  have "(\<Sum>x\<in>set (thread_buffers s). length (?q x)) = length sts"
  proof (cases "sts = []")
    case False
    then have "p \<in> set (thread_buffers s)" using drainable_registered [OF dr] by simp
    then show ?thesis by (simp add: if_distrib [of length] sum.delta cong: if_cong)
  qed simp
  then have len: "length nows = (\<Sum>x\<in>set (thread_buffers ?s). length (?q x))" using nows(2) ex(3) by simp
  have out1: "outfd ?s = Some (f, off)" "files ?s f = Some c" "is_stop ?s" using out ex by simp_all
  obtain out ls s2 where s2: "ioPoll w (nows @ na # nb # nc # []) ?s = Inr (Leave, s2)" "drains st_stamp ?q out"
    "lines_of w nows out ls" "files s2 = (files ?s)(f \<mapsto> overwrite c off (concat ls))" "heap s2 = (\<lambda>_. None)"
    "thread_buffers s2 = []"
    using stopped_worker_drains [OF dr1 out1(3,1,2) out(3) ended nows(1) len, where na = na and nb = nb
        and nc = nc and ns = "[]"] by (elim exE conjE)
  have "out = sts" by (rule drains_single [OF s2(2)])
  moreover have "shutdown_StaticLogBackend w (nows @ [na, nb, nc]) (thread_exit t s) =
      Inr (Some (destroy_StaticLogBackend s2))"
    using s2(1) fd ex by (simp add: shutdown_StaticLogBackend_def Let_def)
  ultimately show ?thesis
    using s2(3-6) ex(2) by (intro exI [of _ ls] exI [of _ "destroy_StaticLogBackend s2"])
      (simp add: destroy_StaticLogBackend_def)
qed

text \<open>
  Statements of one thread, executed on a backend without buffers, then the end of the thread and the
  destructor: none waits, and the file gets their lines.
\<close>

lemma program_written:
  assumes "system_inv sites s" "inj_on param_size_addr sites" "heap s = (\<lambda>_. None)" "bufflen (log_buf s) < 2 ^ 31"
    and "outfd s = Some (f, off)" "files s f = Some c" "off \<le> length c" "fdflush s \<noteq> Finished"
    and "executable w sites s sts" "uniform (set sts)" "total_size sts < kSTAGING_BUFFER_SIZE"
    and "\<forall>now \<in> set nows. clock_ok w now" "length nows = length sts"
  shows "\<exists>s1 ls s2. log_statements t p reads sts s = Inr (replicate (length sts) Logged, s1)
    \<and> shutdown_StaticLogBackend w (nows @ [na, nb, nc]) (thread_exit t s1) = Inr (Some s2)
    \<and> lines_of w nows sts ls \<and> files s2 f = Some (overwrite c off (concat ls))
    \<and> heap s2 = (\<lambda>_. None) \<and> thread_buffers s2 = []"
proof -
  have inv: "backend_inv s" and run: "\<not> is_exit s" and fd: "fdflush_joinable s"
    using system_invD(1,3) [OF assms(1)] assms(5) by (simp_all add: well_typed_def)
  have ptr: "staging_ptr s u = None" for u
    using stagedD [OF backend_invD(2) [OF inv], of u] assms(3) by (cases "staging_ptr s u") auto
  have dr: "drainable w (\<lambda>_. []) s"
    using inv run assms(3-6) by (simp add: drainable_def holds_queues_def)
  have cl: "can_log s t p" using assms(3) by (simp add: can_log_def)
  have bf: "buffer_for s t p = p" using ptr by (simp add: buffer_for_def)
  have un: "uniform (set sts \<union> (\<Union>x. set ((\<lambda>_. []) x)))" using assms(10) by simp
  have room: "total_size sts < free_space s t" using assms(11) ptr by (simp add: free_space_def)
  obtain s1 where s1: "log_statements t p reads sts s = Inr (replicate (length sts) Logged, s1)"
    "drainable w ((\<lambda>_. [])(p := [] @ sts)) s1" "system_inv sites s1" "sts = [] \<or> staging_ptr s1 t = Some p"
    "same_output s s1" "\<forall>u. u \<noteq> t \<longrightarrow> staging_ptr s1 u = staging_ptr s u" "\<forall>x. x \<noteq> p \<longrightarrow> heap s1 x = heap s x"
    using all_logged [where reads = reads, OF dr assms(1,2) cl assms(9) un room, unfolded bf] by (elim exE conjE)
  have own: "\<forall>x b. heap s1 x = Some b \<longrightarrow> staging_ptr s1 t = Some x"
    using s1(1,4,7) assms(3) by (cases "sts = []") auto
  have m: "fdflush_joinable s1" "fdflush s1 \<noteq> Finished" "outfd s1 = Some (f, off)" "files s1 f = Some c"
    using s1(5) fd assms(5,6,8) by (simp_all add: same_output_def)
  obtain ls s2 where "shutdown_StaticLogBackend w (nows @ [na, nb, nc]) (thread_exit t s1) = Inr (Some s2)"
    "lines_of w nows sts ls" "files s2 = (files s1)(f \<mapsto> overwrite c off (concat ls))"
    "heap s2 = (\<lambda>_. None)" "thread_buffers s2 = []"
    using exit_and_shutdown [OF s1(2) [unfolded append.simps] m assms(7) own assms(12,13), where na = na and nb = nb and nc = nc]
    by (elim exE conjE)
  with s1(1) show ?thesis by (intro exI [of _ s1] exI [of _ ls] exI [of _ s2]) simp
qed

subsection \<open>A backend with one pending record\<close>

definition sample_statement :: statement where
  "sample_statement =
     Statement sample_site [Specifier [] (WDigits []) PNone [] CHR ''s''] [AStr 0 ''hi''] ''hi'' 99"

lemma sample_statement_info: "st_info sample_statement = sample_info"
  by (simp add: st_info_def sample_statement_def sample_site_info)

lemma sample_formattable: "formattable sample_surroundings 1048576 sample_statement"
proof -
  have "call_info_text sample_info = ''[notice][main][12]''" unfolding sample_info_def by code_simp
  with sample_statement_ok show ?thesis
    by (simp add: formattable_def sample_statement_info TIEMSTAMP_PREFIX_LEN_def)
       (simp add: sample_statement_def UINT64_MAX_def)
qed

lemma sample_members:
  "heap sample_backend = (\<lambda>_. None)" "outfd sample_backend = Some (DEFAULT_LOGFILE, 0)"
  "files sample_backend DEFAULT_LOGFILE = Some []" "bufflen (log_buf sample_backend) = 1048576"
  "fdflush sample_backend = Running" "fdflush_joinable sample_backend" "\<not> is_exit sample_backend"
  "getLogLevel sample_backend = kDEBUG" "staging_ptr sample_backend t = None" "thread_buffers sample_backend = []"
  by (simp_all add: sample_backend_def sample_buffer_def DEFALT_CACHE_SIZE_def getLogLevel_def)

lemma sample_executable: "executable sample_surroundings {sample_site} sample_backend (replicate n sample_statement)"
proof -
  have "severity sample_site \<le> kDEBUG" by (simp add: sample_site_def log_level_defs)
  with sample_formattable show ?thesis
    by (auto simp: executable_def sample_members) (auto simp: sample_statement_def)
qed

lemma sample_uniform: "uniform (set (replicate n sample_statement))"
  by (auto simp: uniform_def same_kinds_def list.rel_refl)

lemma sample_record_size: "record_size (st_site sample_statement) (st_args sample_statement) = 38"
  by (simp add: record_size_def sample_statement_def sample_static_info)
     (simp add: sample_info_def param_order stored_length_def sizeof_LogEntry_def)

lemma sample_clock: "clock_ok sample_surroundings 1000000000000000042"
  by (simp add: clock_ok_def sample_surroundings_def tm_ok_def sample_tm_def)

lemma sample_drainable:
  obtains s where "drainable sample_surroundings ((\<lambda>_. [])(5000 := [sample_statement])) s"
    "staging_ptr s 1 = Some 5000" "same_output sample_backend s" "\<forall>x. x \<noteq> 5000 \<longrightarrow> heap s x = None"
    "system_inv {sample_site} s"
proof -
  have dr: "drainable sample_surroundings (\<lambda>_. []) sample_backend"
    using sample_backend_inv sample_members by (simp add: drainable_def holds_queues_def)
  have inj: "inj_on param_size_addr {sample_site}" by simp
  have sys: "system_inv {sample_site} sample_backend" by (rule reachable_inv [OF sample_start inj])
  have cl: "can_log sample_backend 1 5000" by (simp add: can_log_def sample_members)
  have un: "uniform (set [sample_statement] \<union> (\<Union>x. set ((\<lambda>_. []) x)))" using sample_uniform [of 1] by simp
  have room: "total_size [sample_statement] < free_space sample_backend 1"
    by (simp add: total_size_def sample_record_size free_space_def sample_members kSTAGING_BUFFER_SIZE_def)
  have ex: "executable sample_surroundings {sample_site} sample_backend [sample_statement]"
    using sample_executable [of 1] by simp
  have bf: "buffer_for sample_backend 1 5000 = 5000" by (simp add: buffer_for_def sample_members)
  from all_logged [where reads = 0, OF dr sys inj cl ex un room, unfolded bf] that sample_members(1)
  show thesis by auto
qed

subsection \<open>Properties\<close>

text \<open>
  C4. A list of statements of one thread, executed on a logger without buffers whose log file is open and
  whose worker has not left, in a build without assertions and with allocations that succeed: if the level
  admits every statement, its format is without \<open>*\<close>, its arguments are of types its conversions
  handle and the same at every execution of the call site, its line fits the log buffer, all records fit the
  staging buffer together, and the clock can be converted, then every statement is logged without waiting,
  and when the thread has ended the destructor returns after one iteration of the worker for each statement
  and three more; the log file then holds the line of every statement, in the order of execution, and every
  buffer is deleted.
\<close>

theorem program_lines_in_file:
  assumes "system_inv sites s" "inj_on param_size_addr sites" "heap s = (\<lambda>_. None)" "bufflen (log_buf s) < 2 ^ 31"
    and "outfd s = Some (f, off)" "files s f = Some c" "off \<le> length c" "fdflush s \<noteq> Finished"
    and "executable w sites s sts" "uniform (set sts)" "total_size sts < kSTAGING_BUFFER_SIZE"
    and "\<forall>now \<in> set nows. clock_ok w now" "length nows = length sts"
  shows "\<exists>s1 ls s2. log_statements t p reads sts s = Inr (replicate (length sts) Logged, s1)
    \<and> shutdown_StaticLogBackend w (nows @ [na, nb, nc]) (thread_exit t s1) = Inr (Some s2)
    \<and> lines_of w nows sts ls \<and> files s2 f = Some (overwrite c off (concat ls))
    \<and> heap s2 = (\<lambda>_. None) \<and> thread_buffers s2 = []"
  using assms by (rule program_written)

theorem program_lines_in_file_witness:
  "\<exists>s1 ls s2. log_statements 1 5000 0 [sample_statement, sample_statement] sample_backend = Inr ([Logged, Logged], s1)
    \<and> shutdown_StaticLogBackend sample_surroundings
         ([1000000000000000042, 1000000000000000042] @ [0, 0, 0]) (thread_exit 1 s1) = Inr (Some s2)
    \<and> lines_of sample_surroundings [1000000000000000042, 1000000000000000042] [sample_statement, sample_statement] ls
    \<and> files s2 DEFAULT_LOGFILE = Some (overwrite [] 0 (concat ls))
    \<and> heap s2 = (\<lambda>_. None) \<and> thread_buffers s2 = []"
proof -
  let ?sts = "replicate 2 sample_statement" and ?nows = "[1000000000000000042, 1000000000000000042] :: nat list"
  have inj: "inj_on param_size_addr {sample_site}" by simp
  have sys: "system_inv {sample_site} sample_backend" by (rule reachable_inv [OF sample_start inj])
  have sz: "total_size ?sts < kSTAGING_BUFFER_SIZE"
    by (simp add: total_size_def sample_record_size kSTAGING_BUFFER_SIZE_def numeral_2_eq_2)
  have m: "bufflen (log_buf sample_backend) < 2 ^ 31" "(0 :: nat) \<le> length ([] :: string)" "fdflush sample_backend \<noteq> Finished"
    by (simp_all add: sample_members)
  have clk: "\<forall>now \<in> set ?nows. clock_ok sample_surroundings now" "length ?nows = length ?sts"
    using sample_clock by simp_all
  from program_lines_in_file [OF sys inj sample_members(1) m(1) sample_members(2,3) m(2,3) sample_executable
      sample_uniform sz clk, of 1 5000 0 0 0 0]
  show ?thesis by (simp add: numeral_2_eq_2)
qed

text \<open>
  C5. When every thread has ended and every pending record can be printed (a build without assertions,
  allocations that succeed, a format without \<open>*\<close>, arguments its conversions handle, a line that
  fits the log buffer), the clock can be converted and each thread's stamps are in order, the destructor of
  a logger whose worker has not left returns after one iteration of the worker for each pending record and
  three more; by then every pending record has been written exactly once, its line appended at the file
  offset, in the order of the time stamps and for each thread in the order of its statements; and all
  buffers are deleted.
\<close>

theorem destructor_writes_everything:
  assumes "drainable w q s" "fdflush_joinable s" "fdflush s \<noteq> Finished"
    and "outfd s = Some (f, off)" "files s f = Some c" "off \<le> length c"
    and "\<forall>p b. heap s p = Some b \<longrightarrow> should_deallocate b" "\<forall>p. sorted (map st_stamp (q p))"
    and "\<forall>now \<in> set nows. clock_ok w now" "length nows = (\<Sum>p\<in>set (thread_buffers s). length (q p))"
  shows "\<exists>out ls s2. shutdown_StaticLogBackend w (nows @ [na, nb, nc]) s = Inr (Some s2)
    \<and> mset out = (\<Sum>p\<in>set (thread_buffers s). mset (q p)) \<and> (\<forall>p. subseq (q p) out) \<and> sorted (map st_stamp out)
    \<and> lines_of w nows out ls \<and> files s2 f = Some (overwrite c off (concat ls))
    \<and> heap s2 = (\<lambda>_. None) \<and> thread_buffers s2 = []"
proof -
  let ?s = "s\<lparr>is_stop := True\<rparr>"
  have dr: "drainable w q ?s" and m: "is_stop ?s" "outfd ?s = Some (f, off)" "files ?s f = Some c"
    "\<forall>p b. heap ?s p = Some b \<longrightarrow> should_deallocate b"
    "length nows = (\<Sum>p\<in>set (thread_buffers ?s). length (q p))"
    using assms by simp_all
  obtain out ls s2 where s2: "ioPoll w (nows @ na # nb # nc # []) ?s = Inr (Leave, s2)" "drains st_stamp q out"
    "lines_of w nows out ls" "files s2 = (files ?s)(f \<mapsto> overwrite c off (concat ls))" "heap s2 = (\<lambda>_. None)"
    "thread_buffers s2 = []"
    using stopped_worker_drains [OF dr m(1-3) assms(6) m(4) assms(9) m(5), where na = na and nb = nb
        and nc = nc and ns = "[]"] by (elim exE conjE)
  have "mset out = (\<Sum>p\<in>set (thread_buffers s). mset (q p))"
    using drains_mset [OF s2(2) finite_set drainable_registered [OF assms(1)]] by (simp add: all_of_def)
  moreover have "\<forall>p. subseq (q p) out" using drains_subseq [OF s2(2)] by blast
  moreover have "sorted (map st_stamp out)" by (rule drains_sorted [OF s2(2) assms(8)])
  moreover have "shutdown_StaticLogBackend w (nows @ [na, nb, nc]) s = Inr (Some (destroy_StaticLogBackend s2))"
    using s2(1) assms(2,3) by (simp add: shutdown_StaticLogBackend_def Let_def)
  ultimately show ?thesis
    using s2(3-6) by (intro exI [of _ out] exI [of _ ls] exI [of _ "destroy_StaticLogBackend s2"])
      (simp add: destroy_StaticLogBackend_def)
qed

theorem destructor_writes_everything_witness:
  "\<exists>s out ls s2. staging_ptr s 1 = Some 5000
    \<and> shutdown_StaticLogBackend sample_surroundings ([1000000000000000042] @ [0, 0, 0]) (thread_exit 1 s) = Inr (Some s2)
    \<and> mset out = (\<Sum>p\<in>set (thread_buffers (thread_exit 1 s)). mset (((\<lambda>_. [])(5000 := [sample_statement])) p))
    \<and> lines_of sample_surroundings [1000000000000000042] out ls
    \<and> files s2 DEFAULT_LOGFILE = Some (overwrite [] 0 (concat ls)) \<and> thread_buffers s2 = []"
proof -
  let ?q = "(\<lambda>_. [])(5000 := [sample_statement])"
  obtain s where s: "drainable sample_surroundings ?q s" "staging_ptr s 1 = Some 5000" "same_output sample_backend s"
    "\<forall>x. x \<noteq> 5000 \<longrightarrow> heap s x = None" by (rule sample_drainable)
  let ?s = "thread_exit 1 s"
  have dr: "drainable sample_surroundings ?q ?s" by (rule exit_drainable [OF s(1)])
  have m: "fdflush_joinable ?s" "fdflush ?s \<noteq> Finished" "outfd ?s = Some (DEFAULT_LOGFILE, 0)"
    "files ?s DEFAULT_LOGFILE = Some []" "(0 :: nat) \<le> length ([] :: string)"
    using s(2,3) sample_members by (simp_all add: thread_exit_def same_output_def)
  have e: "\<forall>p b. heap ?s p = Some b \<longrightarrow> should_deallocate b"
    using s(2,4) by (auto simp: thread_exit_def split: if_splits)
  have "5000 \<in> set (thread_buffers ?s)" using drainable_registered [OF dr] by simp
  then have len: "length [1000000000000000042 :: nat] = (\<Sum>p\<in>set (thread_buffers ?s). length (?q p))"
    by (simp add: if_distrib [of length] sum.delta cong: if_cong)
  have srt: "\<forall>p. sorted (map st_stamp (?q p))" by simp
  have clk: "\<forall>now \<in> set [1000000000000000042]. clock_ok sample_surroundings now" using sample_clock by simp
  from destructor_writes_everything [OF dr m e srt clk len, of 0 0 0] s(2) show ?thesis by blast
qed

text \<open>
  C22. As long as the worker has not left its loop, the destructor does not return while a thread that has a
  staging buffer lives, however long the worker goes on, with the files and the clock as they may be.
\<close>

theorem destructor_waits_for_live_threads:
  assumes "backend_inv s" "\<not> is_exit s" "staging_ptr s t = Some p" "fdflush_joinable s" "fdflush s \<noteq> Finished"
  shows "shutdown_StaticLogBackend w nows s \<noteq> Inr (Some s')"
proof
  let ?s = "s\<lparr>is_stop := True\<rparr>"
  assume "shutdown_StaticLogBackend w nows s = Inr (Some s')"
  with assms(4,5) obtain x s1 where "ioPoll w nows ?s = Inr (x, s1)" "x = Leave"
    by (auto simp: shutdown_StaticLogBackend_def Let_def sum_bind_Inr_iff split: if_splits)
  moreover have "backend_inv ?s" "\<not> is_exit ?s" "staging_ptr ?s t = Some p"
    using assms(1-3) by (simp_all add: backend_inv_def)
  ultimately show False using live_thread_keeps_worker by blast
qed

theorem destructor_waits_for_live_threads_witness:
  "\<forall>nows s'. shutdown_StaticLogBackend sample_surroundings nows (preallocate 1 5000 sample_backend) \<noteq> Inr (Some s')"
proof (intro allI)
  fix nows s'
  let ?s = "preallocate 1 5000 sample_backend"
  have "backend_inv ?s" unfolding preallocate_def
    using sample_backend_inv sample_members(1) by (intro ensure_inv) simp_all
  moreover have "\<not> is_exit ?s" "staging_ptr ?s 1 = Some 5000" "fdflush_joinable ?s" "fdflush ?s \<noteq> Finished"
    by (simp_all add: preallocate_def ensureStagingBufferAllocated_def Let_def sample_members)
  ultimately show "shutdown_StaticLogBackend sample_surroundings nows ?s \<noteq> Inr (Some s')"
    by (rule destructor_waits_for_live_threads)
qed

text \<open>
  \<^verbatim>\<open>setLogFile\<close> does not wait for the records logged before it: they are written to the new file, whose
  contents they overwrite from its start, and the old file stays as it is.
\<close>

theorem setLogFile_redirects_pending:
  assumes "drainable w q s" "fdflush_joinable s" "can_open g" "outfd s = Some (f, off)" "f \<noteq> g"
    and "\<forall>now \<in> set nows. clock_ok w now" "length nows = (\<Sum>p\<in>set (thread_buffers s). length (q p))"
  shows "\<exists>s1 out ls s2. setLogFile can_open g s = Inr s1 \<and> ioPoll w nows s1 = Inr (Wait, s2)
    \<and> mset out = (\<Sum>p\<in>set (thread_buffers s). mset (q p)) \<and> lines_of w nows out ls
    \<and> files s2 g = Some (overwrite (case files s g of None \<Rightarrow> [] | Some c \<Rightarrow> c) 0 (concat ls))
    \<and> files s2 f = files s f"
proof -
  let ?c = "case files s g of None \<Rightarrow> [] | Some c \<Rightarrow> c"
  obtain s1 where s1: "setLogFile can_open g s = Inr s1" "drainable w q s1" "outfd s1 = Some (g, 0)"
    "files s1 = (files s)(g \<mapsto> ?c)" "thread_buffers s1 = thread_buffers s"
    using assms(1-3) by (rule setLogFile_drainable)
  have m: "files s1 g = Some ?c" "(0 :: nat) \<le> length ?c" "length nows = (\<Sum>p\<in>set (thread_buffers s1). length (q p))"
    using s1(4,5) assms(7) by simp_all
  obtain out ls s2 where s2: "ioPoll w nows s1 = Inr (Wait, s2)" "drains st_stamp q out" "lines_of w nows out ls"
    "files s2 = (files s1)(g \<mapsto> overwrite ?c 0 (concat ls))"
    using ioPoll_drains [OF s1(2,3) m(1,2) assms(6) finite_set drainable_registered [OF s1(2)] m(3)] by (elim exE conjE)
  have "mset out = (\<Sum>p\<in>set (thread_buffers s). mset (q p))"
    using drains_mset [OF s2(2) finite_set drainable_registered [OF assms(1)]] by (simp add: all_of_def)
  with s1(1,4) s2(1,3,4) assms(5) show ?thesis
    by (intro exI [of _ s1] exI [of _ out] exI [of _ ls] exI [of _ s2]) simp
qed

theorem setLogFile_redirects_pending_witness:
  "\<exists>s s1 out ls s2. staging_ptr s 1 = Some 5000 \<and> setLogFile (\<lambda>_. True) ''log_.txt'' s = Inr s1
    \<and> ioPoll sample_surroundings [1000000000000000042] s1 = Inr (Wait, s2)
    \<and> lines_of sample_surroundings [1000000000000000042] out ls
    \<and> files s2 ''log_.txt'' = Some (overwrite [] 0 (concat ls)) \<and> files s2 DEFAULT_LOGFILE = Some []"
proof -
  let ?q = "(\<lambda>_. [])(5000 := [sample_statement])"
  obtain s where s: "drainable sample_surroundings ?q s" "staging_ptr s 1 = Some 5000" "same_output sample_backend s"
    by (rule sample_drainable) blast
  have m: "fdflush_joinable s" "outfd s = Some (DEFAULT_LOGFILE, 0)" "files s DEFAULT_LOGFILE = Some []"
    "files s ''log_.txt'' = None"
    using s(3) sample_members by (simp_all add: same_output_def) (simp add: sample_backend_def DEFAULT_LOGFILE_def)
  have ne: "DEFAULT_LOGFILE \<noteq> ''log_.txt''" by (simp add: DEFAULT_LOGFILE_def)
  have "5000 \<in> set (thread_buffers s)" using drainable_registered [OF s(1)] by simp
  then have len: "length [1000000000000000042 :: nat] = (\<Sum>p\<in>set (thread_buffers s). length (?q p))"
    by (simp add: if_distrib [of length] sum.delta cong: if_cong)
  have clk: "\<forall>now \<in> set [1000000000000000042]. clock_ok sample_surroundings now" using sample_clock by simp
  have yes: "(\<lambda>_. True) ''log_.txt''" by simp
  from setLogFile_redirects_pending [where can_open = "\<lambda>_. True", OF s(1) m(1) yes m(2) ne clk len] m(3,4) s(2)
  show ?thesis by fastforce
qed

end
