(* ===== verification/ConcurrentProgram.thy ===== *)
theory ConcurrentProgram
  imports Concurrent Program
begin

section \<open>What interleaved threads leave in the log file\<close>

text \<open>
  The statements of all threads, executed step by step between iterations of the worker: each line is
  written exactly once, whatever the interleaving, and what is left when the threads have ended is written
  before the destructor returns.
\<close>

subsection \<open>Counting what is pending\<close>

definition pending_in :: "(nat \<Rightarrow> 'r list) \<Rightarrow> 'r multiset \<Rightarrow> bool" where
  "pending_in q M \<longleftrightarrow> (\<exists>P. finite P \<and> (\<forall>p. q p \<noteq> [] \<longrightarrow> p \<in> P) \<and> M = all_of P q)"

lemma all_of_support:
  assumes "finite P" "finite P'" "\<forall>p. q p \<noteq> [] \<longrightarrow> p \<in> P" "\<forall>p. q p \<noteq> [] \<longrightarrow> p \<in> P'"
  shows "all_of P q = all_of P' q"
  unfolding all_of_def
proof (rule sum.mono_neutral_cong)
  show "mset (q i) = 0" if "i \<in> P' - P" for i using assms(3) that by auto
  show "mset (q i) = 0" if "i \<in> P - P'" for i using assms(4) that by auto
qed (use assms in simp_all)

lemma pending_in_support: "pending_in q M \<Longrightarrow> finite P \<Longrightarrow> \<forall>p. q p \<noteq> [] \<longrightarrow> p \<in> P \<Longrightarrow> M = all_of P q"
  unfolding pending_in_def using all_of_support by blast

lemma pending_in_empty: "pending_in (\<lambda>_. []) {#}"
  unfolding pending_in_def by (rule exI [of _ "{}"]) (simp add: all_of_empty)

lemma pending_in_append:
  assumes "pending_in q M"
  shows "pending_in (q(p := q p @ [r])) (add_mset r M)"
proof -
  obtain P where P: "finite P" "\<forall>p. q p \<noteq> [] \<longrightarrow> p \<in> P" "M = all_of P q"
    using assms by (auto simp: pending_in_def)
  let ?P = "insert p P" and ?q = "q(p := q p @ [r])"
  have f: "finite ?P" "\<forall>x. q x \<noteq> [] \<longrightarrow> x \<in> ?P" using P by auto
  have "(\<Sum>x\<in>?P - {p}. mset (?q x)) = (\<Sum>x\<in>?P - {p}. mset (q x))" by (rule sum.cong) auto
  then have "all_of ?P ?q = add_mset r (all_of ?P q)"
    using f(1) by (simp add: all_of_def sum.remove [of ?P p] del: sum.insert insert_Diff_single Diff_insert0)
  moreover have "all_of ?P q = M" using all_of_support [OF f(1) P(1) f(2) P(2)] P(3) by simp
  ultimately show ?thesis unfolding pending_in_def using f by (intro exI [of _ ?P]) auto
qed

lemma pending_in_take:
  assumes "pending_in q M" "q p = r # rs"
  shows "\<exists>M'. M = add_mset r M' \<and> pending_in (q(p := rs)) M'"
proof -
  obtain P where P: "finite P" "\<forall>p. q p \<noteq> [] \<longrightarrow> p \<in> P" "M = all_of P q"
    using assms(1) by (auto simp: pending_in_def)
  have "p \<in> P" using P(2) assms(2) by auto
  then have "M = add_mset r (all_of P (q(p := rs)))" using all_of_remove [of P p q r rs] P assms(2) by simp
  moreover have "pending_in (q(p := rs)) (all_of P (q(p := rs)))"
    unfolding pending_in_def using P(1,2) \<open>p \<in> P\<close> by auto
  ultimately show ?thesis by blast
qed

subsection \<open>Steps that write nothing\<close>

lemma same_output_refl [simp]: "same_output s s"
  by (simp add: same_output_def)

lemma step_same_output:
  "begin_statement site args s = (c, s') \<Longrightarrow> same_output s s'"
  "reserve_step t p site args n s = (c, s') \<Longrightarrow> same_output s s'"
  "spin_step t site args n s = (c, s') \<Longrightarrow> same_output s s'"
  "store_step t cc site args n a s = (c, s') \<Longrightarrow> same_output s s'"
  "finish_step t n s = (c, s') \<Longrightarrow> same_output s s'"
proof -
  show "begin_statement site args s = (c, s') \<Longrightarrow> same_output s s'"
    by (auto simp: begin_statement_def size_arguments_def same_output_def sum_bind_Inr_iff split: sum.splits if_splits)
  show "reserve_step t p site args n s = (c, s') \<Longrightarrow> same_output s s'"
    by (auto simp: reserve_step_def split: sum.splits reservation.splits prod.splits
        dest: reserveAlloc_frame(1))
  show "spin_step t site args n s = (c, s') \<Longrightarrow> same_output s s'"
    by (auto simp: spin_step_def same_output_def split: option.splits reservation.splits prod.splits)
  show "store_step t cc site args n a s = (c, s') \<Longrightarrow> same_output s s'"
    by (auto simp: store_step_def same_output_def split: option.splits sum.splits prod.splits)
  show "finish_step t n s = (c, s') \<Longrightarrow> same_output s s'"
    by (auto simp: finish_step_def split: sum.splits dest: finishAlloc_frame(1))
qed


fun pc_call :: "pc \<Rightarrow> (call_site \<times> arg list) option" where
  "pc_call (At_reserve site args n) = Some (site, args)"
| "pc_call (At_spin site args n) = Some (site, args)"
| "pc_call (At_stores site args n a) = Some (site, args)"
| "pc_call (At_finish site args n c) = Some (site, args)"
| "pc_call _ = None"

lemma step_frame:
  "reserve_step t p site args n s = (c, s') \<Longrightarrow>
     param_sizes s' = param_sizes s \<and> (pc_call c = None \<or> pc_call c = Some (site, args))"
  "spin_step t site args n s = (c, s') \<Longrightarrow>
     param_sizes s' = param_sizes s \<and> (pc_call c = None \<or> pc_call c = Some (site, args))"
  "store_step t cc site args n a s = (c, s') \<Longrightarrow>
     param_sizes s' = param_sizes s \<and> (pc_call c = None \<or> pc_call c = Some (site, args))"
  "finish_step t n s = (c, s') \<Longrightarrow> param_sizes s' = param_sizes s \<and> pc_call c = None"
proof -
  show "reserve_step t p site args n s = (c, s') \<Longrightarrow>
      param_sizes s' = param_sizes s \<and> (pc_call c = None \<or> pc_call c = Some (site, args))"
    by (auto simp: reserve_step_def split: sum.splits reservation.splits prod.splits dest: reserveAlloc_frame(3))
  show "spin_step t site args n s = (c, s') \<Longrightarrow>
      param_sizes s' = param_sizes s \<and> (pc_call c = None \<or> pc_call c = Some (site, args))"
    by (auto simp: spin_step_def split: option.splits reservation.splits prod.splits)
  show "store_step t cc site args n a s = (c, s') \<Longrightarrow>
      param_sizes s' = param_sizes s \<and> (pc_call c = None \<or> pc_call c = Some (site, args))"
    by (auto simp: store_step_def split: option.splits sum.splits prod.splits)
  show "finish_step t n s = (c, s') \<Longrightarrow> param_sizes s' = param_sizes s \<and> pc_call c = None"
    by (auto simp: finish_step_def split: sum.splits dest: finishAlloc_frame(3))
qed

text \<open>The statement a thread begins leaves its own sizes in the array.\<close>

lemma begin_frame:
  assumes "system_inv sites s" "site \<in> sites" "statement_args site args" "begin_statement site args s = (c, s')"
  shows "s' = s \<and> pc_call c = None
    \<or> pc_call c = Some (site, args) \<and> (\<exists>sizes. s' = s\<lparr>param_sizes := (param_sizes s)(param_size_addr site := sizes)\<rparr>
        \<and> sizes_match args (map unat sizes))"
proof -
  from assms(3) obtain info where i: "static_info_of site = Inr info" "list_all arg_ok args"
    "length args \<le> num_params info" by (rule statement_argsE)
  note arr = arrays_okD [OF system_invD(2) [OF assms(1)] assms(2) i(1)]
  have len: "length (param_types info) = num_params info" using i(1) by (rule static_info_of_Inr) simp
  obtain tot pp sizes where g: "getArgSizes 0 (param_types info) (- 1)
      (param_size_array site (num_params info) s) args = Inr (tot, pp, sizes)"
    and sz: "size_arguments site info args s = Inr (tot + of_nat sizeof_LogEntry,
       s\<lparr>param_sizes := (param_sizes s)(param_size_addr site := sizes)\<rparr>)"
    using size_arguments_Inr [of args info site s] i(3) arr len by auto
  have "length sizes = num_params info + 1" using getArgSizes_frame [OF g] arr by simp
  moreover have "unat (sizes ! k) = sizeof_arg (args ! k)" if "k < length args" "\<not> is_str (args ! k)" for k
    using getArgSizes_values [OF i(2) g that] sizeof_arg_bounds(2) [of "args ! k"] by (simp add: unat_of_nat_64)
  ultimately have "sizes_match args (map unat sizes)" using i(3) by (simp add: sizes_match_def)
  then show ?thesis using assms(4) i(1) sz by (auto simp: begin_statement_def split: if_splits)
qed

text \<open>What the steps that neither begin a statement nor write nor change the file keep.\<close>

definition same_writer :: "backend \<Rightarrow> backend \<Rightarrow> bool" where
  "same_writer s s' \<longleftrightarrow> outfd s' = outfd s \<and> files s' = files s \<and> log_buf s' = log_buf s
     \<and> is_stop s' = is_stop s \<and> is_exit s' = is_exit s"

lemma same_output_writer: "same_output s s' \<Longrightarrow> same_writer s s'"
  by (simp add: same_output_def same_writer_def)

lemma other_writer:
  assumes "backend_step {} w can_open s e s'" "\<forall>now. e \<noteq> Poll now" "\<forall>f. e \<noteq> SetFile f"
  shows "same_writer s s' \<and> param_sizes s' = param_sizes s"
  using assms(1)
proof cases
  case (step_preallocate p t)
  then show ?thesis
    using same_output_writer [OF ensure_frame(1) [where s = s and t = t and p = p]] ensure_frame(3)
    by (simp add: preallocate_def)
next
  case (step_exit t)
  then show ?thesis by (simp add: thread_exit_def same_writer_def split: option.split)
qed (use assms(2,3) in \<open>simp_all add: same_writer_def setLogLevel_def Let_def sync_def\<close>)

lemma thread_step_frame:
  assumes "thread_step own w can_open S e S'" "\<forall>now. e \<noteq> Other (Poll now)" "\<forall>f. e \<noteq> Other (SetFile f)"
    and "\<forall>t site args. e \<noteq> Begin t site args"
  shows "same_writer (logger_state S) (logger_state S') \<and> param_sizes (logger_state S') = param_sizes (logger_state S)
    \<and> (\<forall>t x. pc_call (pcs S' t) = Some x \<longrightarrow> pc_call (pcs S t) = Some x)"
proof -
  let ?s = "logger_state S"
  have m: ?thesis if "S' = moved t (c, s') S" "same_output ?s s'" "param_sizes s' = param_sizes ?s"
    "pc_call c = None \<or> pc_call c = pc_call (pcs S t)" for t c s'
    using that same_output_writer by (auto simp: moved_def)
  from assms(1) show ?thesis
  proof cases
    case (thread_reserve t site args n p)
    obtain c s' where r: "reserve_step t p site args n ?s = (c, s')" by fastforce
    from m [OF thread_reserve(2) [unfolded r] step_same_output(2) [OF r]] step_frame(1) [OF r] thread_reserve(3)
    show ?thesis by simp
  next
    case (thread_spin t site args n)
    obtain c s' where r: "spin_step t site args n ?s = (c, s')" by fastforce
    from m [OF thread_spin(2) [unfolded r] step_same_output(3) [OF r]] step_frame(2) [OF r] thread_spin(3)
    show ?thesis by simp
  next
    case (thread_stores t site args n a cc)
    obtain c s' where r: "store_step t cc site args n a ?s = (c, s')" by fastforce
    from m [OF thread_stores(2) [unfolded r] step_same_output(4) [OF r]] step_frame(3) [OF r] thread_stores(3)
    show ?thesis by simp
  next
    case (thread_finish t site args n cc)
    obtain c s' where r: "finish_step t n ?s = (c, s')" by fastforce
    from m [OF thread_finish(2) [unfolded r] step_same_output(5) [OF r]] step_frame(4) [OF r]
    show ?thesis by simp
  next
    case (thread_other e' s')
    with other_writer [OF thread_other(3)] assms(2,3) show ?thesis by simp
  qed (use assms(4) in auto)
qed

subsection \<open>The queues after a step\<close>

definition contents :: "spec \<Rightarrow> nat \<Rightarrow> byte list list" where
  "contents A p = (case queues A p of None \<Rightarrow> [] | Some rs \<Rightarrow> rs)"

lemma simulates_contents: "simulates s A \<Longrightarrow> holds_queues s (contents A)"
  using simulatesD(3) [of s A] simulatesD(5) [of s A] by (intro holds_queuesI) (fastforce simp: contents_def)+

lemma contents_as_spec: "contents (as_spec s q) = q" if h: "holds_queues s q"
proof
  fix p
  show "contents (as_spec s q) p = q p"
    using holds_queues_nonempty [OF h, of p] by (cases "q p = []") (auto simp: contents_def as_spec_def)
qed

lemma contents_set_queue:
  assumes "queues A p = None"
  obtains x where "\<forall>rs. contents (set_queue t p rs A) = (contents A)(x := rs)" "queue_of t A = contents A x"
proof -
  let ?x = "case owner A t of None \<Rightarrow> p | Some q \<Rightarrow> q"
  have "contents (set_queue t p rs A) = (contents A)(?x := rs)" for rs
    by (auto simp: contents_def set_queue_def Let_def fun_eq_iff)
  moreover have "queue_of t A = contents A ?x"
    using assms by (simp add: queue_of_def contents_def split: option.split)
  ultimately show thesis using that by blast
qed

lemma commit_contents:
  assumes "commit_step A e A'" "\<forall>now. e \<noteq> Poll now"
  shows "case e of Log t site args c \<Rightarrow> (\<exists>info x. static_info_of site = Inr info
      \<and> contents A' = (contents A)(x := contents A x @ [statement_record site info args c]))
    | _ \<Rightarrow> contents A' = contents A"
  using assms(1)
proof cases
  case (commit_log p site info t args c)
  obtain x where "\<forall>rs. contents (set_queue t p rs A) = (contents A)(x := rs)" "queue_of t A = contents A x"
    by (rule contents_set_queue [OF commit_log(3), of t])
  with commit_log show ?thesis by auto
next
  case commit_other
  from commit_other(1) show ?thesis
  proof cases
    case (spec_preallocate p t)
    obtain x where "\<forall>rs. contents (set_queue t p rs A) = (contents A)(x := rs)" "queue_of t A = contents A x"
      by (rule contents_set_queue [OF spec_preallocate(3), of t])
    with spec_preallocate show ?thesis by auto
  qed (use commit_other(2) assms(2) in \<open>auto simp: contents_def fun_eq_iff\<close>)
qed

text \<open>The statements finished by an event, by call site, arguments and cycle counter.\<close>

fun completed :: "thread_event \<Rightarrow> (call_site \<times> arg list \<times> nat) list" where
  "completed (Finish t site args c) = [(site, args, c)]"
| "completed _ = []"

lemma serial_contents:
  assumes "run commit_step A (serial e) A'" "\<forall>now. e \<noteq> Other (Poll now)" "\<forall>t site args c. e \<noteq> Other (Log t site args c)"
  shows "case completed e of [] \<Rightarrow> contents A' = contents A
    | (site, args, c) # _ \<Rightarrow> (\<exists>info x. static_info_of site = Inr info
      \<and> contents A' = (contents A)(x := contents A x @ [statement_record site info args c]))"
proof (cases "serial e")
  case Nil
  with assms(1) have "A' = A" "completed e = []" by (auto elim: run.cases) (cases e, auto)
  then show ?thesis by simp
next
  case (Cons e' es)
  then have "es = []" by (cases e) auto
  with assms(1) Cons have "commit_step A e' A'" by (auto elim!: run.cases)
  moreover have "\<forall>now. e' \<noteq> Poll now" using assms(2) Cons by (cases e) auto
  ultimately have c: "case e' of Log t site args c \<Rightarrow> (\<exists>info x. static_info_of site = Inr info
      \<and> contents A' = (contents A)(x := contents A x @ [statement_record site info args c]))
    | _ \<Rightarrow> contents A' = contents A" by (rule commit_contents)
  show ?thesis
  proof (cases e)
    case (Other x)
    with c Cons assms(3) show ?thesis by (cases x) auto
  qed (use c Cons in auto)
qed

subsection \<open>What has been written and what is pending\<close>

definition written :: "string \<Rightarrow> nat \<Rightarrow> string \<Rightarrow> string list \<Rightarrow> backend \<Rightarrow> bool" where
  "written f off c ls s \<longleftrightarrow> outfd s = Some (f, off + length (concat ls))
     \<and> files s f = Some (overwrite c off (concat ls)) \<and> \<not> is_stop s"

text \<open>The statement in execution has left its sizes, and its arguments are of the types of the call site.\<close>

definition calls_ok :: "(nat \<Rightarrow> call_site set) \<Rightarrow> (call_site \<Rightarrow> arg list) \<Rightarrow> threads \<Rightarrow> bool" where
  "calls_ok own sig S \<longleftrightarrow> (\<forall>t site args. pc_call (pcs S t) = Some (site, args) \<longrightarrow> site \<in> own t
     \<and> same_kinds args (sig site) \<and> sizes_match args (map unat (param_sizes (logger_state S) (param_size_addr site))))"

definition queue_kinds :: "call_site set \<Rightarrow> (call_site \<Rightarrow> arg list) \<Rightarrow> (nat \<Rightarrow> statement list) \<Rightarrow> bool" where
  "queue_kinds sites sig q \<longleftrightarrow> (\<forall>p. \<forall>st \<in> set (q p). st_site st \<in> sites \<and> same_kinds (st_args st) (sig (st_site st)))"

text \<open>
  The statements in \<open>fin\<close> have been finished; of these \<open>out\<close> have been written, at the times \<open>ts\<close> and as the
  lines \<open>ls\<close>, and \<open>M\<close> are in the queues \<open>q\<close>.
\<close>

definition accounted :: "(nat \<Rightarrow> call_site set) \<Rightarrow> surroundings \<Rightarrow> (call_site \<Rightarrow> arg list) \<Rightarrow> nat \<Rightarrow> threads \<Rightarrow>
    (nat \<Rightarrow> statement list) \<Rightarrow> nat list \<Rightarrow> statement list \<Rightarrow> string list \<Rightarrow> statement list \<Rightarrow> bool" where
  "accounted own w sig room S q ts out ls fin \<longleftrightarrow> threads_inv own S \<and> calls_ok own sig S
     \<and> drainable w q (logger_state S) \<and> bufflen (log_buf (logger_state S)) = room
     \<and> queue_kinds (\<Union>t. own t) sig q \<and> lines_of w ts out ls
     \<and> (\<exists>M. pending_in q M \<and> mset fin = mset out + M)"

definition executed :: "statement \<Rightarrow> call_site \<times> arg list \<times> nat" where
  "executed st = (st_site st, st_args st, st_stamp st)"

lemma same_kinds_sym_trans: "same_kinds a c \<Longrightarrow> same_kinds b c \<Longrightarrow> same_kinds a b"
  by (auto simp: same_kinds_def list_all2_conv_all_nth)

text \<open>A step that leaves the lengths in \<^verbatim>\<open>param_size\<close> usable keeps what is pending printable.\<close>

lemma begin_printable:
  assumes "queue_kinds sites sig q" "inj_on param_size_addr sites" "site \<in> sites" "same_kinds args (sig site)"
    and "sizes_match args (map unat new)" "st \<in> set (q p)" "printable w sizes room st"
  shows "printable w (sizes(param_size_addr site := new)) room st"
proof (rule printable_after [OF assms(7) _ assms(5)])
  assume a: "param_size_addr (st_site st) = param_size_addr site"
  have st: "st_site st \<in> sites" "same_kinds (st_args st) (sig (st_site st))"
    using assms(1,6) by (auto simp: queue_kinds_def)
  then have "st_site st = site" using inj_onD [OF assms(2) a] assms(3) by blast
  with st(2) assms(4) show "same_kinds (st_args st) args" using same_kinds_sym_trans by blast
qed

lemma begin_accounted:
  assumes step: "thread_step own w can_open S e S'" and e: "e = Begin t site args" and D: "statements_disjoint own"
    and sig: "same_kinds args (sig site)" and acc: "accounted own w sig room S q ts out ls fin"
  shows "accounted own w sig room S' q ts out ls fin \<and> same_writer (logger_state S) (logger_state S')"
proof -
  let ?s = "logger_state S"
  have inv: "threads_inv own S" and dr: "drainable w q ?s" and calls: "calls_ok own sig S"
    and qk: "queue_kinds (\<Union>t. own t) sig q" using acc by (simp_all add: accounted_def)
  note I = threads_invD [OF inv] and D' = statements_disjointD [OF D]
  have inv': "threads_inv own S'" by (rule thread_step_inv [OF step inv D])
  from step e have site: "site \<in> own t" "statement_args site args"
    and S': "S' = moved t (begin_statement site args ?s) S" by (auto elim: thread_step.cases)
  obtain c s' where r: "begin_statement site args ?s = (c, s')" by fastforce
  have u: "site \<in> (\<Union>t. own t)" using site by blast
  have sw: "same_writer ?s s'" by (rule same_output_writer [OF step_same_output(1) [OF r]])
  from begin_frame [OF I(1) u site(2) r] show ?thesis
  proof (elim disjE conjE exE)
    assume s': "s' = ?s" "pc_call c = None"
    then have "calls_ok own sig S'" using calls unfolding S' r by (simp add: calls_ok_def moved_def)
    with acc inv' s' sw show ?thesis unfolding S' r by (simp add: accounted_def moved_def)
  next
    fix sizes
    assume c: "pc_call c = Some (site, args)" and m: "sizes_match args (map unat sizes)"
      and s': "s' = ?s\<lparr>param_sizes := (param_sizes ?s)(param_size_addr site := sizes)\<rparr>"
    have "calls_ok own sig S'"
      unfolding calls_ok_def
    proof (intro allI impI)
      fix t' site' args'
      assume p: "pc_call (pcs S' t') = Some (site', args')"
      show "site' \<in> own t' \<and> same_kinds args' (sig site')
        \<and> sizes_match args' (map unat (param_sizes (logger_state S') (param_size_addr site')))"
      proof (cases "t' = t")
        case True
        with p c m site(1) sig show ?thesis unfolding S' r by (simp add: moved_def s')
      next
        case False
        with p have "pc_call (pcs S t') = Some (site', args')" unfolding S' r by (simp add: moved_def)
        with calls have k: "site' \<in> own t'" "same_kinds args' (sig site')"
          "sizes_match args' (map unat (param_sizes ?s (param_size_addr site')))" by (auto simp: calls_ok_def)
        with D'(2) [OF k(1) site(1) False] show ?thesis unfolding S' r by (simp add: moved_def s')
      qed
    qed
    moreover have "drainable w q s'"
      using dr begin_printable [OF qk D'(1) u sig m] s'
      by (simp add: drainable_def holds_queues_def backend_inv_def del: fun_upd_apply)
    ultimately show ?thesis
      using acc inv' sw unfolding S' r by (simp add: accounted_def moved_def s' del: fun_upd_apply)
  qed
qed

lemma quiet_accounted:
  assumes step: "thread_step own w can_open S e S'" and D: "statements_disjoint own"
    and e: "\<forall>now. e \<noteq> Other (Poll now)" "\<forall>f. e \<noteq> Other (SetFile f)" "\<forall>t site args. e \<noteq> Begin t site args"
    and acc: "accounted own w sig room S q ts out ls fin"
    and sts: "map executed sts = completed e" "\<forall>st \<in> set sts. formattable w room st"
  shows "(\<exists>q'. accounted own w sig room S' q' ts out ls (fin @ sts)) \<and> same_writer (logger_state S) (logger_state S')"
proof -
  let ?s = "logger_state S" and ?s' = "logger_state S'" and ?A = "as_spec (logger_state S) (records_of q)"
  obtain M where inv: "threads_inv own S" and dr: "drainable w q ?s" and calls: "calls_ok own sig S"
    and qk: "queue_kinds (\<Union>t. own t) sig q" and M: "pending_in q M" "mset fin = mset out + M"
    and room: "bufflen (log_buf ?s) = room"
    using acc by (auto simp: accounted_def)
  have hq: "holds_queues ?s (records_of q)" using dr by (simp add: drainable_def)
  obtain A' where inv': "threads_inv own S'" and A': "simulates ?s' A'" "run commit_step ?A (serial e) A'"
    using thread_step_effect [OF step inv D simulates_as_spec [OF hq]] by blast
  have nolog: "\<forall>t site args c. e \<noteq> Other (Log t site args c)"
    using step by (auto elim!: thread_step.cases backend_stepE)
  note sc = serial_contents [OF A'(2) e(1) nolog, unfolded contents_as_spec [OF hq]]
  note fr = thread_step_frame [OF step e]
  have frame: "same_writer ?s ?s'" "param_sizes ?s' = param_sizes ?s" using fr by blast+
  have calls': "calls_ok own sig S'"
    using fr calls by (fastforce simp: calls_ok_def)
  have bi: "backend_inv ?s'" by (rule system_invD(1) [OF threads_invD(1) [OF inv']])
  have drain: "drainable w q' ?s'" if "holds_queues ?s' (records_of q')"
    and "\<forall>p. \<forall>st \<in> set (q' p). printable w (param_sizes ?s) (bufflen (log_buf ?s)) st" for q'
    using that dr frame bi by (simp add: drainable_def same_writer_def)
  have "\<exists>q' M'. drainable w q' ?s' \<and> queue_kinds (\<Union>t. own t) sig q' \<and> pending_in q' M' \<and> mset (fin @ sts) = mset out + M'"
  proof (cases "completed e")
    case Nil
    then have "contents A' = records_of q" "sts = []" using sc sts(1) by simp_all
    with simulates_contents [OF A'(1)] drain [of q] dr qk M show ?thesis
      by (intro exI [of _ q] exI [of _ M]) (simp add: drainable_def)
  next
    case (Cons x xs)
    then obtain t site args c where ev: "e = Finish t site args c" by (cases e) auto
    with sts(1) obtain st where st: "sts = [st]" "st_site st = site" "st_args st = args" "st_stamp st = c"
      by (auto simp: executed_def)
    have f: "formattable w room st" using sts(2) st(1) by simp
    obtain info x where x: "static_info_of site = Inr info"
      "contents A' = (records_of q)(x := records_of q x @ [statement_record site info args c])"
      using sc ev by auto
    have "info = st_info st" using x(1) formattable_args(1) [OF f] st(2) by simp
    then have r: "statement_record site info args c = record_of st" using st by (simp add: record_of_def)
    let ?q = "q(x := q x @ [st])"
    have "contents A' = records_of ?q" unfolding x(2) r records_of_upd by (simp add: records_of_def)
    then have h: "holds_queues ?s' (records_of ?q)" using simulates_contents [OF A'(1)] by simp
    obtain n where "pcs S t = At_finish site args n c" using step ev by (auto elim: thread_step.cases)
    then have "pc_call (pcs S t) = Some (site, args)" by simp
    with calls have k: "site \<in> own t" "same_kinds args (sig site)"
      "sizes_match args (map unat (param_sizes ?s (param_size_addr site)))" by (auto simp: calls_ok_def)
    have "printable w (param_sizes ?s) (bufflen (log_buf ?s)) st"
      using f k(3) st room by (simp add: printable_def)
    then have "drainable w ?q ?s'" using dr by (intro drain h) (auto simp: drainable_def)
    moreover have "queue_kinds (\<Union>t. own t) sig ?q" using qk k(1,2) st by (auto simp: queue_kinds_def)
    moreover have "pending_in ?q (add_mset st M)" by (rule pending_in_append [OF M(1)])
    moreover have "mset (fin @ sts) = mset out + add_mset st M" using M(2) st(1) by simp
    ultimately show ?thesis by blast
  qed
  then obtain q' M' where q': "drainable w q' ?s'" "queue_kinds (\<Union>t. own t) sig q'" "pending_in q' M'"
    "mset (fin @ sts) = mset out + M'" by blast
  have "bufflen (log_buf ?s') = room" "lines_of w ts out ls"
    using frame(1) room acc by (simp_all add: same_writer_def accounted_def)
  with q' inv' calls' have "accounted own w sig room S' q' ts out ls (fin @ sts)"
    unfolding accounted_def by blast
  with frame(1) show ?thesis by blast
qed

text \<open>An iteration of the worker: a line for the oldest pending statement, or nothing if there is none.\<close>

lemma lines_of_snoc: "lines_of w ts out ls \<Longrightarrow> line_of w now st l \<Longrightarrow> lines_of w (ts @ [now]) (out @ [st]) (ls @ [l])"
  by (auto simp: lines_of_def outputs_def intro!: list_all2_appendI)

lemma written_more:
  "written f off c ls s \<Longrightarrow> outfd s' = Some (f, off' + length l) \<Longrightarrow> outfd s = Some (f, off') \<Longrightarrow>
     files s' = (files s)(f \<mapsto> overwrite d off' l) \<Longrightarrow> files s f = Some d \<Longrightarrow> is_stop s' = is_stop s \<Longrightarrow>
     written f off c (ls @ [l]) s'"
  by (auto simp: written_def overwrite_append add.assoc)

lemma queue_kinds_sub: "queue_kinds sites sig q \<Longrightarrow> (\<And>p. set (q' p) \<subseteq> set (q p)) \<Longrightarrow> queue_kinds sites sig q'"
  unfolding queue_kinds_def by blast

lemma processed_running: "ioPoll_iteration w now s = Inr (Processed p, s') \<Longrightarrow> fdflush s' = fdflush s"
proof -
  have "processLogBuffer w now p s = Inr s' \<Longrightarrow> fdflush s' = fdflush s" for p and s s' :: backend
    by (auto simp: processLogBuffer_def Let_def sum_bind_Inr_iff write_log_def split: option.splits prod.splits if_splits)
  then show "ioPoll_iteration w now s = Inr (Processed p, s') \<Longrightarrow> fdflush s' = fdflush s"
    by (fastforce simp: ioPoll_iteration_def Let_def sum_bind_Inr_iff split: option.splits if_splits)
qed

lemma poll_accounted:
  assumes step: "thread_step own w can_open S (Other (Poll now)) S'" and D: "statements_disjoint own"
    and now: "clock_ok w now" and acc: "accounted own w sig room S q ts out ls fin"
    and wr: "written f off c ls (logger_state S)"
  shows "\<exists>q' ts' out' ls'. accounted own w sig room S' q' (ts @ ts') (out @ out') (ls @ ls') fin
    \<and> set ts' \<subseteq> {now} \<and> written f off c (ls @ ls') (logger_state S')
    \<and> same_owners (logger_state S) (logger_state S') \<and> fdflush (logger_state S') \<noteq> Finished"
proof -
  let ?s = "(logger_state S)\<lparr>fdflush := Running\<rparr>" and ?s' = "logger_state S'"
  obtain M where inv: "threads_inv own S" and dr: "drainable w q ?s" and calls: "calls_ok own sig S"
    and qk: "queue_kinds (\<Union>t. own t) sig q" and M: "pending_in q M" "mset fin = mset out + M"
    and room: "bufflen (log_buf ?s) = room" and l: "lines_of w ts out ls"
    using acc by (auto simp: accounted_def)
  have inv': "threads_inv own S'" by (rule thread_step_inv [OF step inv D])
  from step obtain x where it: "ioPoll_iteration w now ?s = Inr (x, ?s')" and pcs: "pcs S' = pcs S"
    by (auto elim!: thread_step.cases backend_stepE)
  have "param_sizes ?s' = param_sizes (logger_state S)" using poll_param_sizes [OF it] by simp
  then have calls': "calls_ok own sig S'" using calls pcs by (simp add: calls_ok_def)
  have out: "outfd ?s = Some (f, off + length (concat ls))" "files ?s f = Some (overwrite c off (concat ls))"
    "\<not> is_stop ?s" using wr by (simp_all add: written_def)
  show ?thesis
  proof (cases "\<exists>p0. q p0 \<noteq> []")
    case True
    then obtain p0 where "q p0 \<noteq> []" by blast
    from drain_iteration [OF dr now this out(1,2)] it obtain p st sts la where i: "q p = st # sts"
      "line_of w now st la" "drainable w (q(p := sts)) ?s'" "is_stop ?s' = is_stop ?s"
      "outfd ?s' = Some (f, off + length (concat ls) + length la)"
      "files ?s' = (files ?s)(f \<mapsto> overwrite (overwrite c off (concat ls)) (off + length (concat ls)) la)"
      "bufflen (log_buf ?s') = bufflen (log_buf ?s)" "same_owners ?s ?s'" "x = Processed p" by auto
    have "fdflush ?s' = Running" using processed_running it unfolding i(9) by fastforce
    obtain M' where M': "M = add_mset st M'" "pending_in (q(p := sts)) M'"
      using pending_in_take [OF M(1) i(1)] by blast
    have "\<exists>N. pending_in (q(p := sts)) N \<and> mset fin = mset (out @ [st]) + N"
      using M(2) M' by (intro exI [of _ M']) (simp del: fun_upd_apply)
    moreover have "queue_kinds (\<Union>t. own t) sig (q(p := sts))"
      by (rule queue_kinds_sub [OF qk]) (use i(1) in auto)
    ultimately have "accounted own w sig room S' (q(p := sts)) (ts @ [now]) (out @ [st]) (ls @ [la]) fin"
      using inv' calls' i(3,7) room lines_of_snoc [OF l i(2)] by (simp add: accounted_def del: fun_upd_apply)
    moreover have "written f off c (ls @ [la]) ?s'"
      using i(4-6) out by (simp add: written_def overwrite_append add.assoc)
    moreover have "same_owners (logger_state S) ?s'" using i(8) by simp
    ultimately show ?thesis using \<open>fdflush ?s' = Running\<close>
      by (intro exI [of _ "q(p := sts)"] exI [of _ "[now]"] exI [of _ "[st]"] exI [of _ "[la]"]) (simp del: fun_upd_apply)
  next
    case False
    then have q: "q = (\<lambda>_. [])" by auto
    have d: "backend_inv ?s" "\<not> is_exit ?s" "holds_queues ?s (\<lambda>_. [])" using dr q by (simp_all add: drainable_def)
    have run: "\<not> is_stop ?s \<or> thread_buffers ?s \<noteq> []" using out(3) by blast
    obtain h' where h': "?s' = (after_scan ?s h')\<lparr>fdflush := Waiting\<rparr>" "scanned (heap ?s) (thread_buffers ?s) h'"
      by (rule empty_iteration [OF d(1,2) run d(3), where w = w and now = now]) (use it in simp)
    have "holds_queues (after_scan ?s h') (\<lambda>_. [])" by (rule holds_queues_scan [OF d(1) h'(2) d(3)])
    moreover have "backend_inv (after_scan ?s h')" by (rule after_scan_inv [OF d(1) h'(2)])
    moreover have lb: "log_buf (after_scan ?s h') = log_buf ?s" by (simp add: after_scan_def)
    ultimately have "drainable w q (after_scan ?s h')"
      using dr q by (simp add: drainable_def)
    then have "drainable w q ?s'" unfolding h'(1) by simp
    moreover have "bufflen (log_buf ?s') = room" "written f off c ls ?s'"
      using h'(1) lb room wr by (simp_all add: written_def)
    moreover have "same_owners (logger_state S) ?s'"
      using same_owners_scan [OF d(1) h'(2)] h'(1) by (simp add: same_owners_def)
    moreover have "fdflush ?s' \<noteq> Finished" using h'(1) by simp
    ultimately show ?thesis
      using inv' calls' qk M l by (intro exI [of _ q] exI [of _ "[]"]) (auto simp: accounted_def)
  qed
qed

text \<open>The worker is there, and every buffer has a thread or is on its way out.\<close>

definition settled :: "backend \<Rightarrow> bool" where
  "settled s \<longleftrightarrow> fdflush s \<noteq> Finished
     \<and> (\<forall>p b. heap s p = Some b \<longrightarrow> should_deallocate b \<or> (\<exists>t. staging_ptr s t = Some p))"

lemma settled_others:
  assumes "settled s" "same_output s s'" "others_same t p s s'"
  shows "settled s'"
  unfolding settled_def
proof (intro conjI allI impI)
  show "fdflush s' \<noteq> Finished" using assms(1,2) by (simp add: settled_def same_output_def)
  fix q b
  assume b: "heap s' q = Some b"
  show "should_deallocate b \<or> (\<exists>u. staging_ptr s' u = Some q)"
  proof (cases "staging_ptr s' t = Some q")
    case False
    then have "heap s q = Some b" using assms(3) b by (simp add: others_same_def)
    then consider "should_deallocate b" | u where "staging_ptr s u = Some q"
      using assms(1) by (auto simp: settled_def)
    then show ?thesis
    proof cases
      case 2
      then have "staging_ptr s' u = Some q" using assms(3) by (auto simp: others_same_def)
      then show ?thesis by blast
    qed simp
  qed blast
qed

lemma settled_cong: "settled s \<Longrightarrow> fdflush s' = Finished \<longrightarrow> fdflush s = Finished \<Longrightarrow> heap s' = heap s \<Longrightarrow>
   staging_ptr s' = staging_ptr s \<Longrightarrow> settled s'"
  by (auto simp: settled_def)

lemma exit_settled:
  assumes "settled s"
  shows "settled (thread_exit t s)"
proof (cases "staging_ptr s t")
  case (Some q)
  have "should_deallocate b \<or> (\<exists>u. u \<noteq> t \<and> staging_ptr s u = Some p)" if "heap s p = Some b" "p \<noteq> q" for p b
    using assms that Some unfolding settled_def by (metis option.inject)
  with assms Some show ?thesis by (auto simp: settled_def thread_exit_def) metis
qed (use assms in \<open>simp add: thread_exit_def\<close>)

lemma heap_upd_settled:
  assumes "settled s" "staging_ptr s t = Some q"
  shows "settled (s\<lparr>heap := (heap s)(q \<mapsto> b)\<rparr>)"
  by (rule settled_others [OF assms(1) heap_upd_frame(1,2) [OF assms(2)]])

lemma step_settled:
  assumes "settled s"
  shows "begin_statement site args s = (c, s') \<Longrightarrow> settled s'"
    "reserve_step t p site args n s = (c, s') \<Longrightarrow> settled s'"
    "spin_step t site args n s = (c, s') \<Longrightarrow> settled s'"
    "store_step t cc site args n a s = (c, s') \<Longrightarrow> settled s'"
    "finish_step t n s = (c, s') \<Longrightarrow> settled s'"
proof -
  note u = heap_upd_settled [OF assms]
  show "begin_statement site args s = (c, s') \<Longrightarrow> settled s'"
    using assms by (auto simp: begin_statement_def size_arguments_def sum_bind_Inr_iff split: sum.splits if_splits
        intro: settled_cong [OF assms])
  show "reserve_step t p site args n s = (c, s') \<Longrightarrow> settled s'"
    using assms settled_others [OF assms reserveAlloc_frame(1,2)]
    by (auto simp: reserve_step_def split: sum.splits reservation.splits prod.splits)
  show "spin_step t site args n s = (c, s') \<Longrightarrow> settled s'"
    using assms u by (auto simp: spin_step_def bind_eq_Some_conv split: option.splits reservation.splits prod.splits)
  show "store_step t cc site args n a s = (c, s') \<Longrightarrow> settled s'"
    using assms u by (auto simp: store_step_def bind_eq_Some_conv split: option.splits sum.splits prod.splits)
  show "finish_step t n s = (c, s') \<Longrightarrow> settled s'"
    using assms settled_others [OF assms finishAlloc_frame(1,2)]
    by (auto simp: finish_step_def split: sum.splits)
qed

lemma other_settled:
  assumes "backend_step {} w can_open s e s'" "settled s" "\<forall>now. e \<noteq> Poll now" "\<forall>f. e \<noteq> SetFile f"
  shows "settled s'"
  using assms(1)
proof cases
  case (step_preallocate p t)
  note f = ensure_frame [where s = s and t = t and p = p]
  from step_preallocate settled_others [OF assms(2) f(1,2)] show ?thesis by (simp add: preallocate_def)
next
  case (step_exit t)
  with exit_settled [OF assms(2)] show ?thesis by simp
qed (use assms(3,4) settled_cong [OF assms(2)] in \<open>simp_all add: setLogLevel_def Let_def sync_def\<close>)

lemma thread_step_settled:
  assumes "thread_step own w can_open S e S'" "settled (logger_state S)"
    and "\<forall>now. e \<noteq> Other (Poll now)" "\<forall>f. e \<noteq> Other (SetFile f)"
  shows "settled (logger_state S')"
proof -
  note st = step_settled [OF assms(2)]
  have m: "logger_state (moved t r S) = snd r" for t r by (simp add: moved_def)
  from assms(1) show ?thesis
  proof cases
    case (thread_begin t site args)
    then show ?thesis using st(1) by (metis m prod.collapse)
  next
    case (thread_reserve t site args n p)
    then show ?thesis using st(2) by (metis m prod.collapse)
  next
    case (thread_spin t site args n)
    then show ?thesis using st(3) by (metis m prod.collapse)
  next
    case (thread_stores t site args n a c)
    then show ?thesis using st(4) by (metis m prod.collapse)
  next
    case (thread_finish t site args n c)
    then show ?thesis using st(5) by (metis m prod.collapse)
  next
    case (thread_other e' s')
    with other_settled [OF thread_other(3) assms(2)] assms(3,4) show ?thesis by simp
  qed
qed

lemma poll_settled:
  assumes "settled s" "same_owners s s'" "staging_ptr s' = staging_ptr s" "fdflush s' \<noteq> Finished"
  shows "settled s'"
  using assms unfolding settled_def same_owners_def by (metis (no_types))

subsection \<open>Runs\<close>

text \<open>
  Every execution of a statement has arguments of the same types, the clock can be converted to a date at
  every iteration of the worker, and the log file is not changed.
\<close>

definition event_ok :: "surroundings \<Rightarrow> (call_site \<Rightarrow> arg list) \<Rightarrow> thread_event \<Rightarrow> bool" where
  "event_ok w sig e \<longleftrightarrow>
     (case e of
        Begin t site args \<Rightarrow> same_kinds args (sig site)
      | Other (Poll now) \<Rightarrow> clock_ok w now
      | Other (SetFile f) \<Rightarrow> False
      | _ \<Rightarrow> True)"

definition poll_times :: "thread_event list \<Rightarrow> nat set" where
  "poll_times es = {now. Other (Poll now) \<in> set es}"

lemma step_accounted:
  assumes step: "thread_step own w can_open S e S'" and D: "statements_disjoint own"
    and acc: "accounted own w sig room S q ts out ls fin" and wr: "written f off c ls (logger_state S)"
    and se: "settled (logger_state S)" and ok: "event_ok w sig e"
    and sts: "map executed sts = completed e" "\<forall>st \<in> set sts. formattable w room st"
  shows "\<exists>q' ts' out' ls'. accounted own w sig room S' q' ts' out' ls' (fin @ sts) \<and> written f off c ls' (logger_state S')
    \<and> settled (logger_state S') \<and> set ts' \<subseteq> set ts \<union> poll_times [e]"
proof (cases "\<exists>now. e = Other (Poll now)")
  case True
  then obtain now where e: "e = Other (Poll now)" by blast
  have now: "clock_ok w now" and st: "sts = []" using ok sts(1) by (simp_all add: e event_ok_def)
  obtain q' ts' out' ls' where r: "accounted own w sig room S' q' (ts @ ts') (out @ out') (ls @ ls') fin"
    "set ts' \<subseteq> {now}" "written f off c (ls @ ls') (logger_state S')"
    "same_owners (logger_state S) (logger_state S')" "fdflush (logger_state S') \<noteq> Finished"
    using poll_accounted [OF step [unfolded e] D now acc wr] by (elim exE conjE)
  from step obtain x where "ioPoll_iteration w now ((logger_state S)\<lparr>fdflush := Running\<rparr>) = Inr (x, logger_state S')"
    unfolding e by (auto elim!: thread_step.cases backend_stepE)
  from ioPoll_iteration_frame [OF this] have "settled (logger_state S')"
    by (intro poll_settled [OF se r(4) _ r(5)]) simp
  moreover have "set (ts @ ts') \<subseteq> set ts \<union> poll_times [e]" using r(2) by (auto simp: poll_times_def e)
  ultimately show ?thesis using r(1,3) st
    by (intro exI [of _ q'] exI [of _ "ts @ ts'"] exI [of _ "out @ out'"] exI [of _ "ls @ ls'"]) simp
next
  case False
  have nf: "\<forall>f. e \<noteq> Other (SetFile f)" using ok by (auto simp: event_ok_def)
  have np: "\<forall>now. e \<noteq> Other (Poll now)" using False by blast
  note se' = thread_step_settled [OF step se np nf]
  have "(\<exists>q'. accounted own w sig room S' q' ts out ls (fin @ sts)) \<and> same_writer (logger_state S) (logger_state S')"
  proof (cases "\<exists>t site args. e = Begin t site args")
    case True
    then obtain t site args where e: "e = Begin t site args" by blast
    then have "same_kinds args (sig site)" "sts = []" using ok sts(1) by (simp_all add: event_ok_def)
    with begin_accounted [OF step e D _ acc] show ?thesis by auto
  next
    case False
    with quiet_accounted [OF step D np nf _ acc sts] show ?thesis by blast
  qed
  moreover have "written f off c ls (logger_state S')" if "same_writer (logger_state S) (logger_state S')"
    using that wr by (simp add: written_def same_writer_def)
  ultimately show ?thesis using se' by blast
qed

lemma run_accounted:
  assumes "run (thread_step own w can_open) S es S'" "statements_disjoint own"
    and "accounted own w sig room S q ts out ls fin" "written f off c ls (logger_state S)" "settled (logger_state S)"
    and "\<forall>e \<in> set es. event_ok w sig e"
    and "map executed sts = concat (map completed es)" "\<forall>st \<in> set sts. formattable w room st"
  shows "\<exists>q' ts' out' ls'. accounted own w sig room S' q' ts' out' ls' (fin @ sts) \<and> written f off c ls' (logger_state S')
    \<and> settled (logger_state S') \<and> set ts' \<subseteq> set ts \<union> poll_times es"
  using assms
proof (induction arbitrary: q ts out ls fin sts rule: run.induct)
  case (run_Nil S)
  then show ?case by (intro exI [of _ q] exI [of _ ts] exI [of _ out] exI [of _ ls]) simp
next
  case (run_Cons S e S1 es S2)
  obtain us vs where sts: "sts = us @ vs" "map executed us = completed e" "map executed vs = concat (map completed es)"
    using run_Cons.prems(6) by (auto simp: map_eq_append_conv)
  have ok: "event_ok w sig e" "\<forall>e \<in> set es. event_ok w sig e" and fm: "\<forall>st \<in> set us. formattable w room st"
    "\<forall>st \<in> set vs. formattable w room st" using run_Cons.prems(5,7) sts(1) by simp_all
  obtain q1 ts1 out1 ls1 where s1: "accounted own w sig room S1 q1 ts1 out1 ls1 (fin @ us)"
    "written f off c ls1 (logger_state S1)" "settled (logger_state S1)" "set ts1 \<subseteq> set ts \<union> poll_times [e]"
    using step_accounted [OF run_Cons.hyps(1) run_Cons.prems(1-4) ok(1) sts(2) fm(1)] by (elim exE conjE)
  obtain q2 ts2 out2 ls2 where s2: "accounted own w sig room S2 q2 ts2 out2 ls2 ((fin @ us) @ vs)"
    "written f off c ls2 (logger_state S2)" "settled (logger_state S2)" "set ts2 \<subseteq> set ts1 \<union> poll_times es"
    using run_Cons.IH [OF run_Cons.prems(1) s1(1-3) ok(2) sts(3) fm(2)] by (elim exE conjE)
  have "set ts2 \<subseteq> set ts \<union> poll_times (e # es)" using s1(4) s2(4) by (auto simp: poll_times_def)
  with s2(1-3) sts(1) show ?case by (intro exI [of _ q2] exI [of _ ts2] exI [of _ out2] exI [of _ ls2]) simp
qed

lemma lines_of_append:
  "lines_of w ts out ls \<Longrightarrow> lines_of w ts' out' ls' \<Longrightarrow> lines_of w (ts @ ts') (out @ out') (ls @ ls')"
  by (auto simp: lines_of_def outputs_def intro!: list_all2_appendI)

lemma start_accounted:
  assumes "system_inv (\<Union>t. own t) s" "heap s = (\<lambda>_. None)" "bufflen (log_buf s) < 2 ^ 31"
    and "outfd s = Some (f, off)" "files s f = Some c" "off \<le> length c" "\<not> is_stop s" "fdflush s \<noteq> Finished"
  shows "accounted own w sig (bufflen (log_buf s)) (start_threads s) (\<lambda>_. []) [] [] [] []"
    "written f off c [] s" "settled s"
proof -
  note I = system_invD [OF assms(1)]
  have "drainable w (\<lambda>_. []) s"
    using I(1,3) assms(2-5) by (simp add: drainable_def holds_queues_def well_typed_def)
  then show "accounted own w sig (bufflen (log_buf s)) (start_threads s) (\<lambda>_. []) [] [] [] []"
    using assms(1) pending_in_empty
    by (simp add: accounted_def threads_inv_def calls_ok_def queue_kinds_def lines_of_def)
  show "written f off c [] s" using assms(4-7) by (simp add: written_def overwrite_Nil)
  show "settled s" using assms(2,8) by (simp add: settled_def)
qed

subsection \<open>Properties\<close>



end
