(* ===== verification/Clients.thy ===== *)
theory Clients
  imports Program
begin

section \<open>Programs that use the logger\<close>

text \<open>
  The benchmark \<^verbatim>\<open>unitest/perf_latency.cc\<close> and the multi-threaded test \<^verbatim>\<open>unitest/test_mt.cc\<close> as the
  sequences of operations their threads execute, and the example \<^verbatim>\<open>example/demo.cc\<close>. The addresses of the
  static data of a statement and of its string literals are parameters, and so is the cycle counter.
\<close>

subsection \<open>The events of a thread\<close>

fun by_thread :: "nat \<Rightarrow> event \<Rightarrow> bool" where
  "by_thread t (Log t' site args rdtsc) = (t' = t)"
| "by_thread t (Preallocate t') = (t' = t)"
| "by_thread t (Exit t') = (t' = t)"
| "by_thread t _ = False"

definition program_cost :: "nat \<Rightarrow> event list \<Rightarrow> nat" where
  "program_cost t es = sum_list (map (event_cost t) es)"

lemma program_cost_simps [simp]:
  "program_cost t [] = 0" "program_cost t (e # es) = event_cost t e + program_cost t es"
  "program_cost t (xs @ ys) = program_cost t xs + program_cost t ys"
  by (simp_all add: program_cost_def)

lemma program_cost_filter: "program_cost t (filter (by_thread t) es) = program_cost t es"
proof (induction es)
  case (Cons e es)
  have "\<not> by_thread t e \<Longrightarrow> event_cost t e = 0" by (cases e) auto
  with Cons show ?case by simp
qed simp

lemma program_cost_prefix: "prefix xs ys \<Longrightarrow> program_cost t xs \<le> program_cost t ys"
  by (auto simp: prefix_def)

lemma program_cost_map: "(\<And>i. event_cost t (f i) = k) \<Longrightarrow> program_cost t (map f is) = length is * k"
  by (induction "is") simp_all

text \<open>
  The next statement of a thread that has executed a part of its program, in a run with any other
  events.
\<close>

lemma program_not_waiting:
  assumes "reachable sites w can_open s" "inj_on param_size_addr sites" "staging_ptr s t = None"
    and "run (backend_step sites w can_open) s es s1"
    and "prefix (filter (by_thread t) es @ [Log t site args rdtsc]) prog" "program_cost t prog < kSTAGING_BUFFER_SIZE"
    and "site \<in> sites" "statement_args site args"
  shows "\<exists>s2. STATIC_LOG t p reads rdtsc site args s1 =
      Inr (if getLogLevel s1 < severity site then Dropped else Logged, s2)"
proof (rule statement_not_waiting [OF assms(1,2,4) _ assms(7,8)])
  have "program_cost t es + record_size site args \<le> program_cost t prog"
    using program_cost_prefix [OF assms(5), of t] by (simp add: program_cost_filter)
  with assms(3,6) show "sum_list (map (event_cost t) es) + record_size site args < free_space s t"
    by (simp add: free_space_def program_cost_def)
qed

subsection \<open>The statements\<close>

definition kNOTICE_site :: "string \<Rightarrow> string \<Rightarrow> nat \<Rightarrow> nat \<Rightarrow> nat \<Rightarrow> call_site" where
  "kNOTICE_site fmt fn ln a b = \<lparr>site_format = fmt, severity = kNOTICE, site_function = fn, site_line = ln,
     static_info_addr = a, param_size_addr = b\<rparr>"

text \<open>The three statements of \<^verbatim>\<open>perf_latency.cc\<close>; \<^verbatim>\<open>3.14\<close> is given by its bits.\<close>

definition perf_static_log_site :: "nat \<Rightarrow> nat \<Rightarrow> call_site" where
  "perf_static_log_site = kNOTICE_site ''%s %i %i %i %i %i %i %i %i %i %i '' ''perf_static_log'' 18"

definition perf_static_log_args :: "64 word \<Rightarrow> nat \<Rightarrow> arg list" where
  "perf_static_log_args str i = AStr str ''hello world'' # replicate 10 (AI32 (of_nat i))"

definition perf_static_log_fmt1_site :: "nat \<Rightarrow> nat \<Rightarrow> call_site" where
  "perf_static_log_fmt1_site = kNOTICE_site ''%s'' ''perf_static_log_fmt1'' 47"

definition perf_static_log_fmt1_args :: "64 word \<Rightarrow> nat \<Rightarrow> arg list" where
  "perf_static_log_fmt1_args str i = [AStr str ''hello world'']"

definition perf_static_log_float_fmt_site :: "nat \<Rightarrow> nat \<Rightarrow> call_site" where
  "perf_static_log_float_fmt_site =
     kNOTICE_site ''%s %lf %lf %lf %lf %lf %lf %lf %lf %lf %lf '' ''perf_static_log_float_fmt'' 77"

definition perf_static_log_float_fmt_args :: "64 word \<Rightarrow> nat \<Rightarrow> arg list" where
  "perf_static_log_float_fmt_args str i = AStr str ''hello world'' # replicate 10 (AF64 0x40091EB851EB851F)"

text \<open>The statement of \<^verbatim>\<open>test_mt.cc\<close>, whose second argument is the value of the shared counter.\<close>

definition test_log_site :: "nat \<Rightarrow> nat \<Rightarrow> call_site" where
  "test_log_site = kNOTICE_site ''%s %d'' ''test_log'' 10"

definition test_log_args :: "64 word \<Rightarrow> 32 word \<Rightarrow> arg list" where
  "test_log_args str x = [AStr str ''hello world'', AI32 x]"

lemmas client_sites = perf_static_log_site_def perf_static_log_fmt1_site_def perf_static_log_float_fmt_site_def
  test_log_site_def

lemmas client_args = perf_static_log_args_def perf_static_log_fmt1_args_def perf_static_log_float_fmt_args_def
  test_log_args_def

definition notice_info :: "string \<Rightarrow> string \<Rightarrow> nat \<Rightarrow> ParamType list \<Rightarrow> StaticInfo" where
  "notice_info fmt fn ln types = \<lparr>num_params = length types, param_types = types, format = fmt,
     log_level = kNOTICE, function_name = fn, line = ln\<rparr>"

lemma kNOTICE_site_members [simp]:
  "site_format (kNOTICE_site fmt fn ln a b) = fmt" "severity (kNOTICE_site fmt fn ln a b) = kNOTICE"
  "site_function (kNOTICE_site fmt fn ln a b) = fn" "site_line (kNOTICE_site fmt fn ln a b) = ln"
  "static_info_addr (kNOTICE_site fmt fn ln a b) = a" "param_size_addr (kNOTICE_site fmt fn ln a b) = b"
  by (simp_all add: kNOTICE_site_def)

lemma kNOTICE_site_info:
  assumes "countFmtParams fmt = Inr (length types)" "analyzeFormatString (length types) fmt = Inr types"
  shows "static_info_of (kNOTICE_site fmt fn ln a b) = Inr (notice_info fmt fn ln types)"
  using assms by (simp add: static_info_of_def notice_info_def)

lemma client_static_info:
  "static_info_of (perf_static_log_site a b) = Inr (notice_info ''%s %i %i %i %i %i %i %i %i %i %i ''
     ''perf_static_log'' 18 (kSTRING_WITH_NO_PRECISION # replicate 10 kNON_STRING))"
  "static_info_of (perf_static_log_fmt1_site a b) = Inr (notice_info ''%s''
     ''perf_static_log_fmt1'' 47 [kSTRING_WITH_NO_PRECISION])"
  "static_info_of (perf_static_log_float_fmt_site a b) = Inr (notice_info ''%s %lf %lf %lf %lf %lf %lf %lf %lf %lf %lf ''
     ''perf_static_log_float_fmt'' 77 (kSTRING_WITH_NO_PRECISION # replicate 10 kNON_STRING))"
  "static_info_of (test_log_site a b) = Inr (notice_info ''%s %d'' ''test_log'' 10
     [kSTRING_WITH_NO_PRECISION, kNON_STRING])"
  unfolding client_sites by (rule kNOTICE_site_info; code_simp)+

lemma args_image_simple:
  "length (args_image n ts pp (replicate k (AI32 x))) = 4 * k" "length (args_image n ts pp (replicate k (AF64 y))) = 8 * k"
  by (induction k arbitrary: n pp) simp_all

lemma client_record_size:
  "record_size (perf_static_log_site a b) (perf_static_log_args str i) = 87"
  "record_size (perf_static_log_fmt1_site a b) (perf_static_log_fmt1_args str i) = 47"
  "record_size (perf_static_log_float_fmt_site a b) (perf_static_log_float_fmt_args str i) = 127"
  "record_size (test_log_site a b) (test_log_args str x) = 51"
  by (simp_all add: record_size_def client_static_info notice_info_def client_args args_image_simple
      sizeof_LogEntry_def stored_length_def param_order)

lemma client_statement_args:
  "statement_args (perf_static_log_site a b) (perf_static_log_args str i)"
  "statement_args (perf_static_log_fmt1_site a b) (perf_static_log_fmt1_args str i)"
  "statement_args (perf_static_log_float_fmt_site a b) (perf_static_log_float_fmt_args str i)"
  "statement_args (test_log_site a b) (test_log_args str x)"
  by (simp_all add: statement_args_def client_static_info notice_info_def client_args args_image_simple
      stored_length_def param_order list_all_iff)

subsection \<open>The benchmark and the test\<close>

text \<open>
  The loops of \<^verbatim>\<open>perf_latency.cc\<close>; the clock readings and the report around them leave the logger alone.
\<close>

definition perf_static_log :: "nat \<Rightarrow> nat \<Rightarrow> nat \<Rightarrow> 64 word \<Rightarrow> (nat \<Rightarrow> nat) \<Rightarrow> event list" where
  "perf_static_log t a b str clock =
     Preallocate t # map (\<lambda>i. Log t (perf_static_log_site a b) (perf_static_log_args str i) (clock i)) [0..<1000]"

definition perf_static_log_fmt1 :: "nat \<Rightarrow> nat \<Rightarrow> nat \<Rightarrow> 64 word \<Rightarrow> (nat \<Rightarrow> nat) \<Rightarrow> event list" where
  "perf_static_log_fmt1 t a b str clock =
     Preallocate t # map (\<lambda>i. Log t (perf_static_log_fmt1_site a b) (perf_static_log_fmt1_args str i) (clock i)) [0..<1000]"

definition perf_static_log_float_fmt :: "nat \<Rightarrow> nat \<Rightarrow> nat \<Rightarrow> 64 word \<Rightarrow> (nat \<Rightarrow> nat) \<Rightarrow> event list" where
  "perf_static_log_float_fmt t a b str clock =
     Preallocate t # map (\<lambda>i. Log t (perf_static_log_float_fmt_site a b) (perf_static_log_float_fmt_args str i) (clock i))
       [0..<1000]"

text \<open>\<^verbatim>\<open>main\<close> of the benchmark; the runs of spdlog between the three do not use this logger.\<close>

definition perf_latency_main ::
  "nat \<Rightarrow> (nat \<Rightarrow> nat) \<Rightarrow> (nat \<Rightarrow> nat) \<Rightarrow> (nat \<Rightarrow> 64 word) \<Rightarrow> (nat \<Rightarrow> nat \<Rightarrow> nat) \<Rightarrow> event list" where
  "perf_latency_main t a b str clock =
     perf_static_log t (a 0) (b 0) (str 0) (clock 0)
     @ perf_static_log_fmt1 t (a 1) (b 1) (str 1) (clock 1)
     @ perf_static_log_float_fmt t (a 2) (b 2) (str 2) (clock 2)"

text \<open>
  One of the four threads of \<^verbatim>\<open>test_mt.cc\<close>. The macro evaluates \<^verbatim>\<open>id++\<close> twice; \<open>xs\<close> are the values of the second
  evaluation, which are stored. The first only counts its four bytes.
\<close>

definition test_log ::
  "nat \<Rightarrow> nat \<Rightarrow> nat \<Rightarrow> 64 word \<Rightarrow> (nat \<Rightarrow> 32 word) \<Rightarrow> (nat \<Rightarrow> nat) \<Rightarrow> event list" where
  "test_log t a b str xs clock =
     map (\<lambda>i. Log t (test_log_site a b) (test_log_args str (xs i)) (clock i)) [0..<10000]"

lemma perf_latency_cost: "program_cost t (perf_latency_main t a b str clock) = 261000"
  by (simp add: perf_latency_main_def perf_static_log_def perf_static_log_fmt1_def perf_static_log_float_fmt_def
      program_cost_map client_record_size)

lemma test_log_cost: "program_cost t (test_log t a b str xs clock) = 510000"
  by (simp add: test_log_def program_cost_map client_record_size)

lemma perf_latency_args:
  "Log t site args rdtsc \<in> set (perf_latency_main t a b str clock) \<Longrightarrow> statement_args site args"
  unfolding perf_latency_main_def perf_static_log_def perf_static_log_fmt1_def perf_static_log_float_fmt_def
  using client_statement_args by auto

lemma test_log_statement_args:
  "Log t site args rdtsc \<in> set (test_log t a b str xs clock) \<Longrightarrow> statement_args site args"
  unfolding test_log_def using client_statement_args by auto

subsection \<open>The public interface\<close>

text \<open>The functions of \<^verbatim>\<open>static_log.cc\<close>, which delegate to the backend; \<open>t\<close> is the calling thread.\<close>

definition static_log_preallocate :: "nat \<Rightarrow> nat \<Rightarrow> backend \<Rightarrow> backend" where
  "static_log_preallocate t p s = preallocate t p s"

definition static_log_setLogFile :: "(string \<Rightarrow> bool) \<Rightarrow> string \<Rightarrow> backend \<Rightarrow> backend_error + backend" where
  "static_log_setLogFile can_open filename s = setLogFile can_open filename s"

definition static_log_getLogLevel :: "backend \<Rightarrow> log_level" where
  "static_log_getLogLevel s = getLogLevel s"

definition static_log_setLogLevel :: "log_level \<Rightarrow> backend \<Rightarrow> backend" where
  "static_log_setLogLevel l s = setLogLevel l s"

definition static_log_sync :: "backend \<Rightarrow> backend" where
  "static_log_sync s = sync s"

subsection \<open>The test of the interface\<close>

text \<open>
  \<^verbatim>\<open>main\<close> of \<^verbatim>\<open>unitest/test_api.cc\<close>: two statements around a change of the level, then another log file.
\<close>

definition test_api_site :: "nat \<Rightarrow> nat \<Rightarrow> call_site" where
  "test_api_site = kNOTICE_site ''%s'' ''main'' 32"

definition test_api_debug_site :: "nat \<Rightarrow> nat \<Rightarrow> call_site" where
  "test_api_debug_site a b = (kNOTICE_site ''%s'' ''main'' 34 a b)\<lparr>severity := kDEBUG\<rparr>"

definition test_api_main ::
  "(string \<Rightarrow> bool) \<Rightarrow> nat \<Rightarrow> nat \<Rightarrow> nat \<Rightarrow> (nat \<Rightarrow> nat) \<Rightarrow> (nat \<Rightarrow> nat) \<Rightarrow> (nat \<Rightarrow> 64 word) \<Rightarrow> (nat \<Rightarrow> nat)
     \<Rightarrow> backend \<Rightarrow> log_error + (log_result list \<times> backend)" where
  "test_api_main can_open t p reads a b str clock s =
     (let s = static_log_preallocate t p s
      in sum_bind (STATIC_LOG t p reads (clock 0) (test_api_site (a 0) (b 0)) [AStr (str 0) ''hello world''] s)
        (\<lambda>(x, s).
           let s = static_log_setLogLevel kNOTICE s
           in sum_bind (STATIC_LOG t p reads (clock 1) (test_api_debug_site (a 1) (b 1)) [AStr (str 1) ''hello world''] s)
             (\<lambda>(y, s).
                sum_bind (lift_error Backend_error (static_log_setLogFile can_open ''log_.txt'' s))
                  (\<lambda>s. Inr ([x, y], s)))))"

subsection \<open>The example\<close>

definition demo_site :: "nat \<Rightarrow> nat \<Rightarrow> call_site" where
  "demo_site = kNOTICE_site ''%s'' ''main'' 9"

text \<open>\<^verbatim>\<open>main\<close> of \<^verbatim>\<open>demo.cc\<close>, executed by thread \<open>t\<close>.\<close>

definition demo_main ::
  "nat \<Rightarrow> nat \<Rightarrow> nat \<Rightarrow> nat \<Rightarrow> nat \<Rightarrow> nat \<Rightarrow> 64 word \<Rightarrow> backend \<Rightarrow> log_error + (log_result \<times> backend)" where
  "demo_main t p reads rdtsc a b str s =
     STATIC_LOG t p reads rdtsc (demo_site a b) [AStr str ''hello world''] s"

text \<open>The statement of both programs, which differ in its line.\<close>

definition hello_items :: "item list" where
  "hello_items = [Specifier [] (WDigits []) PNone [] CHR ''s'']"

definition hello_info :: "nat \<Rightarrow> StaticInfo" where
  "hello_info ln = notice_info ''%s'' ''main'' ln [kSTRING_WITH_NO_PRECISION]"

definition hello_statement :: "nat \<Rightarrow> nat \<Rightarrow> nat \<Rightarrow> 64 word \<Rightarrow> nat \<Rightarrow> statement" where
  "hello_statement ln a b str rdtsc =
     Statement (kNOTICE_site ''%s'' ''main'' ln a b) hello_items [AStr str ''hello world''] ''hello world'' rdtsc"

text \<open>
  What the programs need of their surroundings: the static data at its address, memory, and a build
  without assertions, because with them the worker aborts at the first string.
\<close>

definition hello_surroundings :: "surroundings \<Rightarrow> nat \<Rightarrow> nat \<Rightarrow> nat \<Rightarrow> bool" where
  "hello_surroundings w ln a b \<longleftrightarrow> a < 2 ^ 64 \<and> b < 2 ^ 64 \<and> statics w a = Some (hello_info ln)
     \<and> \<not> asserts (env w) \<and> (\<forall>x k. malloc (env w) x k \<noteq> 0)"

lemma hello_members [simp]:
  "st_site (hello_statement ln a b str rdtsc) = kNOTICE_site ''%s'' ''main'' ln a b"
  "st_args (hello_statement ln a b str rdtsc) = [AStr str ''hello world'']"
  "st_message (hello_statement ln a b str rdtsc) = ''hello world''"
  "st_stamp (hello_statement ln a b str rdtsc) = rdtsc"
  "st_info (hello_statement ln a b str rdtsc) = hello_info ln"
  by (simp_all add: hello_statement_def st_info_def site_info_def hello_info_def hello_items_def notice_info_def)

lemma hello_statement_ok:
  assumes "hello_surroundings w ln a b"
  shows "statement_ok w (kNOTICE_site ''%s'' ''main'' ln a b) hello_items [AStr str ''hello world''] ''hello world''"
proof -
  have "format_args ff hello_items [AStr str ''hello world''] = Inr ''hello world''" for ff
    by (simp add: hello_items_def conversion_text_def field_def Let_def)
  moreover have "site_info (kNOTICE_site ''%s'' ''main'' ln a b) hello_items = hello_info ln"
    by (simp add: site_info_def hello_info_def hello_items_def notice_info_def)
  ultimately show ?thesis
    using assms by (simp add: statement_ok_def hello_surroundings_def)
      (simp add: hello_items_def char_class_defs log_level_defs param_order stored_length_def)
qed

lemma hello_static_info: "static_info_of (kNOTICE_site ''%s'' fn ln a b) = Inr (notice_info ''%s'' fn ln [kSTRING_WITH_NO_PRECISION])"
  by (rule kNOTICE_site_info; code_simp)

lemma hello_record_size: "record_size (kNOTICE_site ''%s'' ''main'' ln a b) [AStr str ''hello world''] = 47"
  by (simp add: record_size_def hello_static_info notice_info_def param_order stored_length_def sizeof_LogEntry_def)

text \<open>The call information of its lines.\<close>

lemma hello_call_info: "call_info_text (hello_info 9) = ''[notice][main][9]''" "call_info_text (hello_info 32) = ''[notice][main][32]''"
  unfolding hello_info_def notice_info_def by code_simp+

lemma hello_formattable:
  assumes "hello_surroundings w ln a b" "rdtsc < UINT64_MAX" "length (call_info_text (hello_info ln)) < 100"
  shows "formattable w 1048576 (hello_statement ln a b str rdtsc)"
  using hello_statement_ok [OF assms(1)] assms(2,3)
  by (simp add: formattable_def TIEMSTAMP_PREFIX_LEN_def) (simp add: hello_statement_def)

text \<open>Its line.\<close>

lemma hello_line:
  assumes "lines_of w [now] [hello_statement ln a b str rdtsc] ls" "localtime_of w (now div 1000000000) = Some tm"
    and "tm_ok tm"
  obtains gap where "concat ls = time_text tm (now mod 1000000000) @ call_info_text (hello_info ln) @ ''hello world''
    @ gap @ [CHR 0x0A]" "length gap = 31 + length (call_info_text (hello_info ln))"
proof -
  have "length (time_text tm (now mod 1000000000)) = TIEMSTAMP_PREFIX_LEN"
    using assms(3) by (rule length_time_text) simp
  moreover obtain l where "ls = [l]" "line_of w now (hello_statement ln a b str rdtsc) l"
    using assms(1) by (auto simp: lines_of_def outputs_def list_all2_Cons1)
  ultimately show thesis
    using that assms(2) by (auto simp: line_of_def line_prefix_def TIEMSTAMP_PREFIX_LEN_def)
qed

text \<open>A logger that has just been constructed.\<close>

lemma constructed:
  assumes "heap s0 = (\<lambda>_. None)" "staging_ptr s0 = (\<lambda>_. None)" "param_sizes s0 = (\<lambda>_. [])"
    and "StaticLogBackend can_open buffer s0 = Inr s" "inj_on param_size_addr sites"
  shows "system_inv sites s" "heap s = (\<lambda>_. None)" "outfd s = Some (DEFAULT_LOGFILE, 0)"
    "files s = (files s0)(DEFAULT_LOGFILE \<mapsto> (case files s0 DEFAULT_LOGFILE of None \<Rightarrow> [] | Some c \<Rightarrow> c))"
    "bufflen (log_buf s) = 1048576" "fdflush s = Running" "getLogLevel s = kDEBUG" "staging_ptr s = (\<lambda>_. None)"
    "fdflush_joinable s"
proof -
  show "system_inv sites s" using reachable_inv [OF reach_start [OF assms(1-4)] assms(5)] .
qed (use assms(1,2,4) in \<open>auto simp: StaticLogBackend_def Let_def open_log_def DEFALT_CACHE_SIZE_def getLogLevel_def
    split: if_splits option.split\<close>)

subsection \<open>Properties\<close>

text \<open>
  C23. Neither the benchmark's thread nor a thread of the multi-threaded test ever waits for the worker:
  in every run of the logger in which the thread has executed a part of its program, among any events of
  other threads and any number of iterations of the worker, its next statement is logged at once. Their
  records take 261,000 and 510,000 of the 1,048,576 bytes of the staging buffer.
\<close>

theorem clients_never_wait:
  assumes "reachable sites w can_open s" "inj_on param_size_addr sites" "staging_ptr s t = None"
    and "run (backend_step sites w can_open) s es s1"
    and "prog = perf_latency_main t a b str clock \<or> prog = test_log t a' b' str' xs clock'"
    and "prefix (filter (by_thread t) es @ [Log t site args rdtsc]) prog" "site \<in> sites"
  shows "\<exists>s2. STATIC_LOG t p reads rdtsc site args s1 =
    Inr (if getLogLevel s1 < severity site then Dropped else Logged, s2)"
proof (rule program_not_waiting [OF assms(1-4,6) _ assms(7)])
  show "program_cost t prog < kSTAGING_BUFFER_SIZE"
    using assms(5) perf_latency_cost test_log_cost by (auto simp: kSTAGING_BUFFER_SIZE_def)
  have "Log t site args rdtsc \<in> set prog" using set_mono_prefix [OF assms(6)] by auto
  then show "statement_args site args" using assms(5) perf_latency_args test_log_statement_args by blast
qed

theorem clients_never_wait_witness:
  "\<exists>s2. STATIC_LOG 1 5000 0 99 (perf_static_log_site 7000 8000) (perf_static_log_args 0 0)
      (preallocate 1 5000 sample_backend) =
    Inr (if getLogLevel (preallocate 1 5000 sample_backend) < severity (perf_static_log_site 7000 8000)
      then Dropped else Logged, s2)"
proof -
  let ?site = "perf_static_log_site 7000 8000" and ?prog = "perf_latency_main 1 (\<lambda>_. 7000) (\<lambda>_. 8000) (\<lambda>_. 0) (\<lambda>_ _. 99)"
  have start: "reachable {?site} sample_surroundings (\<lambda>_. True) sample_backend"
    by (rule sample_start)
  have "backend_step {?site} sample_surroundings (\<lambda>_. True) sample_backend (Preallocate 1) (preallocate 1 5000 sample_backend)"
    by (rule step_preallocate) (simp add: sample_backend_def)
  then have r: "run (backend_step {?site} sample_surroundings (\<lambda>_. True)) sample_backend [Preallocate 1]
      (preallocate 1 5000 sample_backend)" by (rule run_Cons [OF _ run_Nil])
  have pre: "prefix (filter (by_thread 1) [Preallocate 1] @ [Log 1 ?site (perf_static_log_args 0 0) 99]) ?prog"
  proof -
    have "[0..<1000] = 0 # [Suc 0..<1000]" by (rule upt_conv_Cons) simp
    then show ?thesis
      by (simp only: perf_latency_main_def perf_static_log_def list.map append.simps filter.simps by_thread.simps
          if_True prefix_code simp_thms)
  qed
  have inj: "inj_on param_size_addr {?site}" and ptr: "staging_ptr sample_backend 1 = None"
    by (simp_all add: sample_backend_def)
  show ?thesis by (rule clients_never_wait [OF start inj ptr r disjI1 [OF refl] pre]) simp
qed

text \<open>
  C26. The example in a build without assertions, from the construction of the logger to the end of the process: its statement is
  logged, the destructor returns after the worker's next four iterations, and the log file holds the
  line, at the start of what it held before.
\<close>

theorem demo_writes_its_line:
  assumes "heap s0 = (\<lambda>_. None)" "staging_ptr s0 = (\<lambda>_. None)" "param_sizes s0 = (\<lambda>_. [])"
    and "StaticLogBackend can_open buffer s0 = Inr s" "hello_surroundings w 9 a b" "rdtsc < UINT64_MAX"
    and "now < 2 ^ 64" "localtime_of w (now div 1000000000) = Some tm" "tm_ok tm"
  shows "\<exists>s1 gap s2. demo_main t p reads rdtsc a b str s = Inr (Logged, s1)
    \<and> shutdown_StaticLogBackend w [now, na, nb, nc] (thread_exit t s1) = Inr (Some s2)
    \<and> files s2 DEFAULT_LOGFILE = Some (overwrite (case files s0 DEFAULT_LOGFILE of None \<Rightarrow> [] | Some c \<Rightarrow> c) 0
        (time_text tm (now mod 1000000000) @ ''[notice][main][9]'' @ ''hello world'' @ gap @ [CHR 0x0A]))
    \<and> length gap = 48 \<and> heap s2 = (\<lambda>_. None)"
proof -
  let ?st = "hello_statement 9 a b str rdtsc" and ?sites = "{demo_site a b}"
    and ?c = "case files s0 DEFAULT_LOGFILE of None \<Rightarrow> [] | Some c \<Rightarrow> c"
  have inj: "inj_on param_size_addr ?sites" by simp
  note s = constructed [OF assms(1-4) inj]
  have "formattable w (bufflen (log_buf s)) ?st"
    unfolding s(5) using assms(5,6) by (rule hello_formattable) (simp add: hello_call_info)
  then have ex: "executable w ?sites s [?st]"
    using s(7) by (simp add: executable_def) (simp add: demo_site_def log_level_defs)
  have un: "uniform (set [?st])" by (simp add: uniform_def same_kinds_def)
  have sz: "total_size [?st] < kSTAGING_BUFFER_SIZE"
    by (simp add: total_size_def hello_record_size kSTAGING_BUFFER_SIZE_def)
  have clk: "\<forall>now \<in> set [now]. clock_ok w now" using assms(7-9) by (simp add: clock_ok_def)
  have m: "bufflen (log_buf s) < 2 ^ 31" "files s DEFAULT_LOGFILE = Some ?c" "0 \<le> length ?c" "fdflush s \<noteq> Finished"
    "length [now] = length [?st]"
    using s(4-6) by simp_all
  obtain s1 ls s2 where r: "log_statements t p reads [?st] s = Inr (replicate (length [?st]) Logged, s1)"
    "shutdown_StaticLogBackend w ([now] @ [na, nb, nc]) (thread_exit t s1) = Inr (Some s2)"
    "lines_of w [now] [?st] ls" "files s2 DEFAULT_LOGFILE = Some (overwrite ?c 0 (concat ls))"
    "heap s2 = (\<lambda>_. None)"
    using program_written [OF s(1) inj s(2) m(1) s(3) m(2-4) ex un sz clk m(5), where t = t and p = p
        and reads = reads and na = na and nb = nb and nc = nc] by (elim exE conjE)
  have main: "demo_main t p reads rdtsc a b str s = Inr (Logged, s1)"
    using r(1) by (auto simp: demo_main_def demo_site_def sum_bind_Inr_iff)
  obtain gap where "concat ls = time_text tm (now mod 1000000000) @ ''[notice][main][9]'' @ ''hello world'' @ gap @ [CHR 0x0A]"
    "length gap = 48"
    by (rule hello_line [OF r(3) assms(8,9)]) (simp add: hello_call_info)
  with main r(2,4,5) show ?thesis
    by (intro exI [of _ s1] exI [of _ gap] exI [of _ s2]) simp
qed

theorem demo_writes_its_line_witness:
  "\<exists>s1 gap s2. demo_main 1 5000 0 99 7000 8000 0 sample_backend = Inr (Logged, s1)
    \<and> shutdown_StaticLogBackend (sample_surroundings\<lparr>statics := [7000 \<mapsto> hello_info 9]\<rparr>)
         [1000000000000000042, 0, 0, 0] (thread_exit 1 s1) = Inr (Some s2)
    \<and> files s2 DEFAULT_LOGFILE = Some (overwrite [] 0
        (''[2001-09-09-01:46:07.000000042]'' @ ''[notice][main][9]'' @ ''hello world'' @ gap @ [CHR 0x0A]))
    \<and> length gap = 48 \<and> heap s2 = (\<lambda>_. None)"
proof -
  let ?s = "sample_backend\<lparr>files := (\<lambda>_. None)\<rparr>" and ?w = "sample_surroundings\<lparr>statics := [7000 \<mapsto> hello_info 9]\<rparr>"
  have h: "heap ?s = (\<lambda>_. None)" "staging_ptr ?s = (\<lambda>_. None)" "param_sizes ?s = (\<lambda>_. [])"
    "files ?s DEFAULT_LOGFILE = None"
    by (simp_all add: sample_backend_def)
  have c: "StaticLogBackend (\<lambda>_. True) 4096 ?s = Inr sample_backend"
    by (simp add: StaticLogBackend_def Let_def open_log_def sample_backend_def sample_buffer_def)
  have w: "hello_surroundings ?w 9 7000 8000"
    by (simp add: hello_surroundings_def sample_surroundings_def sample_env_def)
  have t: "localtime_of ?w (1000000000000000042 div 1000000000) = Some sample_tm" "tm_ok sample_tm"
    by (simp_all add: sample_surroundings_def tm_ok_def sample_tm_def)
  have tt: "time_text sample_tm (1000000000000000042 mod 1000000000) = ''[2001-09-09-01:46:07.000000042]''"
  proof -
    have "(1000000000000000042 :: nat) mod 1000000000 = 42" by simp
    moreover have "time_text sample_tm 42 = ''[2001-09-09-01:46:07.000000042]''" by code_simp
    ultimately show ?thesis by (simp only:)
  qed
  have st: "(99 :: nat) < UINT64_MAX" "(1000000000000000042 :: nat) < 2 ^ 64" by (simp_all add: UINT64_MAX_def)
  from demo_writes_its_line [OF h(1-3) c w st t, of 1 5000 0 0 0 0 0] show ?thesis
    unfolding tt h(4) option.case .
qed

text \<open>
  C27. The test of the interface in a build without assertions and with allocations that succeed and a clock
  that can be converted, when the worker has not run before the change of the log file: the first statement
  is logged and the second dropped by its level; the line of the first goes to the new file, although it was
  logged before \<^verbatim>\<open>setLogFile\<close>, and the default file stays as the constructor left
  it.
\<close>

theorem test_api_line_in_new_file:
  assumes "heap s0 = (\<lambda>_. None)" "staging_ptr s0 = (\<lambda>_. None)" "param_sizes s0 = (\<lambda>_. [])"
    and "StaticLogBackend can_open buffer s0 = Inr s" "can_open ''log_.txt''"
    and "hello_surroundings w 32 (a 0) (b 0)" "clock 0 < UINT64_MAX"
    and "now < 2 ^ 64" "localtime_of w (now div 1000000000) = Some tm" "tm_ok tm"
  shows "\<exists>s1 gap s2. test_api_main can_open t p reads a b str clock s = Inr ([Logged, Dropped], s1)
    \<and> shutdown_StaticLogBackend w [now, na, nb, nc] (thread_exit t s1) = Inr (Some s2)
    \<and> files s2 ''log_.txt'' = Some (overwrite (case files s0 ''log_.txt'' of None \<Rightarrow> [] | Some c \<Rightarrow> c) 0
        (time_text tm (now mod 1000000000) @ ''[notice][main][32]'' @ ''hello world'' @ gap @ [CHR 0x0A]))
    \<and> files s2 DEFAULT_LOGFILE = files s DEFAULT_LOGFILE"
proof -
  let ?st = "hello_statement 32 (a 0) (b 0) (str 0) (clock 0)" and ?sites = "{test_api_site (a 0) (b 0)}"
    and ?p = "preallocate t p s" and ?c = "case files s0 ''log_.txt'' of None \<Rightarrow> [] | Some c \<Rightarrow> c"
  have inj: "inj_on param_size_addr ?sites" by simp
  note s = constructed [OF assms(1-4) inj]
  have dr0: "drainable w (\<lambda>_. []) s"
    using system_invD(1,3) [OF s(1)] s(2-5) by (simp add: drainable_def holds_queues_def well_typed_def)
  have hp: "heap s p = None" using s(2) by simp
  have pm: "log_buf ?p = log_buf s" "getLogLevel ?p = getLogLevel s" "staging_ptr ?p t = Some p"
    "outfd ?p = outfd s" "files ?p = files s" "fdflush_joinable ?p = fdflush_joinable s"
    "\<forall>x b. heap ?p x = Some b \<longrightarrow> x = p"
    using s(2,8) by (auto simp: preallocate_def ensureStagingBufferAllocated_def Let_def getLogLevel_def split: if_splits)
  have dr1: "drainable w (\<lambda>_. []) ?p" by (rule preallocate_drainable [OF dr0 hp])
  have sys1: "system_inv ?sites ?p" by (rule preallocate_system_inv [OF s(1) hp])
  have cl: "can_log ?p t p" using pm(3) by (simp add: can_log_def)
  have fm: "formattable w (bufflen (log_buf ?p)) ?st"
    unfolding pm(1) s(5) using assms(6,7) by (rule hello_formattable) (simp add: hello_call_info)
  have site: "st_site ?st \<in> ?sites" and lev: "severity (st_site ?st) \<le> getLogLevel ?p"
    using s(7) by (simp_all add: test_api_site_def pm(2)) (simp add: log_level_defs)
  have "free_space ?p t = free_space s t" unfolding preallocate_def by (rule ensure_free_space)
  then have room: "record_size (st_site ?st) (st_args ?st) < free_space ?p t"
    using s(8) by (simp add: hello_record_size free_space_def kSTAGING_BUFFER_SIZE_def)
  have bf: "buffer_for ?p t p = p" using pm(3) by (simp add: buffer_for_def)
  obtain s1 where s1: "STATIC_LOG t p reads (st_stamp ?st) (st_site ?st) (st_args ?st) ?p = Inr (Logged, s1)"
    "drainable w ((\<lambda>_. [])(p := [] @ [?st])) s1" "staging_ptr s1 t = Some p" "same_output ?p s1"
    "\<forall>x. x \<noteq> p \<longrightarrow> heap s1 x = heap ?p x"
    by (rule one_statement [where reads = reads, OF dr1 sys1 inj cl fm site lev room, unfolded bf]) auto
  let ?s2 = "setLogLevel kNOTICE s1"
  have lv: "getLogLevel ?s2 = kNOTICE" by (simp add: setLogLevel_def getLogLevel_def log_level_defs)
  have sm: "fdflush_joinable ?s2" "files ?s2 = files s" "heap ?s2 = heap s1" "staging_ptr ?s2 = staging_ptr s1"
    using s1(4) pm(5,6) s(9) by (simp_all add: setLogLevel_def Let_def same_output_def)
  have "static_info_of (test_api_debug_site (a 1) (b 1)) =
      Inr ((notice_info ''%s'' ''main'' 34 [kSTRING_WITH_NO_PRECISION])\<lparr>log_level := kDEBUG\<rparr>)"
    using hello_static_info [of "''main''" 34 "a 1" "b 1"]
    by (simp add: test_api_debug_site_def static_info_of_def sum_bind_Inr_iff notice_info_def)
  then have drop: "STATIC_LOG t p reads (clock 1) (test_api_debug_site (a 1) (b 1)) args ?s2 = Inr (Dropped, ?s2)" for args
    using lv by (simp add: STATIC_LOG_def test_api_debug_site_def log_level_defs)
  have dr2: "drainable w ((\<lambda>_. [])(p := [?st])) ?s2" using s1(2) by (simp add: setLogLevel_drainable)
  obtain s3 where s3: "setLogFile can_open ''log_.txt'' ?s2 = Inr s3" "drainable w ((\<lambda>_. [])(p := [?st])) s3"
    "outfd s3 = Some (''log_.txt'', 0)"
    "files s3 = (files ?s2)(''log_.txt'' \<mapsto> (case files ?s2 ''log_.txt'' of None \<Rightarrow> [] | Some c \<Rightarrow> c))"
    "heap s3 = heap ?s2" "staging_ptr s3 = staging_ptr ?s2" "fdflush_joinable s3" "fdflush s3 = Running"
    by (rule setLogFile_drainable [where can_open = can_open and g = "''log_.txt''", OF dr2 sm(1) assms(5)])
  have ne: "DEFAULT_LOGFILE \<noteq> ''log_.txt''" by (simp add: DEFAULT_LOGFILE_def)
  have fl: "files s3 ''log_.txt'' = Some ?c" "files s3 DEFAULT_LOGFILE = files s DEFAULT_LOGFILE"
    using s3(4) ne unfolding sm(2) s(4) by simp_all
  have own: "\<forall>x b. heap s3 x = Some b \<longrightarrow> staging_ptr s3 t = Some x"
    using s1(3,5) pm(7) unfolding s3(5,6) sm(3,4) by metis
  have clk: "\<forall>now \<in> set [now]. clock_ok w now" "length [now] = length [?st]"
    using assms(8-10) by (simp_all add: clock_ok_def)
  have nf: "fdflush s3 \<noteq> Finished" "0 \<le> length ?c" using s3(8) by simp_all
  obtain ls s4 where s4: "shutdown_StaticLogBackend w ([now] @ [na, nb, nc]) (thread_exit t s3) = Inr (Some s4)"
    "lines_of w [now] [?st] ls" "files s4 = (files s3)(''log_.txt'' \<mapsto> overwrite ?c 0 (concat ls))"
    using exit_and_shutdown [OF s3(2,7) nf(1) s3(3) fl(1) nf(2) own clk, where na = na and nb = nb and nc = nc]
    by (elim exE conjE)
  have main: "test_api_main can_open t p reads a b str clock s = Inr ([Logged, Dropped], s3)"
    using s1(1) drop s3(1) by (simp add: test_api_main_def static_log_preallocate_def static_log_setLogLevel_def
        static_log_setLogFile_def test_api_site_def)
  obtain gap where "concat ls = time_text tm (now mod 1000000000) @ ''[notice][main][32]'' @ ''hello world'' @ gap @ [CHR 0x0A]"
    by (rule hello_line [OF s4(2) assms(9,10)]) (simp add: hello_call_info)
  with main s4(1,3) fl(2) ne show ?thesis
    by (intro exI [of _ s3] exI [of _ gap] exI [of _ s4]) simp
qed

theorem test_api_line_in_new_file_witness:
  "\<exists>s1 gap s2. test_api_main (\<lambda>_. True) 1 5000 0 (\<lambda>_. 7000) (\<lambda>_. 8000) (\<lambda>_. 0) (\<lambda>_. 99) sample_backend =
      Inr ([Logged, Dropped], s1)
    \<and> shutdown_StaticLogBackend (sample_surroundings\<lparr>statics := [7000 \<mapsto> hello_info 32]\<rparr>)
         [1000000000000000042, 0, 0, 0] (thread_exit 1 s1) = Inr (Some s2)
    \<and> files s2 ''log_.txt'' = Some (overwrite [] 0
        (time_text sample_tm (1000000000000000042 mod 1000000000) @ ''[notice][main][32]'' @ ''hello world'' @ gap @ [CHR 0x0A]))
    \<and> files s2 DEFAULT_LOGFILE = files sample_backend DEFAULT_LOGFILE"
proof -
  let ?s = "sample_backend\<lparr>files := (\<lambda>_. None)\<rparr>" and ?w = "sample_surroundings\<lparr>statics := [7000 \<mapsto> hello_info 32]\<rparr>"
  have h: "heap ?s = (\<lambda>_. None)" "staging_ptr ?s = (\<lambda>_. None)" "param_sizes ?s = (\<lambda>_. [])"
    "files ?s ''log_.txt'' = None"
    by (simp_all add: sample_backend_def)
  have c: "StaticLogBackend (\<lambda>_. True) 4096 ?s = Inr sample_backend"
    by (simp add: StaticLogBackend_def Let_def open_log_def sample_backend_def sample_buffer_def)
  have w: "hello_surroundings ?w 32 ((\<lambda>_. 7000) (0 :: nat)) ((\<lambda>_. 8000) (0 :: nat))"
    by (simp add: hello_surroundings_def sample_surroundings_def sample_env_def)
  have t: "localtime_of ?w (1000000000000000042 div 1000000000) = Some sample_tm" "tm_ok sample_tm"
    by (simp_all add: sample_surroundings_def tm_ok_def sample_tm_def)
  have st: "(\<lambda>_. 99 :: nat) (0 :: nat) < UINT64_MAX" "(1000000000000000042 :: nat) < 2 ^ 64"
    by (simp_all add: UINT64_MAX_def)
  have o: "(\<lambda>_. True) ''log_.txt''" by simp
  from test_api_line_in_new_file [where can_open = "\<lambda>_. True" and a = "\<lambda>_. 7000" and b = "\<lambda>_. 8000"
      and clock = "\<lambda>_. 99" and str = "\<lambda>_. 0" and t = 1 and p = 5000 and reads = 0 and na = 0 and nb = 0 and nc = 0,
      OF h(1-3) c o w st t]
  show ?thesis unfolding h(4) option.case .
qed

end
