(* ===== verification/Throughput.thy ===== *)
theory Throughput
  imports Clients
begin

section \<open>The throughput benchmark\<close>

text \<open>
  \<^verbatim>\<open>unitest/perf_throughtput.cc\<close> logs in a loop that a signal ends. Without the worker the loop comes to a
  stop after a number of statements that depends on the payload alone: the bound of \<open>Burst\<close> is exact.
\<close>

subsection \<open>A buffer nothing has been read from\<close>

definition unread :: "staging_buffer \<Rightarrow> nat \<Rightarrow> bool" where
  "unread b m \<longleftrightarrow> consumer_pos b = 0 \<and> producer_pos b = m \<and> m < kSTAGING_BUFFER_SIZE
     \<and> min_free_space b = kSTAGING_BUFFER_SIZE - m"

definition unread_thread :: "backend \<Rightarrow> nat \<Rightarrow> nat \<Rightarrow> bool" where
  "unread_thread s t m \<longleftrightarrow>
     (case staging_ptr s t of
        None \<Rightarrow> m = 0
      | Some q \<Rightarrow> (case heap s q of None \<Rightarrow> False | Some b \<Rightarrow> unread b m))"

lemma unread_thread_upd [simp]: "unread_thread (s\<lparr>param_sizes := x\<rparr>) t m = unread_thread s t m"
  by (simp add: unread_thread_def split: option.split)

lemma unread_iteration:
  assumes "unread b m" "\<not> n < kSTAGING_BUFFER_SIZE - m"
  shows "\<exists>b'. reserve_iteration n 0 b = (b', False) \<and> unread b' m"
  using assms by (auto simp: unread_def reserve_iteration_def Let_def)

lemma unread_spins:
  assumes "unread b m" "\<not> n < kSTAGING_BUFFER_SIZE - m"
  shows "fst (reserveSpaceInternal n True (replicate k 0) b) = Spinning"
  using assms(1)
proof (induction k arbitrary: b)
  case 0
  with assms(2) show ?case by (simp add: unread_def)
next
  case (Suc k)
  obtain b' where "reserve_iteration n 0 b = (b', False)" "unread b' m"
    using unread_iteration [OF Suc.prems assms(2)] by blast
  moreover have "min_free_space b \<le> n" using Suc.prems assms(2) by (auto simp: unread_def)
  ultimately show ?case using Suc.IH by simp
qed

text \<open>The reservation of a thread whose buffer nothing has been read from.\<close>

lemma unread_reserveAlloc:
  assumes "unread_thread s t m" "reserveAlloc t p n k s = Inr (x, s1)"
  shows "if n < kSTAGING_BUFFER_SIZE - m
    then (\<exists>a. x = Reserved a) \<and> (\<exists>q b. staging_ptr s1 t = Some q \<and> heap s1 q = Some b \<and> unread b m)
    else x = Spinning"
proof -
  let ?s = "ensureStagingBufferAllocated t p s"
  have eq: "(if staging_ptr s t = None then ?s else s) = ?s"
    by (simp add: ensureStagingBufferAllocated_def)
  have "\<exists>q b. staging_ptr ?s t = Some q \<and> heap ?s q = Some b \<and> unread b m"
    using assms(1)
    by (auto simp: unread_thread_def unread_def ensureStagingBufferAllocated_def Let_def new_StagingBuffer_def
        kSTAGING_BUFFER_SIZE_def split: option.splits)
  then obtain q b where q: "staging_ptr ?s t = Some q" "heap ?s q = Some b" "unread b m" by blast
  let ?b = "b\<lparr>num_allocations := (num_allocations b + 1) mod 2 ^ 64\<rparr>"
  have u: "unread ?b m" "consumer_pos b = 0" "min_free_space b = kSTAGING_BUFFER_SIZE - m"
    using q(3) by (simp_all add: unread_def)
  obtain r b1 where r: "reserveProducerSpace n (replicate k 0) b = (r, b1)" by fastforce
  have res: "x = r" "s1 = ?s\<lparr>heap := (heap ?s)(q \<mapsto> b1)\<rparr>"
    using assms(2) eq q u(2) r unfolding reserveAlloc_def by (simp_all add: Let_def)
  show ?thesis
  proof (cases "n < kSTAGING_BUFFER_SIZE - m")
    case True
    with r u(1,3) have "\<exists>a. r = Reserved a" "unread b1 m" by (auto simp: reserveProducerSpace_def Let_def)
    with True res q(1) show ?thesis by simp
  next
    case False
    with unread_spins [OF u(1) False, of k] r u(3) res(1) show ?thesis
      by (simp add: reserveProducerSpace_def Let_def)
  qed
qed

lemma unread_finishAlloc:
  assumes "staging_ptr s t = Some q" "heap s q = Some b" "unread b m" "n < kSTAGING_BUFFER_SIZE - m"
    "finishAlloc t n s = Inr s'"
  shows "unread_thread s' t (m + n)"
  using assms
  by (auto simp: finishAlloc_def finishReservation_def unread_thread_def unread_def split: sum.splits if_splits)

subsection \<open>Its statements without the worker\<close>

lemma unread_statement:
  assumes sys: "system_inv sites s" and site: "site \<in> sites" and args: "statement_args site args"
    and lev: "\<not> getLogLevel s < severity site" and un: "unread_thread s t m"
    and log: "STATIC_LOG t p reads rdtsc site args s = Inr (x, s')"
  shows "if record_size site args < kSTAGING_BUFFER_SIZE - m
    then x = Logged \<and> unread_thread s' t (m + record_size site args) else x = Blocked"
proof -
  obtain info where i: "static_info_of site = Inr info" "list_all arg_ok args" "length args \<le> num_params info"
    "length (args_image 0 (param_types info) (- 1) args) < 2 ^ 31"
    using args by (rule statement_argsE)
  note arr = arrays_okD [OF system_invD(2) [OF sys] site i(1)]
  have len: "length (param_types info) = num_params info"
    using i(1) by (rule static_info_of_Inr) simp
  let ?n = "record_size site args"
  obtain tot pp sizes where g: "getArgSizes 0 (param_types info) (- 1)
      (param_size_array site (num_params info) s) args = Inr (tot, pp, sizes)"
    and sz: "size_arguments site info args s = Inr (tot + of_nat sizeof_LogEntry,
       s\<lparr>param_sizes := (param_sizes s)(param_size_addr site := sizes)\<rparr>)"
    using size_arguments_Inr [of args info site s] i(3) arr len by auto
  let ?a = "tot + of_nat sizeof_LogEntry" and ?s = "s\<lparr>param_sizes := (param_sizes s)(param_size_addr site := sizes)\<rparr>"
  have a: "unat ?a = ?n"
    using write_record_image(1) [OF i(2) g i(4) refl] i(1) by (simp add: record_size_def length_statement_record)
  obtain y s1 where r: "reserveAlloc t p ?n reads ?s = Inr (y, s1)"
    using log i(1) lev sz a by (auto simp: STATIC_LOG_def sum_bind_Inr_iff lift_error_Inr_iff)
  have "unread_thread ?s t m" using un by simp
  note ur = unread_reserveAlloc [OF this r]
  show ?thesis
  proof (cases "?n < kSTAGING_BUFFER_SIZE - m")
    case True
    with ur obtain wp q b where y: "y = Reserved wp" and q: "staging_ptr s1 t = Some q" "heap s1 q = Some b" "unread b m"
      by auto
    with log i(1) lev sz a r obtain m' where
      f: "finishAlloc t ?n (s1\<lparr>heap := (heap s1)(q \<mapsto> b\<lparr>storage := m'\<rparr>)\<rparr>) = Inr s'" and x: "x = Logged"
      by (auto simp: STATIC_LOG_def sum_bind_Inr_iff lift_error_Inr_iff split: option.splits Option.bind_splits)
    have "unread (b\<lparr>storage := m'\<rparr>) m" using q(3) by (simp add: unread_def)
    with unread_finishAlloc [OF _ _ this True f] q(1) x True show ?thesis by simp
  next
    case False
    with ur log i(1) lev sz a r show ?thesis by (simp add: STATIC_LOG_def)
  qed
qed

lemma unread_statements:
  assumes "run (backend_step sites w can_open) s es s'" "system_inv sites s" "inj_on param_size_addr sites"
    and "\<forall>e \<in> set es. \<exists>site args rdtsc. e = Log t site args rdtsc \<and> record_size site args = k \<and> severity site \<le> getLogLevel s"
    and "unread_thread s t m" "m + length es * k < kSTAGING_BUFFER_SIZE"
  shows "unread_thread s' t (m + length es * k) \<and> system_inv sites s' \<and> getLogLevel s' = getLogLevel s"
  using assms
proof (induction arbitrary: m rule: run.induct)
  case (run_Nil s)
  then show ?case by simp
next
  case (run_Cons s e s1 es s2)
  obtain site args rdtsc where e: "e = Log t site args rdtsc" "record_size site args = k"
    "severity site \<le> getLogLevel s" using run_Cons.prems(3) by auto
  from run_Cons.hyps(1) obtain p reads x where st: "site \<in> sites" "statement_args site args" "heap s p = None"
    "STATIC_LOG t p reads rdtsc site args s = Inr (x, s1)"
    unfolding e(1) by (auto elim: backend_stepE)
  obtain info where i: "static_info_of site = Inr info" "list_all arg_ok args" "length args \<le> num_params info"
    using st(2) by (rule statement_argsE)
  have lev: "\<not> getLogLevel s < severity site" using e(3) by simp
  have "same_output s s1"
    by (rule STATIC_LOG_frame [OF st(4) i(1) lev i(2,3) arrays_okD [OF system_invD(2) [OF run_Cons.prems(1)] st(1) i(1)]])
  then have lv: "getLogLevel s1 = getLogLevel s" by (simp add: same_output_def getLogLevel_def)
  have sys1: "system_inv sites s1" by (rule backend_step_inv [OF run_Cons.hyps(1) run_Cons.prems(1,2)])
  have "k < kSTAGING_BUFFER_SIZE - m" using run_Cons.prems(5) by simp
  with unread_statement [OF run_Cons.prems(1) st(1,2) lev run_Cons.prems(4) st(4)] e(2)
  have "unread_thread s1 t (m + k)" by simp
  moreover have "m + k + length es * k < kSTAGING_BUFFER_SIZE" using run_Cons.prems(5) by simp
  ultimately show ?case
    using run_Cons.IH [OF sys1 run_Cons.prems(2) _, of "m + k"] run_Cons.prems(3) lv by (simp add: ac_simps)
qed

subsection \<open>The benchmark\<close>

definition perf_benchmark_site :: "nat \<Rightarrow> nat \<Rightarrow> call_site" where
  "perf_benchmark_site a b = \<lparr>site_format = ''%s'', severity = kWARNING, site_function = ''perf_benchmark'',
     site_line = 65, static_info_addr = a, param_size_addr = b\<rparr>"

text \<open>The contents of the array \<^verbatim>\<open>log_buffer\<close> of the benchmark, up to the terminator.\<close>

definition perf_benchmark_args :: "nat \<Rightarrow> 64 word \<Rightarrow> arg list" where
  "perf_benchmark_args payload log_buffer = [AStr log_buffer (replicate payload CHR ''1'')]"

text \<open>The loop, for the number of iterations after which the signal ends it.\<close>

definition perf_benchmark :: "nat \<Rightarrow> nat \<Rightarrow> nat \<Rightarrow> nat \<Rightarrow> 64 word \<Rightarrow> (nat \<Rightarrow> nat) \<Rightarrow> nat \<Rightarrow> event list" where
  "perf_benchmark payload t a b log_buffer clock n =
     map (\<lambda>i. Log t (perf_benchmark_site a b) (perf_benchmark_args payload log_buffer) (clock i)) [0..<n]"

lemma perf_benchmark_info:
  "static_info_of (perf_benchmark_site a b) = Inr ((notice_info ''%s'' ''perf_benchmark'' 65 [kSTRING_WITH_NO_PRECISION])
     \<lparr>log_level := kWARNING\<rparr>)"
  using hello_static_info [of "''perf_benchmark''" 65 a b]
  by (simp add: perf_benchmark_site_def kNOTICE_site_def static_info_of_def sum_bind_Inr_iff notice_info_def)

lemma perf_benchmark_record:
  "record_size (perf_benchmark_site a b) (perf_benchmark_args payload log_buffer) = 36 + payload"
  "payload + 4 < 2 ^ 31 \<Longrightarrow> statement_args (perf_benchmark_site a b) (perf_benchmark_args payload log_buffer)"
  by (simp_all add: record_size_def statement_args_def perf_benchmark_info notice_info_def perf_benchmark_args_def
      param_order stored_length_def sizeof_LogEntry_def)

subsection \<open>Properties\<close>

text \<open>
  C24. The throughput benchmark without the worker: after \<open>n\<close> statements that fit the staging buffer
  together, the next one is logged exactly if it fits, too, with room to spare; otherwise it waits, however often
  it reads the consumer's position. With 64 bytes of payload 10,485 statements are logged.
\<close>

theorem benchmark_blocks_without_worker:
  assumes "reachable sites w can_open s" "inj_on param_size_addr sites" "staging_ptr s t = None"
    and "perf_benchmark_site a b \<in> sites" "kWARNING \<le> getLogLevel s" "payload + 4 < 2 ^ 31"
    and "run (backend_step sites w can_open) s (perf_benchmark payload t a b log_buffer clock n) s1"
    and "n * (36 + payload) < kSTAGING_BUFFER_SIZE"
  shows "\<exists>s2. STATIC_LOG t p reads rdtsc (perf_benchmark_site a b) (perf_benchmark_args payload log_buffer) s1 =
    Inr (if (n + 1) * (36 + payload) < kSTAGING_BUFFER_SIZE then Logged else Blocked, s2)"
proof -
  let ?site = "perf_benchmark_site a b" and ?args = "perf_benchmark_args payload log_buffer"
  have sev: "severity ?site = kWARNING" by (simp add: perf_benchmark_site_def)
  have es: "\<forall>e \<in> set (perf_benchmark payload t a b log_buffer clock n). \<exists>site args rdtsc.
      e = Log t site args rdtsc \<and> record_size site args = 36 + payload \<and> severity site \<le> getLogLevel s"
    using assms(5) sev by (auto simp: perf_benchmark_def perf_benchmark_record(1))
  have "unread_thread s t 0" using assms(3) by (simp add: unread_thread_def)
  from unread_statements [OF assms(7) reachable_inv [OF assms(1,2)] assms(2) es this] assms(8)
  have u: "unread_thread s1 t (n * (36 + payload))" "system_inv sites s1" "getLogLevel s1 = getLogLevel s"
    by (simp_all add: perf_benchmark_def)
  note args = perf_benchmark_record(2) [OF assms(6), of a b log_buffer]
  obtain info where i: "static_info_of ?site = Inr info" "list_all arg_ok ?args" "length ?args \<le> num_params info"
    "length (args_image 0 (param_types info) (- 1) ?args) < 2 ^ 31"
    using args by (rule statement_argsE)
  have lev: "\<not> getLogLevel s1 < severity ?site" using assms(5) sev u(3) by simp
  obtain rs where "thread_records s1 t rs" using system_invD(1) [OF u(2)] by (rule thread_records_ex)
  from STATIC_LOG_effect [OF i(1) lev i(2-4) arrays_okD [OF system_invD(2) [OF u(2)] assms(4) i(1)] this, of p reads rdtsc]
  obtain x s2 where x: "STATIC_LOG t p reads rdtsc ?site ?args s1 = Inr (x, s2)" by blast
  from unread_statement [OF u(2) assms(4) args lev u(1) x] assms(8)
  have "x = (if (n + 1) * (36 + payload) < kSTAGING_BUFFER_SIZE then Logged else Blocked)"
    by (auto simp: perf_benchmark_record(1) split: if_splits)
  with x show ?thesis by blast
qed

theorem benchmark_blocks_without_worker_witness:
  "\<exists>s1 s2. run (backend_step {perf_benchmark_site 7000 8000} sample_surroundings (\<lambda>_. True)) sample_backend
      (perf_benchmark 700000 1 7000 8000 0 (\<lambda>_. 99) 1) s1
    \<and> STATIC_LOG 1 5000 3 99 (perf_benchmark_site 7000 8000) (perf_benchmark_args 700000 0) s1 = Inr (Blocked, s2)"
proof -
  let ?site = "perf_benchmark_site 7000 8000" and ?args = "perf_benchmark_args 700000 0"
  have start: "reachable {?site} sample_surroundings (\<lambda>_. True) sample_backend" by (rule sample_start)
  have inj: "inj_on param_size_addr {?site}" and site: "?site \<in> {?site}" by simp_all
  have args: "statement_args ?site ?args" by (rule perf_benchmark_record(2)) simp
  have lev: "kWARNING \<le> getLogLevel sample_backend" by (simp add: sample_members) (simp add: log_level_defs)
  have room: "sum_list (map (event_cost 1) []) + record_size ?site ?args < free_space sample_backend 1"
    by (simp add: perf_benchmark_record(1) free_space_def sample_members kSTAGING_BUFFER_SIZE_def)
  obtain x s1 where s1: "STATIC_LOG 1 5000 0 99 ?site ?args sample_backend = Inr (x, s1)"
    using statement_not_waiting [OF start inj run_Nil room site args, of 5000 0 99] by blast
  have "backend_step {?site} sample_surroundings (\<lambda>_. True) sample_backend (Log 1 ?site ?args 99) s1"
    by (rule step_log [OF site args _ s1]) (simp add: sample_members)
  then have r: "run (backend_step {?site} sample_surroundings (\<lambda>_. True)) sample_backend
      (perf_benchmark 700000 1 7000 8000 0 (\<lambda>_. 99) 1) s1"
    using run_Cons [OF _ run_Nil] by (simp add: perf_benchmark_def)
  have n: "1 * (36 + 700000) < kSTAGING_BUFFER_SIZE" "(700000 :: nat) + 4 < 2 ^ 31"
    by (simp_all add: kSTAGING_BUFFER_SIZE_def)
  from benchmark_blocks_without_worker [OF start inj sample_members(9) site lev n(2) r n(1), of 5000 3 99] r
  show ?thesis by (auto simp: kSTAGING_BUFFER_SIZE_def)
qed

end
