(* ===== verification/Backpressure.thy ===== *)
theory Backpressure
  imports ConcurrentProgram Throughput
begin

section \<open>A waiting thread is released\<close>

text \<open>
  A thread that finds no space waits in the loop of \<^verbatim>\<open>reserveSpaceInternal\<close>. Once the worker has written everything
  pending, at most two more of its iterations let the thread go on: one makes the positions of the empty
  buffer agree, and if the producer then has to start again at the front of the storage, the next one
  moves the consumer there.
\<close>

subsection \<open>One read of the consumer's position on an empty buffer\<close>

lemma spin_on_empty:
  assumes "sb_inv b" "consumer_pos b = producer_pos b" "n < kSTAGING_BUFFER_SIZE"
    and "reserveSpaceInternal n True [consumer_pos b] b = (x, b')"
  shows "(\<exists>a. x = Reserved a) \<or> consumer_pos (snd (peek b')) = 0 \<and> producer_pos (snd (peek b')) = 0"
  using assms by (auto simp: reserve_iteration_def peek_def Let_def sb_inv_def split: if_splits)

subsection \<open>An iteration of the worker over empty buffers\<close>

text \<open>The buffer of a live thread after an iteration that finds nothing.\<close>

lemma idle_iteration:
  assumes inv: "backend_inv s" and run: "\<not> is_exit s" and hq: "holds_queues s (\<lambda>_. [])"
    and t: "staging_ptr s t = Some q" "heap s q = Some b"
  obtains s' where "ioPoll w [now] s = Inr (Wait, s')" "backend_inv s'" "\<not> is_exit s'" "holds_queues s' (\<lambda>_. [])"
    "staging_ptr s' = staging_ptr s" "heap s' q = Some (snd (peek b))" "current_log_level s' = current_log_level s"
    "param_sizes s' = param_sizes s"
proof -
  let ?s = "s\<lparr>fdflush := Running\<rparr>"
  have I: "backend_inv ?s" "\<not> is_exit ?s" "holds_queues ?s (\<lambda>_. [])"
    using inv run hq by (simp_all add: backend_inv_def holds_queues_def)
  note reg = backend_invD(1) [OF inv]
  have q: "q \<in> set (thread_buffers s)" using t registered_iff [OF reg] by blast
  then have ne: "\<not> is_stop ?s \<or> thread_buffers ?s \<noteq> []" by auto
  obtain h' where i: "ioPoll_iteration w now ?s = Inr (Wait, (after_scan ?s h')\<lparr>fdflush := Waiting\<rparr>)"
    "scanned (heap ?s) (thread_buffers ?s) h'"
    by (rule empty_iteration [OF I(1,2) ne I(3)])
  let ?s' = "(after_scan ?s h')\<lparr>fdflush := Waiting\<rparr>"
  have live: "\<not> should_deallocate b" using stagedD [OF backend_invD(2) [OF inv] t(1)] t(2) by auto
  have "distinct (thread_buffers ?s)" using reg by (simp add: registered_def)
  moreover obtain raw avail b2 where pk: "peek b = ((raw, avail), b2)" by (metis prod.exhaust)
  ultimately have "heap ?s' q = Some (snd (peek b))"
    using wait_heap [OF i(1), of q] q t live by (simp add: visit_buffer_def checkCanDelete_def)
  moreover have "backend_inv ?s'" "holds_queues ?s' (\<lambda>_. [])"
    using after_scan_inv [OF I(1) i(2)] holds_queues_scan [OF I(1) i(2) I(3)]
    by (simp_all add: backend_inv_def holds_queues_def)
  moreover have "ioPoll w [now] s = Inr (Wait, ?s')" using i(1) by simp
  ultimately show thesis
    using that [of ?s'] run by (simp add: after_scan_def)
qed

subsection \<open>Iterations of the worker as steps\<close>

abbreviation polls :: "nat list \<Rightarrow> thread_event list" where
  "polls nows \<equiv> map (\<lambda>now. Other (Poll now)) nows"

lemma poll_thread:
  assumes "ioPoll_iteration w now s = Inr (x, s')" "x \<noteq> Leave" "fdflush s \<noteq> Finished"
  shows "fdflush s' \<noteq> Finished \<and> fdflush_joinable s' = fdflush_joinable s"
proof -
  have "processLogBuffer w now p s = Inr s' \<Longrightarrow> fdflush s' = fdflush s \<and> fdflush_joinable s' = fdflush_joinable s"
    for p and s s' :: backend
    by (auto simp: processLogBuffer_def Let_def sum_bind_Inr_iff write_log_def split: option.splits prod.splits if_splits)
  then show ?thesis using assms
    by (fastforce simp: ioPoll_iteration_def Let_def sum_bind_Inr_iff split: option.splits if_splits)
qed

lemma polls_run:
  "ioPoll w nows (logger_state S) = Inr (x, s') \<Longrightarrow> x \<noteq> Leave \<Longrightarrow> fdflush_joinable (logger_state S) \<Longrightarrow>
     fdflush (logger_state S) \<noteq> Finished \<Longrightarrow>
     run (thread_step own w can_open) S (polls nows) (S\<lparr>logger_state := s'\<rparr>)
       \<and> fdflush_joinable s' \<and> fdflush s' \<noteq> Finished"
proof (induction nows arbitrary: S)
  case Nil
  moreover have "S\<lparr>logger_state := logger_state S\<rparr> = S" by simp
  ultimately show ?case using run_Nil [of "thread_step own w can_open" S] by auto
next
  case (Cons now nows)
  let ?s = "(logger_state S)\<lparr>fdflush := Running\<rparr>"
  obtain y s1 where i: "ioPoll_iteration w now ?s = Inr (y, s1)"
    "(if y = Leave then Inr (y, s1) else ioPoll w nows s1) = Inr (x, s')"
    using Cons.prems(1) by (auto simp: sum_bind_Inr_iff)
  have y: "y \<noteq> Leave" "ioPoll w nows s1 = Inr (x, s')" using i(2) Cons.prems(2) by (auto split: if_splits)
  have "backend_step {} w can_open (logger_state S) (Poll now) s1"
    by (rule step_poll [OF Cons.prems(3,4) i(1)])
  then have st: "thread_step own w can_open S (Other (Poll now)) (S\<lparr>logger_state := s1\<rparr>)"
    by (rule thread_other) simp
  have "fdflush s1 \<noteq> Finished \<and> fdflush_joinable s1" using poll_thread [OF i(1) y(1)] Cons.prems(3) by simp
  with Cons.IH [of "S\<lparr>logger_state := s1\<rparr>"] y(2) Cons.prems(2)
  have "run (thread_step own w can_open) (S\<lparr>logger_state := s1\<rparr>) (polls nows) (S\<lparr>logger_state := s'\<rparr>)
      \<and> fdflush_joinable s' \<and> fdflush s' \<noteq> Finished" by simp
  with run_Cons [where step = "thread_step own w can_open", OF st] show ?case by simp
qed

lemma run_threads_inv:
  "run (thread_step own w can_open) S es S' \<Longrightarrow> statements_disjoint own \<Longrightarrow> threads_inv own S \<Longrightarrow> threads_inv own S'"
  by (induction rule: run.induct) (auto intro: thread_step_inv)

subsection \<open>The rest of the statement\<close>

lemma sized_record:
  assumes "sized sites site args n s" "static_info_of site = Inr info"
  shows "unat n = record_size site args"
proof -
  from assms obtain old tot pp where g: "statement_args site args"
    "getArgSizes 0 (param_types info) (- 1) old args = Inr (tot, pp, param_sizes s (param_size_addr site))"
    "n = tot + of_nat sizeof_LogEntry" by (auto simp: sized_def)
  have a: "list_all arg_ok args" "length (args_image 0 (param_types info) (- 1) args) < 2 ^ 31"
    using g(1) assms(2) by (auto simp: statement_args_def)
  from write_record_image(1) [OF a(1) g(2) a(2) g(3)] assms(2) show ?thesis
    by (simp add: record_size_def length_statement_record)
qed

text \<open>A thread that has its reservation stores and commits its record; here into an empty buffer.\<close>

lemma reserved_finishes:
  assumes inv: "threads_inv own S" and pc: "pcs S t = At_stores site args n a"
    and hq: "holds_queues (logger_state S) (\<lambda>_. [])"
  shows "\<exists>S' info. run (thread_step own w can_open) S [Stores t c, Finish t site args c] S' \<and> pcs S' t = Outside
    \<and> static_info_of site = Inr info \<and> thread_records (logger_state S') t [statement_record site info args c]"
proof -
  let ?s = "logger_state S" and ?A = "as_spec (logger_state S) (\<lambda>_. [])"
  note I = threads_invD [OF inv]
  have sim: "simulates ?s ?A" by (rule simulates_as_spec [OF hq])
  have q: "queue_of t ?A = []" by (simp add: queue_of_def as_spec_def split: option.split)
  have sz: "sized (own t) site args n ?s" and at: "reserved_at ?s t (unat n) a" using I(2) [of t] pc by simp_all
  obtain d s1 where s1: "store_step t c site args n a ?s = (d, s1)" by fastforce
  note e1 = stores_effect [OF I(1) sim sz at s1]
  let ?S1 = "moved t (d, s1) S"
  have st1: "thread_step own w can_open S (Stores t c) ?S1"
    using thread_stores [of S t site args n a own w can_open c] pc s1 by simp
  have pc1: "pcs ?S1 t = At_finish site args n c" using e1(6) by simp
  obtain info where i: "static_info_of site = Inr info" "unat n = length (statement_record site info args c)"
    "filled s1 t (statement_record site info args c)"
    using e1(2) unfolding e1(6) pc_ok.simps by (elim exE conjE)
  obtain d2 s2 where s2: "finish_step t n s1 = (d2, s2)" by fastforce
  note e2 = finish_effect [OF e1(1,3) i(2,3) s2]
  let ?S2 = "moved t (d2, s2) ?S1"
  have st2: "thread_step own w can_open ?S1 (Finish t site args c) ?S2"
    using thread_finish [of ?S1 t site args n c own w can_open] pc1 s2 by simp
  have "thread_records s2 t (queue_of t (set_queue t 0 (queue_of t ?A @ [statement_record site info args c]) ?A))"
    by (rule simulates_thread [OF e2(2) system_invD(1) [OF e2(1)]])
  then have "thread_records s2 t [statement_record site info args c]"
    unfolding q by (simp add: queue_of_def set_queue_def Let_def)
  then show ?thesis
    using run_Cons [where step = "thread_step own w can_open", OF st1 run_single [where step = "thread_step own w can_open", OF st2]]
      e2(5) i(1) by (intro exI [of _ ?S2] exI [of _ info]) simp
qed

subsection \<open>The thread goes on\<close>

text \<open>One read of the consumer's position by a thread whose buffer, like all others, is empty.\<close>

lemma spin_thread:
  assumes inv: "threads_inv own S" and pc: "pcs S t = At_spin site args n"
    and hq: "holds_queues (logger_state S) (\<lambda>_. [])"
    and p: "staging_ptr (logger_state S) t = Some p" "heap (logger_state S) p = Some b"
    and x: "reserveSpaceInternal (unat n) True [consumer_pos b] b = (x, b')"
  defines "s' \<equiv> (logger_state S)\<lparr>heap := (heap (logger_state S))(p \<mapsto> b')\<rparr>"
  shows "thread_step own w can_open S (Spin t) (moved t (after_wait site args n x, s') S)"
    and "holds_queues s' (\<lambda>_. [])"
proof -
  let ?s = "logger_state S"
  have e: "spin_step t site args n ?s = (after_wait site args n x, s')"
    unfolding s'_def by (rule spin_step_eq [OF p x])
  show "thread_step own w can_open S (Spin t) (moved t (after_wait site args n x, s') S)"
    using thread_spin [of S t site args n own w can_open] pc e by simp
  have "sized (own t) site args n ?s" using threads_invD(2) [OF inv, of t] pc by simp
  from spin_effect(3) [OF threads_invD(1) [OF inv] simulates_as_spec [OF hq] this p(1) e]
  show "holds_queues s' (\<lambda>_. [])" using simulates_contents contents_as_spec [OF hq] by metis
qed

lemma waiting_goes_on:
  assumes inv: "threads_inv own S" and D: "statements_disjoint own" and pc: "pcs S t = At_spin site args n"
    and fd: "fdflush_joinable (logger_state S)" "fdflush (logger_state S) \<noteq> Finished"
    and dr: "drainable w q (logger_state S)"
    and out: "outfd (logger_state S) = Some (f, off)" "files (logger_state S) f = Some c" "off \<le> length c"
    and size: "unat n < kSTAGING_BUFFER_SIZE"
    and nows: "\<forall>now \<in> set nows. clock_ok w now"
      "length nows = (\<Sum>p\<in>set (thread_buffers (logger_state S)). length (q p))"
  shows "\<exists>k \<le> 1. \<exists>S' a. run (thread_step own w can_open) S
      (polls (nows @ [na]) @ Spin t # concat (replicate k [Other (Poll nb), Spin t])) S'
    \<and> pcs S' t = At_stores site args n a \<and> holds_queues (logger_state S') (\<lambda>_. [])"
proof -
  let ?step = "thread_step own w can_open"
  obtain out ls s0 where s0: "ioPoll w nows (logger_state S) = Inr (Wait, s0)" "drainable w (\<lambda>_. []) s0"
    using ioPoll_drains [OF dr out nows(1) finite_set drainable_registered [OF dr] nows(2)] by (elim exE conjE)
  note r0 = polls_run [OF s0(1) _ fd, of own can_open]
  have inv0: "threads_inv own (S\<lparr>logger_state := s0\<rparr>)" using run_threads_inv [OF _ D inv] r0 by blast
  have d0: "backend_inv s0" "\<not> is_exit s0" "holds_queues s0 (\<lambda>_. [])" using s0(2) by (simp_all add: drainable_def)
  obtain p where p: "staging_ptr s0 t = Some p" using threads_invD(2) [OF inv0, of t] pc by auto
  obtain b0 where b0: "heap s0 p = Some b0" using stagedD [OF backend_invD(2) [OF d0(1)] p] by blast
  obtain s1 where s1: "ioPoll w [na] s0 = Inr (Wait, s1)" "backend_inv s1" "\<not> is_exit s1" "holds_queues s1 (\<lambda>_. [])"
    "staging_ptr s1 = staging_ptr s0" "heap s1 p = Some (snd (peek b0))"
    by (rule idle_iteration [OF d0 p b0])
  let ?S1 = "S\<lparr>logger_state := s1\<rparr>" let ?b1 = "snd (peek b0)"
  note r1 = polls_run [OF ioPoll_append [OF s0(1) s1(1)] _ fd, of own can_open]
  have inv1: "threads_inv own ?S1" using run_threads_inv [OF _ D inv] r1 by blast
  have b1: "sb_records ?b1 []" "consumer_pos ?b1 = producer_pos ?b1"
    using holds_queuesD [OF s1(4,6)] empty_positions [OF holds_queuesD [OF d0(3) b0]] by simp_all
  obtain x b2 where x: "reserveSpaceInternal (unat n) True [consumer_pos ?b1] ?b1 = (x, b2)" by fastforce
  let ?s2 = "s1\<lparr>heap := (heap s1)(p \<mapsto> b2)\<rparr>"
  have p1: "staging_ptr s1 t = Some p" using s1(5) p by simp
  let ?S2 = "moved t (after_wait site args n x, ?s2) ?S1"
  have "?step ?S1 (Spin t) ?S2"
    using spin_thread(1) [OF inv1, of t site args n p ?b1 x b2 w can_open] pc s1(4,6) p1 x by simp
  moreover have h2: "holds_queues ?s2 (\<lambda>_. [])"
    using spin_thread(2) [OF inv1, of t site args n p ?b1 x b2] pc s1(4,6) p1 x by simp
  ultimately have run2: "run ?step S (polls (nows @ [na]) @ [Spin t]) ?S2"
    using run_append [OF conjunct1 [OF r1] run_single [where step = ?step]] by simp
  have inv2: "threads_inv own ?S2" by (rule run_threads_inv [OF run2 D inv])
  show ?thesis
  proof (cases "\<exists>a. x = Reserved a")
    case True
    then obtain a where "x = Reserved a" by blast
    with run2 h2 show ?thesis by (intro exI [of _ 0] conjI exI [of _ ?S2] exI [of _ a]) simp_all
  next
    case False
    then have w2: "after_wait site args n x = At_spin site args n" by (cases x) simp_all
    have z: "consumer_pos (snd (peek b2)) = 0" "producer_pos (snd (peek b2)) = 0"
      using spin_on_empty [OF sb_records_inv [OF b1(1)] b1(2) size x] False by blast+
    have bi2: "backend_inv ?s2" using system_invD(1) [OF threads_invD(1) [OF inv2]] by simp
    obtain s3 where s3: "ioPoll w [nb] ?s2 = Inr (Wait, s3)" "holds_queues s3 (\<lambda>_. [])"
      "staging_ptr s3 = staging_ptr ?s2" "heap s3 p = Some (snd (peek b2))"
      by (rule idle_iteration [OF bi2 _ h2, of t p b2]) (use s1(3) p1 in simp_all)
    let ?S3 = "?S2\<lparr>logger_state := s3\<rparr>"
    have fd2: "fdflush_joinable (logger_state ?S2)" "fdflush (logger_state ?S2) \<noteq> Finished"
      using r1 by simp_all
    have r3: "run ?step ?S2 (polls [nb]) ?S3"
      using polls_run [of w "[nb]" ?S2 Wait s3 own can_open] s3(1) fd2 by simp
    obtain a b3 where a: "reserveSpaceInternal (unat n) True [consumer_pos (snd (peek b2))] (snd (peek b2)) = (Reserved a, b3)"
      using reserve_at_start [OF z size] by blast
    have p3: "staging_ptr s3 t = Some p" using s3(3) p1 by simp
    let ?s4 = "s3\<lparr>heap := (heap s3)(p \<mapsto> b3)\<rparr>" let ?S4 = "moved t (At_stores site args n a, ?s4) ?S3"
    have inv3: "threads_inv own ?S3" by (rule run_threads_inv [OF r3 D inv2])
    have st4: "?step ?S3 (Spin t) ?S4"
      using spin_thread(1) [OF inv3, of t site args n p "snd (peek b2)" "Reserved a" b3 w can_open] w2 s3(2,4) p3 a by simp
    have h4: "holds_queues ?s4 (\<lambda>_. [])"
      using spin_thread(2) [OF inv3, of t site args n p "snd (peek b2)" "Reserved a" b3] w2 s3(2,4) p3 a by simp
    have "run ?step S ((polls (nows @ [na]) @ [Spin t]) @ polls [nb] @ [Spin t]) ?S4"
      by (rule run_append [OF run2 run_append [OF r3 run_single [where step = ?step, OF st4]]])
    with h4 show ?thesis by (intro exI [of _ 1] conjI exI [of _ ?S4] exI [of _ a]) simp_all
  qed
qed

lemma accounted_pending:
  assumes "accounted own w sig room S q ts out ls fin"
  shows "(\<Sum>p\<in>set (thread_buffers (logger_state S)). length (q p)) \<le> length fin"
proof -
  obtain M where dr: "drainable w q (logger_state S)" and M: "pending_in q M" "mset fin = mset out + M"
    using assms by (auto simp: accounted_def)
  have "M = all_of (set (thread_buffers (logger_state S))) q"
    by (rule pending_in_support [OF M(1) finite_set drainable_registered [OF dr]])
  then have "size M = (\<Sum>p\<in>set (thread_buffers (logger_state S)). length (q p))" by (simp add: size_all_of)
  with arg_cong [OF M(2), of size] show ?thesis by simp
qed

subsection \<open>A thread that waits\<close>

text \<open>A statement with a string that fills more than half of the staging buffer.\<close>

definition long_statement :: "string \<Rightarrow> statement" where
  "long_statement str = Statement sample_site [Specifier [] (WDigits []) PNone [] CHR ''s''] [AStr 0 str] str 99"

lemma long_formattable:
  assumes "length str = 700000" "NUL \<notin> set str"
  shows "formattable sample_surroundings 1048576 (long_statement str)"
proof -
  have "format_args ff [Specifier [] (WDigits []) PNone [] CHR ''s''] [AStr 0 str] = Inr str" for ff
    by (simp add: conversion_text_def field_def Let_def)
  then have "statement_ok sample_surroundings sample_site [Specifier [] (WDigits []) PNone [] CHR ''s''] [AStr 0 str] str"
    using sample_statement_ok assms by (simp add: statement_ok_def param_order stored_length_def del: format_args.simps)
  moreover have "call_info_text sample_info = ''[notice][main][12]''" unfolding sample_info_def by code_simp
  moreover have "st_info (long_statement str) = sample_info"
    by (simp add: st_info_def long_statement_def sample_site_info)
  ultimately show ?thesis using assms
    by (simp add: formattable_def TIEMSTAMP_PREFIX_LEN_def) (simp add: long_statement_def UINT64_MAX_def)
qed

lemma long_record:
  assumes "length str = 700000" "NUL \<notin> set str"
  shows "record_size sample_site [AStr 0 str] = 700036" "statement_args sample_site [AStr 0 str]"
  using assms by (simp_all add: record_size_def statement_args_def sample_static_info)
    (simp_all add: sample_info_def param_order stored_length_def sizeof_LogEntry_def)

text \<open>Two such statements, the second of which waits, step by step.\<close>

lemma long_statement_waits:
  assumes len: "length str = 700000" "NUL \<notin> set str"
  obtains S n where
    "run sample_thread_step (start_threads sample_backend)
      ((waiting_steps 1 0 sample_site [AStr 0 str] @ [Stores 1 99, Finish 1 sample_site [AStr 0 str] 99])
        @ waiting_steps 1 0 sample_site [AStr 0 str]) S"
    "pcs S 1 = At_spin sample_site [AStr 0 str] n"
proof -
  let ?args = "[AStr 0 str]" and ?own = "(\<lambda>_. {})(1 := {sample_site}) :: nat \<Rightarrow> call_site set"
  have inj: "inj_on param_size_addr {sample_site}" and site: "sample_site \<in> {sample_site}" by simp_all
  note rec = long_record [OF len]
  have room: "sum_list (map (event_cost 1) []) + record_size sample_site ?args < free_space sample_backend 1"
    by (simp add: rec(1) free_space_def sample_members kSTAGING_BUFFER_SIZE_def)
  have lev: "\<not> getLogLevel sample_backend < severity sample_site"
    by (simp add: sample_members) (simp add: sample_site_def log_level_defs)
  obtain s1 where s1: "STATIC_LOG 1 5000 0 99 sample_site ?args sample_backend = Inr (Logged, s1)"
    using statement_not_waiting [OF sample_start inj run_Nil room site rec(2), of 5000 0 99] lev by auto
  have h0: "heap sample_backend 5000 = None" by (simp add: sample_members)
  have "backend_step {sample_site} sample_surroundings (\<lambda>_. True) sample_backend (Log 1 sample_site ?args 99) s1"
    by (rule step_log [OF site rec(2) h0 s1])
  then have sys1: "system_inv {sample_site} s1"
    using backend_step_inv reachable_inv [OF sample_start inj] inj by blast
  have "unread_thread sample_backend 1 0" by (simp add: unread_thread_def sample_members)
  from unread_statement [OF reachable_inv [OF sample_start inj] site rec(2) lev this s1]
  have un: "unread_thread s1 1 700036" by (simp add: rec(1) kSTAGING_BUFFER_SIZE_def)
  obtain info where i: "static_info_of sample_site = Inr info" "list_all arg_ok ?args" "length ?args \<le> num_params info"
    "length (args_image 0 (param_types info) (- 1) ?args) < 2 ^ 31" using rec(2) by (rule statement_argsE)
  have "same_output sample_backend s1"
    by (rule STATIC_LOG_frame [OF s1 i(1) lev i(2,3) arrays_okD [OF system_invD(2) [OF reachable_inv [OF sample_start inj]] site i(1)]])
  then have lev1: "\<not> getLogLevel s1 < severity sample_site" using lev by (simp add: same_output_def getLogLevel_def)
  obtain p where p: "heap s1 p = None" using fresh_address [OF system_invD(1) [OF sys1]] .
  obtain rs where "thread_records s1 1 rs" using system_invD(1) [OF sys1] by (rule thread_records_ex)
  from STATIC_LOG_effect [OF i(1) lev1 i(2-4) arrays_okD [OF system_invD(2) [OF sys1] site i(1)] this, of p 0 99]
  obtain x s2 where x: "STATIC_LOG 1 p 0 99 sample_site ?args s1 = Inr (x, s2)" by blast
  from unread_statement [OF sys1 site rec(2) lev1 un x] have "x = Blocked" by (simp add: rec(1) kSTAGING_BUFFER_SIZE_def)
  with x have s2: "STATIC_LOG 1 p 0 99 sample_site ?args s1 = Inr (Blocked, s2)" by simp
  let ?S1 = "moved 1 (Outside, s1) (start_threads sample_backend)"
  have r1: "run sample_thread_step (start_threads sample_backend)
      (waiting_steps 1 0 sample_site ?args @ [Stores 1 99, Finish 1 sample_site ?args 99]) ?S1"
    using statement_in_steps [OF s1 _ rec(2) h0, of ?own "start_threads sample_backend" sample_surroundings "\<lambda>_. True"] by simp
  obtain n where r2: "run sample_thread_step ?S1 (waiting_steps 1 0 sample_site ?args) (moved 1 (At_spin sample_site ?args n, s2) ?S1)"
    using statement_in_steps [OF s2 _ rec(2) p, of ?own ?S1 sample_surroundings "\<lambda>_. True"] by auto
  show thesis by (rule that [OF run_append [OF r1 r2]]) simp
qed

subsection \<open>Properties\<close>



end
