(* ===== verification/Failures.thy ===== *)
theory Failures
  imports Decode
begin

section \<open>Failures of the environment\<close>

subsection \<open>Allocations while formatting\<close>

text \<open>
  \<^verbatim>\<open>decodeStringFmt\<close> and \<^verbatim>\<open>decodeNonStringFmt\<close> return -1 when \<^verbatim>\<open>malloc\<close> fails. \<^verbatim>\<open>process_fmt\<close> gives the line up
  in the second case only; in the first it goes on with -1 as the length of the text.
\<close>

lemma decodeStringFmt_no_memory:
  assumes "DEFAULT_PARAM_CACHE_SIZE \<le> k" "malloc env (addr lb) (k + 1) = 0" "\<not> asserts env"
  shows "decodeStringFmt env lb r start_pos pm p k fmt = Inr (- 1, lb, r)"
  using assms by (simp add: decodeStringFmt_def)

lemma process_param_no_memory:
  assumes "i < length types" "kNON_STRING < types ! i" "length fmt < 100"
    and "le_nat (mem_read pm p 4) = k" "DEFAULT_PARAM_CACHE_SIZE \<le> k" "malloc env (addr lb) (k + 1) = 0"
    and "\<not> asserts env" "0 < j" "r + 1 < 2 ^ 64"
  shows "process_param env types sizes pm fmt i p (addr lb, j) r lb =
    Inr (True, p + 4 + k, (addr lb, j - 1), r + 1, lb)"
proof -
  have "nat (int j - 1) = j - 1" "nat ((int r + 1) mod 2 ^ 64) = r + 1"
    using assms(8,9) by (auto simp: nat_diff_distrib nat_add_distrib)
  with assms(1-8) decodeStringFmt_no_memory [OF assms(5-7)] show ?thesis
    by (simp add: process_param_def Let_def advance_def)
qed

text \<open>The characters in front of the specification.\<close>

lemma literal_prefix:
  assumes "CHR ''%'' \<notin> set cs" "fmt = pre @ cs @ rest" "j + length cs \<le> bufflen lb" "r < 2 ^ 64" "length cs \<le> r"
  shows "\<exists>lb'. process_fmt_loop env fmt n types sizes pm (length pre) i p (addr lb, j) r lb =
      process_fmt_loop env fmt n types sizes pm (length pre + length cs) i p (addr lb, j + length cs) (r - length cs) lb'
    \<and> addr lb' = addr lb \<and> bufflen lb' = bufflen lb
    \<and> mem_read (content lb') j (length cs) = cs \<and> (\<forall>k < j. content lb' k = content lb k)"
  using assms
proof (induction cs arbitrary: pre j r lb)
  case Nil
  then show ?case by (intro exI [of _ lb]) simp
next
  case (Cons c cs)
  let ?lb = "lb\<lparr>content := mem_write (content lb) j [c]\<rparr>"
  have c: "fmt ! length pre = c" "length pre < length fmt" "c \<noteq> CHR ''%''"
    using Cons.prems(1,2) by (auto simp: nth_append)
  have put: "lb_put lb (addr lb, j) c = Inr ?lb" using Cons.prems(3) by (simp add: lb_put_def lb_write_def)
  have r: "sub64 r 1 = r - 1" using Cons.prems(4,5) by simp
  have "process_fmt_loop env fmt n types sizes pm (length pre) i p (addr lb, j) r lb =
      process_fmt_loop env fmt n types sizes pm (length pre + 1) i p (addr lb, j + 1) (r - 1) ?lb"
    using c put r by (subst process_fmt_loop.simps) simp
  moreover have ih: "CHR ''%'' \<notin> set cs" "fmt = (pre @ [c]) @ cs @ rest" "j + 1 + length cs \<le> bufflen ?lb"
    "r - 1 < 2 ^ 64" "length cs \<le> r - 1" using Cons.prems by auto
  obtain lb' where lb': "process_fmt_loop env fmt n types sizes pm (length (pre @ [c])) i p (addr ?lb, j + 1) (r - 1) ?lb =
      process_fmt_loop env fmt n types sizes pm (length (pre @ [c]) + length cs) i p (addr ?lb, j + 1 + length cs)
        (r - 1 - length cs) lb'"
    "addr lb' = addr ?lb" "bufflen lb' = bufflen ?lb" "mem_read (content lb') (j + 1) (length cs) = cs"
    "\<forall>k < j + 1. content lb' k = content ?lb k"
    using Cons.IH [of "pre @ [c]" "j + 1" ?lb "r - 1", OF ih] by (elim exE conjE)
  moreover have "content lb' j = c" using lb'(5) by (simp add: mem_write_def)
  then have "mem_read (content lb') j (1 + length cs) = c # cs"
    using lb'(4) mem_read_append [of "content lb'" j 1 "length cs"] by (simp add: mem_read_def)
  moreover have "\<forall>k < j. content lb' k = content lb k" using lb'(5) by (simp add: mem_write_outside)
  ultimately show ?case by (intro exI [of _ lb']) simp
qed

subsection \<open>Thread affinity\<close>

text \<open>
  \<^verbatim>\<open>threadBindCore\<close> of \<^verbatim>\<open>src/src/static_log_backend.cc\<close>, which \<^verbatim>\<open>ioPoll\<close> calls first and whose result it ignores.
  The parameter is the result of \<^verbatim>\<open>pthread_setaffinity_np\<close> for the set of the one processor: 0, or a positive
  error number.
\<close>

definition threadBindCore :: "(nat set \<Rightarrow> int) \<Rightarrow> nat \<Rightarrow> int" where
  "threadBindCore setaffinity i =
     (let mask = insert i {} in if - 1 = setaffinity mask then - 1 else 0)"

text \<open>A failure is never noticed.\<close>

lemma threadBindCore_never_fails: "0 \<le> setaffinity {i} \<Longrightarrow> threadBindCore setaffinity i = 0"
  by (simp add: threadBindCore_def)

subsection \<open>Properties\<close>

text \<open>
  C37. When there is no memory for a string parameter of 1024 characters or more, \<^verbatim>\<open>process_fmt\<close> does not give the
  line up: it steps back by one character, and the length it returns is one less than the position it had
  reached, so that the last character in front of the string, of the message or of the prefixes, is lost
  with the string.
\<close>

theorem failed_string_loses_character:
  assumes "fmt = cs @ ''%s''" "CHR ''%'' \<notin> set cs" "0 < n" "types \<noteq> []" "kNON_STRING < types ! 0"
    and "le_nat (mem_read pm p 4) = k" "DEFAULT_PARAM_CACHE_SIZE \<le> k" "malloc env (addr lb) (k + 1) = 0" "\<not> asserts env"
    and "0 < start_pos + length cs" "start_pos + length cs \<le> bufflen lb" "bufflen lb < 2 ^ 31"
  shows "\<exists>lb'. process_fmt env fmt n types sizes pm p lb start_pos = Inr (int (start_pos + length cs) - 1, lb')
    \<and> mem_read (content lb') start_pos (length cs) = cs"
proof -
  let ?r = "bufflen lb - start_pos" and ?e = "length cs" and ?j = "start_pos + length cs"
  have fmt: "fmt = [] @ cs @ ''%s''" and r: "?r < 2 ^ 64" "?e \<le> ?r" using assms(1,11,12) by simp_all
  obtain lb' where lb': "process_fmt_loop env fmt n types sizes pm (length ([] :: string)) 0 p (addr lb, start_pos) ?r lb =
      process_fmt_loop env fmt n types sizes pm (length ([] :: string) + ?e) 0 p (addr lb, ?j) (?r - ?e) lb'"
    "addr lb' = addr lb" "bufflen lb' = bufflen lb" "mem_read (content lb') start_pos ?e = cs"
    "\<forall>k < start_pos. content lb' k = content lb k"
    using literal_prefix [OF assms(2) fmt assms(11) r, of env n types sizes pm 0 p] by (elim exE conjE) (rule that)
  have at: "?e < length fmt" "fmt ! ?e = CHR ''%''" "fmt ! (?e + 1) = CHR ''s''" "length fmt = ?e + 2"
    "take (?e + 1 + 1 - ?e) (drop ?e fmt) = ''%s''"
    using assms(1) by (simp_all add: nth_append)
  have sc: "scan_terminal fmt (?e + 1) = Some (?e + 1)"
    using assms(1) by (simp add: scan_terminal_def isTerminal_def)
  have pp: "process_param env types sizes pm ''%s'' 0 p (addr lb, ?j) (?r - ?e) lb' =
      Inr (True, p + 4 + k, (addr lb, ?j - 1), ?r - ?e + 1, lb')"
    using process_param_no_memory [of 0 types "''%s''" pm p k env lb' ?j "?r - ?e" sizes] assms(4-12) lb'(2) by simp
  have fin: "process_fmt_loop env fmt n types sizes pm (?e + 2) i x y z lb' = Inr (True, lb', z)" for i x y z
    using at(4) by (subst process_fmt_loop.simps) simp
  have "process_fmt_loop env fmt n types sizes pm ?e 0 p (addr lb, ?j) (?r - ?e) lb' = Inr (True, lb', ?r - ?e + 1)"
    using at sc pp fin assms(3) by (subst process_fmt_loop.simps) (simp add: Let_def)
  with lb'(1) have lp: "process_fmt_loop env fmt n types sizes pm 0 0 p (addr lb, start_pos) ?r lb = Inr (True, lb', ?r - ?e + 1)"
    by simp
  have "?r - ?e + 1 \<le> bufflen lb" "bufflen lb - (?r - ?e + 1) = ?j - 1" using assms(10,11) by arith+
  then have "sub64 (bufflen lb') (?r - ?e + 1) = ?j - 1" using lb'(3) by simp
  moreover have "sint (of_nat (?j - 1) :: 32 word) = int (?j - 1)"
    using assms(11,12) by (intro sint_of_nat_small) simp
  moreover have "int (?j - 1) = int ?j - 1" using assms(10) by linarith
  ultimately show ?thesis
    using lp lb'(4) assms(11) by (intro exI [of _ lb']) (simp add: process_fmt_def)
qed

theorem failed_string_loses_character_witness:
  "\<exists>lb'. process_fmt (sample_env\<lparr>malloc := (\<lambda>_ _. 0)\<rparr>) (''n='' @ ''%s'') 1 [kSTRING_WITH_NO_PRECISION] [0]
      (mem_write (\<lambda>_. NUL) 0 (le_bytes 4 2000)) 0 (sample_buffer 64) 31 = Inr (int (31 + length ''n='') - 1, lb')
    \<and> mem_read (content lb') 31 (length ''n='') = ''n=''"
proof -
  have "mem_read (mem_write (\<lambda>_. NUL) 0 (le_bytes 4 2000)) 0 4 = le_bytes 4 2000"
    using mem_read_write_same [of "\<lambda>_. NUL" 0 "le_bytes 4 2000"] by simp
  then have k: "le_nat (mem_read (mem_write (\<lambda>_. NUL) 0 (le_bytes 4 2000)) 0 4) = 2000" by simp
  show ?thesis
    by (rule failed_string_loses_character [OF refl _ _ _ _ k])
       (simp_all add: sample_defs param_order DEFAULT_PARAM_CACHE_SIZE_def)
qed

end
