(* ===== verification/Statistics.thy ===== *)
theory Statistics
  imports Throughput
begin

section \<open>The measurements of the benchmarks\<close>

text \<open>
  The counters and clock readings of \<^verbatim>\<open>unitest/perf_throughtput.cc\<close>, with the signal handler that ends its
  loop, and the durations \<^verbatim>\<open>unitest/perf_latency.cc\<close> prints. The statements the loops execute are in
  \<open>Throughput\<close> and \<open>Clients\<close>; here they only count.
\<close>

subsection \<open>Throughput\<close>

record timespec =
  tv_sec :: "64 word"
  tv_nsec :: "64 word"

definition nanoseconds :: "timespec \<Rightarrow> 64 word" where
  "nanoseconds ts = tv_sec ts * 1000000000 + tv_nsec ts"

record log_stat =
  payload :: "64 word"
  start_time :: "32 word"
  end_time :: "32 word"
  bytes_in :: "64 word"

text \<open>
  What the handler prints is computed from the payload, the difference of the two \<^verbatim>\<open>int\<close> members, undefined
  if it leaves the range of \<^verbatim>\<open>int\<close>, and the bytes.
\<close>

record report =
  reported_payload :: "64 word"
  reported_ns :: "int option"
  reported_bytes :: "64 word"

definition int_difference :: "32 word \<Rightarrow> 32 word \<Rightarrow> int option" where
  "int_difference x y =
     (let d = sint x - sint y in if - (2 ^ 31) \<le> d \<and> d < 2 ^ 31 then Some d else None)"

definition stat_report :: "timespec \<Rightarrow> log_stat \<Rightarrow> report \<times> log_stat" where
  "stat_report now st =
     (let st = st\<lparr>end_time := ucast (nanoseconds now)\<rparr>;
          r = \<lparr>reported_payload = payload st, reported_ns = int_difference (end_time st) (start_time st),
               reported_bytes = bytes_in st\<rparr>
      in (r, st\<lparr>end_time := 1\<rparr>))"

text \<open>\<^verbatim>\<open>perf_benchmark\<close> up to its loop.\<close>

definition benchmark_init :: "nat \<Rightarrow> timespec \<Rightarrow> log_stat \<Rightarrow> log_stat" where
  "benchmark_init n now st =
     (let st = st\<lparr>payload := of_nat n\<rparr>;
          st = st\<lparr>start_time := 0\<rparr>;
          st = st\<lparr>end_time := 0\<rparr>
      in st\<lparr>start_time := ucast (nanoseconds now)\<rparr>)"

text \<open>The loop: an iteration, or the signal between two iterations. The events after its end are left.\<close>

datatype benchmark_event = Iteration | Signal timespec

fun benchmark_loop :: "nat \<Rightarrow> benchmark_event list \<Rightarrow> log_stat \<Rightarrow> report list \<times> log_stat" where
  "benchmark_loop n [] st = ([], st)"
| "benchmark_loop n (Signal now # es) st =
     (let (r, st) = stat_report now st; (rs, st) = benchmark_loop n es st in (r # rs, st))"
| "benchmark_loop n (Iteration # es) st =
     (if end_time st = 0 then benchmark_loop n es (st\<lparr>bytes_in := bytes_in st + of_nat n\<rparr>) else ([], st))"

lemma benchmark_iterations:
  "end_time st = 0 \<Longrightarrow> benchmark_loop n (replicate k Iteration @ es) st =
     benchmark_loop n es (st\<lparr>bytes_in := bytes_in st + of_nat (k * n)\<rparr>)"
  by (induction k arbitrary: st) (simp_all add: algebra_simps)

lemma benchmark_run:
  "\<exists>st'. benchmark_loop n (replicate k Iteration @ Signal tb # Iteration # es) (benchmark_init n ta st) =
    ([\<lparr>reported_payload = of_nat n,
       reported_ns = int_difference (ucast (nanoseconds tb)) (ucast (nanoseconds ta)),
       reported_bytes = bytes_in st + of_nat (k * n)\<rparr>], st')
   \<and> bytes_in st' = bytes_in st + of_nat (k * n)"
proof -
  let ?st = "benchmark_init n ta st"
  have i: "end_time ?st = 0" "start_time ?st = ucast (nanoseconds ta)" "payload ?st = of_nat n" "bytes_in ?st = bytes_in st"
    by (simp_all add: benchmark_init_def Let_def)
  show ?thesis unfolding benchmark_iterations [OF i(1)] using i by (simp add: stat_report_def Let_def)
qed

text \<open>The difference of the truncated clock readings.\<close>

lemma sint_truncated:
  "sint (ucast (of_nat a :: 64 word) :: 32 word) = int a - 4294967296 * int ((a + 2147483648) div 4294967296)"
proof -
  have "sint (ucast (of_nat a :: 64 word) :: 32 word) = signed_take_bit 31 (int a)"
    by transfer (simp add: signed_take_bit_take_bit)
  moreover have "signed_take_bit 31 (int a) = (int a + 2147483648) mod 4294967296 - 2147483648"
    by (simp add: signed_take_bit_eq_take_bit_shift take_bit_eq_mod)
  moreover have "(int a + 2147483648) mod 4294967296 =
      int a + 2147483648 - 4294967296 * ((int a + 2147483648) div 4294967296)"
    by (simp only: minus_mult_div_eq_mod)
  moreover have "int ((a + 2147483648) div 4294967296) = (int a + 2147483648) div 4294967296"
    by (simp only: zdiv_int of_nat_add of_nat_numeral)
  ultimately show ?thesis by linarith
qed

text \<open>
  The readings of one run, \<open>a\<close> and \<open>b\<close> nanoseconds, lie in the same period of \<^verbatim>\<open>int\<close> if truncation takes the
  same multiple of 2^32 off both.
\<close>

definition same_period :: "nat \<Rightarrow> nat \<Rightarrow> bool" where
  "same_period a b \<longleftrightarrow> (a + 2147483648) div 4294967296 = (b + 2147483648) div 4294967296"

lemma another_period: "x < 2147483648 \<Longrightarrow> j + 1 \<le> k \<Longrightarrow> x - 4294967296 * (k - j) < - 2147483648" for x j k :: int
proof -
  assume x: "x < 2147483648" and "j + 1 \<le> k"
  then have "4294967296 * 1 \<le> 4294967296 * (k - j)" by (intro mult_left_mono) simp_all
  with x show ?thesis by simp
qed

lemma truncated_difference:
  assumes "a \<le> b"
  defines "r \<equiv> int_difference (ucast (of_nat b :: 64 word)) (ucast (of_nat a :: 64 word))"
  shows "if b - a < 2 ^ 31 then r = (if same_period a b then Some (int b - int a) else None)
    else r \<noteq> Some (int b - int a)"
proof -
  let ?j = "(a + 2147483648) div 4294967296" and ?k = "(b + 2147483648) div 4294967296"
  define d where "d = int b - int a - 4294967296 * (int ?k - int ?j)"
  have r: "r = (if - 2147483648 \<le> d \<and> d < 2147483648 then Some d else None)"
    unfolding r_def int_difference_def sint_truncated Let_def d_def by (simp add: algebra_simps)
  have n: "int b - int a = int (b - a)" using assms(1) by simp
  have le: "?j \<le> ?k" using assms(1) by (intro div_le_mono) simp
  show ?thesis
  proof (cases "b - a < 2 ^ 31")
    case True
    then have "int (b - a) < 2147483648" by simp
    with n have lt: "int b - int a < 2147483648" "0 \<le> int b - int a" by linarith+
    show ?thesis
    proof (cases "same_period a b")
      case same: True
      then have "?j = ?k" unfolding same_period_def .
      then have "int ?k - int ?j = 0" by (rule subst) (rule diff_self)
      then have d: "d = int b - int a" unfolding d_def by (simp only: mult_zero_right diff_0_right)
      have "- 2147483648 \<le> d \<and> d < 2147483648" using lt unfolding d by linarith
      then have "r = Some (int b - int a)" unfolding r d by (rule if_P)
      then show ?thesis unfolding if_P [OF True] if_P [OF same] .
    next
      case False
      with le have "?j < ?k" unfolding same_period_def by (rule le_neq_implies_less)
      then have "int ?j + 1 \<le> int ?k" by linarith
      with lt(1) have "d < - 2147483648" unfolding d_def by (rule another_period)
      then have "\<not> (- 2147483648 \<le> d \<and> d < 2147483648)" by linarith
      then have "r = None" unfolding r by (rule if_not_P)
      then show ?thesis unfolding if_P [OF True] if_not_P [OF False] .
    qed
  next
    case False
    then have "2147483648 \<le> int (b - a)" by simp
    with n have "\<not> int b - int a < 2147483648" by linarith
    then have "r \<noteq> Some (int b - int a)" unfolding r by (cases "d = int b - int a") auto
    then show ?thesis unfolding if_not_P [OF False] .
  qed
qed

subsection \<open>Latency\<close>

text \<open>The microseconds \<^verbatim>\<open>perf_latency.cc\<close> prints for a thousand statements.\<close>

definition printed_duration :: "timespec \<Rightarrow> timespec \<Rightarrow> 64 word" where
  "printed_duration from_time to_time =
     (let duration = tv_sec to_time * 1000000000 + tv_nsec to_time
            - (tv_sec from_time * 1000000000 + tv_nsec from_time)
      in duration div 1000)"

lemma printed_duration_exact:
  assumes "nanoseconds ta = of_nat a" "nanoseconds tb = of_nat b" "a \<le> b" "b < 2 ^ 64"
  shows "unat (printed_duration ta tb) = (b - a) div 1000"
proof -
  have "printed_duration ta tb = (of_nat b - of_nat a) div 1000"
    using assms(1,2) by (simp add: printed_duration_def nanoseconds_def Let_def)
  moreover have "(of_nat b - of_nat a :: 64 word) = of_nat (b - a)" using assms(3) by (simp add: of_nat_diff)
  moreover have "unat (of_nat (b - a) :: 64 word) = b - a" using assms(4) by (simp add: unat_of_nat)
  ultimately show ?thesis by (simp add: unat_div_distrib)
qed

subsection \<open>Properties\<close>

text \<open>
  C25. The signal ends the loop of the throughput benchmark after the statements executed so far, and the
  report counts their bytes on top of those of the runs before, which are not reset. The clock readings are
  kept in \<^verbatim>\<open>int\<close> members: if less than 2 147 483 648 nanoseconds lie between them,
  the duration in the report is right if both readings are in the same period of
  \<^verbatim>\<open>int\<close>, and otherwise the subtraction overflows, which is undefined; if more time
  lies between them, the duration is never right.
\<close>

theorem throughput_reported:
  assumes "nanoseconds ta = of_nat a" "nanoseconds tb = of_nat b" "a \<le> b"
  shows "\<exists>r st'. benchmark_loop n (replicate k Iteration @ Signal tb # Iteration # es) (benchmark_init n ta st) = ([r], st')
    \<and> reported_payload r = of_nat n \<and> reported_bytes r = bytes_in st + of_nat (k * n)
    \<and> bytes_in st' = reported_bytes r
    \<and> (if b - a < 2 ^ 31 then reported_ns r = (if same_period a b then Some (int b - int a) else None)
       else reported_ns r \<noteq> Some (int b - int a))"
proof -
  let ?i = "int_difference (ucast (nanoseconds tb)) (ucast (nanoseconds ta))"
  have d: "if b - a < 2 ^ 31 then ?i = (if same_period a b then Some (int b - int a) else None)
      else ?i \<noteq> Some (int b - int a)"
    using truncated_difference [OF assms(3)] unfolding assms(1,2) .
  show ?thesis using benchmark_run [of n k tb es ta st] by (elim exE conjE) (use d in simp)
qed

theorem throughput_reported_witness:
  "let t = (\<lambda>ns. \<lparr>tv_sec = 0, tv_nsec = ns\<rparr>);
       st = \<lparr>payload = 0, start_time = 0, end_time = 0, bytes_in = 0\<rparr>
   in \<exists>r1 st1 r2 st2.
        benchmark_loop 64 (replicate 2 Iteration @ Signal (t 7) # Iteration # []) (benchmark_init 64 (t 2) st) = ([r1], st1)
      \<and> benchmark_loop 128 (replicate 1 Iteration @ Signal (t 2147483653) # Iteration # [])
          (benchmark_init 128 (t 2147483640) st1) = ([r2], st2)
      \<and> reported_bytes r1 = 128 \<and> reported_payload r2 = 128 \<and> reported_bytes r2 = 256
      \<and> reported_ns r1 = Some 5 \<and> reported_ns r2 = None"
proof -
  let ?t = "\<lambda>ns. \<lparr>tv_sec = 0, tv_nsec = ns\<rparr>"
    and ?st = "\<lparr>payload = 0, start_time = 0, end_time = 0, bytes_in = 0\<rparr>"
  have ns: "nanoseconds (?t 2) = of_nat 2" "nanoseconds (?t 7) = of_nat 7"
    "nanoseconds (?t 2147483640) = of_nat 2147483640" "nanoseconds (?t 2147483653) = of_nat 2147483653"
    by (simp_all add: nanoseconds_def)
  have le: "2 \<le> (7 :: nat)" "2147483640 \<le> (2147483653 :: nat)" by simp_all
  have per: "same_period 2 7" "\<not> same_period 2147483640 2147483653" by (simp_all add: same_period_def)
  have lt: "(7 :: nat) - 2 < 2 ^ 31" "(2147483653 :: nat) - 2147483640 < 2 ^ 31" by simp_all
  obtain r1 st1 where r1: "benchmark_loop 64 (replicate 2 Iteration @ Signal (?t 7) # Iteration # [])
      (benchmark_init 64 (?t 2) ?st) = ([r1], st1)" "reported_payload r1 = of_nat 64"
      "reported_bytes r1 = bytes_in ?st + of_nat (2 * 64)" "bytes_in st1 = reported_bytes r1"
      "reported_ns r1 = Some (int 7 - int 2)"
    using throughput_reported [OF ns(1,2) le(1), of 64 2 "[]" ?st] unfolding if_P [OF lt(1)] if_P [OF per(1)]
    by (elim exE conjE)
  have b: "bytes_in st1 = 128" using r1(3,4) by simp
  obtain r2 st2 where r2: "benchmark_loop 128 (replicate 1 Iteration @ Signal (?t 2147483653) # Iteration # [])
      (benchmark_init 128 (?t 2147483640) st1) = ([r2], st2)" "reported_payload r2 = of_nat 128"
      "reported_bytes r2 = bytes_in st1 + of_nat (1 * 128)" "bytes_in st2 = reported_bytes r2" "reported_ns r2 = None"
    using throughput_reported [OF ns(3,4) le(2), of 128 1 "[]" st1] unfolding if_P [OF lt(2)] if_not_P [OF per(2)]
    by (elim exE conjE)
  have "reported_ns r1 = Some 5" using r1(5) by simp
  moreover have "reported_bytes r1 = 128" using r1(3) by simp
  moreover have "reported_payload r2 = 128" "reported_bytes r2 = 256" using r2(2,3) b by simp_all
  ultimately show ?thesis using r1(1) r2(1,5) unfolding Let_def by blast
qed

end
