(* ===== verification/Spec2Isabelle.thy ===== *)
theory Spec2Isabelle
  imports FormatParser ArgStore SpscSteps FormatTermination Backpressure ConcurrentProgram Failures Statistics
begin

text \<open>
  \<^bold>\<open>static_logger: a verification development.\<close>

  \<^verbatim>\<open>static_logger\<close> is a C++ logger with two halves. A log statement, the macro \<^verbatim>\<open>STATIC_LOG\<close> of
  \<^verbatim>\<open>src/src/static_log.h\<close>, has its format string parsed at compile time; at run time it copies its
  arguments, without formatting them, into a ring buffer of its own thread. A worker thread merges the
  ring buffers by timestamp, formats the records and writes the lines to the log file.

  \<^bold>\<open>The theories\<close>, in the order of the code:

  \<^item> \<open>Prelude\<close>: byte memories, 64-bit differences, the error monad, decimal numbers, little-endian bytes.
  \<^item> \<open>FormatParser\<close> (\<^verbatim>\<open>static_log_internal.h\<close>): \<^verbatim>\<open>getParamInfo\<close>, \<^verbatim>\<open>countFmtParams\<close>, \<^verbatim>\<open>analyzeFormatString\<close> and
    \<^verbatim>\<open>getNumNibblesNeeded\<close>, against a grammar of formats: the parser accepts exactly the grammar, ends on
    every string, never leaves the array, and returns the parameter types of the specifiers.
  \<^item> \<open>ArgStore\<close> (\<^verbatim>\<open>static_log_internal.h\<close>): \<^verbatim>\<open>getArgSizes\<close>, \<^verbatim>\<open>storeArguments\<close> and \<^verbatim>\<open>downCast\<close>, by argument
    class, against the image of the arguments; sizes and stores agree, except for the arguments named in
    its properties.
  \<^item> \<open>LogEntry\<close>, \<open>LogLevels\<close>: the record header, the levels, the static information.
  \<^item> \<open>StagingBuffer\<close> (\<^verbatim>\<open>static_log_backend.h\<close>, \<^verbatim>\<open>.cc\<close>): the class \<^verbatim>\<open>StagingBuffer\<close> with atomic operations; its
    invariant, and the refinement of a queue of records (locale \<open>record_fifo\<close>).
  \<^item> \<open>SpscSteps\<close>: the same code as single loads and stores of two threads, with the invariant that makes
    the queue property and the absence of overlapping accesses hold in every interleaving.
  \<^item> \<open>Prefix\<close>: the time and call information prefixes of a line.
  \<^item> \<open>Printf\<close>, \<open>Decode\<close>: what the code uses of \<^verbatim>\<open>snprintf\<close>; \<^verbatim>\<open>resize_log_buffer\<close>, \<^verbatim>\<open>decodeNonStringFmt\<close>,
    \<^verbatim>\<open>decodeStringFmt\<close> and \<^verbatim>\<open>process_fmt\<close>, equal to \<^verbatim>\<open>printf\<close> when the text fits, with the error behaviour
    when it does not. \<open>FormatTermination\<close>: the retries end.
  \<^item> \<open>Backend\<close> (\<^verbatim>\<open>static_log_backend.h\<close>): the object \<^verbatim>\<open>StaticLogBackend\<close>, its operations, and the invariant of
    the registered buffers; the contract of reserve, store and finish (locale \<open>record_space\<close>).
  \<^item> \<open>Frontend\<close> (\<^verbatim>\<open>static_log.h\<close>): the macro \<^verbatim>\<open>STATIC_LOG\<close>, which appends one framed record; the race on the
    shared \<^verbatim>\<open>param_size\<close> array.
  \<^item> \<open>Worker\<close>, \<open>PollLoop\<close> (\<^verbatim>\<open>static_log_backend.cc\<close>): \<^verbatim>\<open>processLogBuffer\<close> and \<^verbatim>\<open>ioPoll\<close>; the scan over the
    buffers (locale \<open>ending_fifo\<close>), its choice of the oldest record, the effect of an iteration.
  \<^item> \<open>EndToEnd\<close>: a statement's record becomes its line in the file.
  \<^item> \<open>LogSystem\<close>: all operations as steps of one transition system; reachable states satisfy the
    invariants of types, buffers and pointers.
  \<^item> \<open>QueueSpec\<close>: the specification of the logger as one queue per thread, and the forward simulation
    (locale \<open>forward_simulation\<close>) by which every run of the logger is a run of it.
  \<^item> \<open>Merge\<close>, \<open>Drain\<close>: the worker over many iterations. \<open>Merge\<close> is the order in which queues are emptied
    by always taking a front element with the smallest stamp, and the contract of a worker that does so
    (locale \<open>merging_worker\<close>); \<open>Drain\<close> shows that \<^verbatim>\<open>ioPoll\<close> satisfies it: it writes the lines of the pending
    statements in such an order, one in each iteration.
  \<^item> \<open>Shutdown\<close> (\<^verbatim>\<open>static_log_backend.cc\<close>): the destructor with the join of the worker, its last iterations,
    and the worker that never leaves while a thread lives.
  \<^item> \<open>Burst\<close>: the free space of a thread in any run of the logger; statements that never wait.
    \<open>Backpressure\<close>: a thread that does wait, in any interleaving, goes on once the worker has caught up.
  \<^item> \<open>Program\<close>: a list of statements, the end of the thread and the destructor, up to the contents of the
    log file; \<^verbatim>\<open>setLogFile\<close> with records pending.
  \<^item> \<open>Concurrent\<close>: the statements of several threads as the steps the threads take (the sizing, the
    reservation, each read while waiting, the stores, the commit), interleaved with each other, with the
    worker and with the interface. No step fails and every such run has the queues of one with atomic
    statements, by two more interpretations of \<open>forward_simulation\<close>; two threads at one statement race on
    its \<^verbatim>\<open>param_size\<close> array. \<open>ConcurrentProgram\<close>: each finished statement has its line in the file exactly
    once, whatever the interleaving.
  \<^item> \<open>Clients\<close> (\<^verbatim>\<open>static_log.cc\<close>, \<^verbatim>\<open>example/demo.cc\<close>, \<^verbatim>\<open>unitest/test_api.cc\<close>, \<^verbatim>\<open>perf_latency.cc\<close>, \<^verbatim>\<open>test_mt.cc\<close>): the
    public interface, and the programs of the repository that use it. \<open>Throughput\<close>
    (\<^verbatim>\<open>unitest/perf_throughtput.cc\<close>): the number of statements after which a thread waits if the worker does
    not run. \<open>Statistics\<close> (\<^verbatim>\<open>perf_throughtput.cc\<close>, \<^verbatim>\<open>perf_latency.cc\<close>): the counters, clock readings and
    reports of the benchmarks, with the signal that ends the loop.
  \<^item> \<open>Failures\<close> (\<^verbatim>\<open>static_log_backend.cc\<close>): a string parameter for which there is no memory, and
    \<^verbatim>\<open>threadBindCore\<close>.

  \<^bold>\<open>Correspondence.\<close> Each class is a record with the members in the code's order, each function a
  definition with its name; the arguments of \<^verbatim>\<open>STATIC_LOG\<close>, which the macro evaluates twice, have one value.
  A \<^verbatim>\<open>char*\<close> into a block is an offset, a block a total function from offsets to bytes with its size checked
  on every write of the log buffer; \<^verbatim>\<open>size_t\<close> arithmetic wraps where the code relies on it (\<open>sub64\<close>,
  words). Assertions, exceptions, undefined accesses and exits are values of error
  types. A pointer kept after the log buffer has moved is a block address, compared with the current one.

  \<^bold>\<open>Parameters.\<close> The operating system and the C library: whether \<^verbatim>\<open>open\<close> succeeds, the addresses \<^verbatim>\<open>malloc\<close> and
  \<^verbatim>\<open>new\<close> return, \<^verbatim>\<open>localtime\<close>, the clock and the cycle counter, the text of floating-point conversions,
  the result of \<^verbatim>\<open>pthread_setaffinity_np\<close>, and whether assertions are compiled in. \<^verbatim>\<open>write\<close> is taken to write all bytes.

  \<^bold>\<open>Scope of the properties on lines.\<close> With assertions, as in a build without \<^verbatim>\<open>NDEBUG\<close>, every string parameter fails
  that of \<^verbatim>\<open>decodeStringFmt\<close> (\<open>string_parameter_asserts\<close>), and a record that cannot be formatted is tried again
  forever. The properties on the lines in the file therefore hold for builds without assertions, for
  allocations that succeed, and for statements whose format has no \<open>*\<close>, whose arguments the conversions handle
  and whose line fits the log buffer (\<open>statement_ok\<close>, \<open>formattable\<close>, \<open>printable\<close>, \<open>drainable\<close>), with a clock that
  can be converted (\<open>clock_ok\<close>) and, where a call site is executed several times, arguments of the same
  types (\<open>uniform\<close>, \<open>event_ok\<close>). Those on interleaved threads exclude threads that share a statement
  (\<open>statements_disjoint\<close>), as those of \<^verbatim>\<open>test_mt.cc\<close> do.

  \<^bold>\<open>Bounds.\<close> \<open>retry_bound\<close> is the number of attempts the model gives \<^verbatim>\<open>decodeNonStringFmt\<close>; two are enough
  (\<open>process_fmt_terminates\<close>). The blocking loop of \<^verbatim>\<open>reserveSpaceInternal\<close> takes the list of values it
  reads from the consumer's position, and its result says whether it still spins after them. \<open>ioPoll\<close>
  takes one clock value for each iteration; the properties say how many iterations are enough, one for
  each pending record and at most three more.

  \<^bold>\<open>Not modelled.\<close> The weak memory model: the interleavings are sequentially consistent. In \<open>LogSystem\<close>
  the operations of a thread and the iterations of the worker are atomic; \<open>Concurrent\<close> divides the
  statements and keeps the iterations whole, and \<open>SpscSteps\<close> divides the operations of one buffer on both
  sides into single loads and stores. In \<open>Concurrent\<close> threads do not share a statement, except in the
  property on the race, and the refinement excludes level changes, since the level is read when a
  statement begins and its record appears when it finishes. \<^verbatim>\<open>checkFormat\<close> has an empty body and exists for
  the compiler's warnings; \<^verbatim>\<open>static_log_front.h\<close> declares nothing. Of the benchmarks and tests the runs of
  spdlog, the creation of threads, the installation of the signal handler and the floating-point output
  are left out, and so is \<^verbatim>\<open>test_utils.cc\<close>, whose single results the parser properties cover. The
  submodules are empty and the build files have no behaviour.
\<close>

end
